(* ===== verification/Bot_Prelude.thy ===== *)
theory Bot_Prelude
  imports Main "HOL-Library.Word"
begin

text \<open>
  What every component of the model shares: faults of C code as values of a sum type,
  bounds-checked arrays, NUL-terminated strings in a buffer, the string functions of the C
  library the sources call (\<open>strchr\<close>, \<open>strncmp\<close>, \<open>snprintf\<close> truncation, \<open>atoi\<close>, \<open>%d\<close>),
  and the collections of simplification rules the component proofs use.

  A C string argument is the list of its characters up to, and without, the terminating NUL.
  A character array is the list of all its cells. Every read or write of an array goes through
  \<open>arr_read\<close> and \<open>arr_write\<close>, so an access outside the object is the value
  \<open>Inl Out_Of_Bounds\<close> and never an unspecified HOL value.
\<close>

named_theorems run_simps \<open>evaluation of the fallible steps of the model\<close>
named_theorems cstr_simps \<open>facts on C strings and buffers\<close>

section \<open>Faults\<close>

datatype fault =
    Out_Of_Bounds
  | Uninitialised
  | Null_Pointer
  | Blocked
  | Process_Exit

text \<open>
  \<^verbatim>\<open>Blocked\<close> is the value of a call that waits for a mutex nobody will release, \<^verbatim>\<open>Process_Exit\<close> that of a call of
  \<^verbatim>\<open>exit\<close>. An access to memory that has been freed counts as out of bounds.
  Sequencing of fallible steps stops at the first fault.
\<close>

fun and_then :: "fault + 'a \<Rightarrow> ('a \<Rightarrow> fault + 'b) \<Rightarrow> fault + 'b" where
  "and_then (Inl f) k = Inl f"
| "and_then (Inr x) k = k x"

declare and_then.simps [run_simps]

lemma and_then_Inr_iff: "and_then r k = Inr y \<longleftrightarrow> (\<exists>x. r = Inr x \<and> k x = Inr y)"
  by (cases r) auto

lemma and_then_cong [fundef_cong]:
  "r = r' \<Longrightarrow> (\<And>x. r' = Inr x \<Longrightarrow> k x = k' x) \<Longrightarrow> and_then r k = and_then r' k'"
  by (cases r') auto

lemma and_then_split:
  "P (and_then r k) \<longleftrightarrow> (\<forall>f. r = Inl f \<longrightarrow> P (Inl f)) \<and> (\<forall>x. r = Inr x \<longrightarrow> P (k x))"
  by (cases r) auto

section \<open>Bounds-checked arrays\<close>

definition arr_read :: "'a list \<Rightarrow> int \<Rightarrow> fault + 'a" where
  "arr_read xs i = (if 0 \<le> i \<and> nat i < length xs then Inr (xs ! nat i) else Inl Out_Of_Bounds)"

definition arr_write :: "'a list \<Rightarrow> int \<Rightarrow> 'a \<Rightarrow> fault + 'a list" where
  "arr_write xs i x =
     (if 0 \<le> i \<and> nat i < length xs then Inr (xs[nat i := x]) else Inl Out_Of_Bounds)"

lemma arr_read_ok [simp]: "0 \<le> i \<Longrightarrow> nat i < length xs \<Longrightarrow> arr_read xs i = Inr (xs ! nat i)"
  by (simp add: arr_read_def)

lemma arr_read_nat: "n < length xs \<Longrightarrow> arr_read xs (int n) = Inr (xs ! n)"
  by simp

lemma arr_write_ok [simp]:
  "0 \<le> i \<Longrightarrow> nat i < length xs \<Longrightarrow> arr_write xs i x = Inr (xs[nat i := x])"
  by (simp add: arr_write_def)

lemma arr_write_out [simp]:
  "i < 0 \<Longrightarrow> arr_write xs i x = Inl Out_Of_Bounds"
  "length xs \<le> nat i \<Longrightarrow> arr_write xs i x = Inl Out_Of_Bounds"
  by (auto simp: arr_write_def)

lemma arr_write_length: "arr_write xs i x = Inr ys \<Longrightarrow> length ys = length xs"
  by (auto simp: arr_write_def split: if_splits)

text \<open>
  \<open>memcpy\<close> of a list of cells to position \<open>pos\<close> of an array: all of the target range has to
  lie in the array. \<open>memcpy(p, q, 0)\<close> touches nothing.
\<close>

definition arr_blit :: "'a list \<Rightarrow> int \<Rightarrow> 'a list \<Rightarrow> fault + 'a list" where
  "arr_blit xs pos ys =
     (if ys = [] then Inr xs
      else if 0 \<le> pos \<and> nat pos + length ys \<le> length xs
      then Inr (take (nat pos) xs @ ys @ drop (nat pos + length ys) xs)
      else Inl Out_Of_Bounds)"

lemma arr_blit_length: "arr_blit xs pos ys = Inr zs \<Longrightarrow> length zs = length xs"
  by (auto simp: arr_blit_def split: if_splits)

lemma arr_blit_ok:
  "0 \<le> pos \<Longrightarrow> nat pos + length ys \<le> length xs \<Longrightarrow>
   arr_blit xs pos ys = Inr (take (nat pos) xs @ ys @ drop (nat pos + length ys) xs)"
  by (simp add: arr_blit_def)

section \<open>C strings\<close>

abbreviation NUL :: char where "NUL \<equiv> CHR 0x00"
abbreviation LF :: char where "LF \<equiv> CHR 0x0A"
abbreviation CR :: char where "CR \<equiv> CHR 0x0D"
abbreviation crlf :: string where "crlf \<equiv> [CR, LF]"

text \<open>A well-formed C string argument holds no NUL.\<close>

definition c_str :: "string \<Rightarrow> bool" where
  "c_str s \<longleftrightarrow> NUL \<notin> set s"

lemma c_str_append [simp]: "c_str (s @ t) \<longleftrightarrow> c_str s \<and> c_str t"
  by (auto simp: c_str_def)

lemma c_str_Cons [simp]: "c_str (c # s) \<longleftrightarrow> c \<noteq> NUL \<and> c_str s"
  by (auto simp: c_str_def)

lemma c_str_Nil [simp]: "c_str []"
  by (simp add: c_str_def)

lemma c_str_take: "c_str s \<Longrightarrow> c_str (take n s)"
  by (auto simp: c_str_def dest: in_set_takeD)

lemma c_str_drop: "c_str s \<Longrightarrow> c_str (drop n s)"
  by (auto simp: c_str_def dest: in_set_dropD)

text \<open>The C string that starts at offset \<open>off\<close> of a buffer; a missing NUL is an overread.\<close>

definition c_string_at :: "char list \<Rightarrow> nat \<Rightarrow> fault + string" where
  "c_string_at buf off =
     (if NUL \<in> set (drop off buf) then Inr (takeWhile (\<lambda>c. c \<noteq> NUL) (drop off buf))
      else Inl Out_Of_Bounds)"

lemma takeWhile_c_str: "c_str s \<Longrightarrow> takeWhile (\<lambda>c. c \<noteq> NUL) (s @ NUL # rest) = s"
  by (induction s) auto

lemma c_string_at_append:
  "c_str s \<Longrightarrow> c_string_at (pre @ s @ NUL # rest) (length pre) = Inr s"
  by (simp add: c_string_at_def takeWhile_c_str)

lemma c_string_at_0: "c_str s \<Longrightarrow> c_string_at (s @ NUL # rest) 0 = Inr s"
  by (simp add: c_string_at_def takeWhile_c_str)

lemma c_string_at_c_str: "c_string_at buf off = Inr s \<Longrightarrow> c_str s"
  by (auto simp: c_string_at_def c_str_def split: if_splits dest: set_takeWhileD)

lemma takeWhile_shorter: "x \<in> set xs \<Longrightarrow> \<not> P x \<Longrightarrow> length (takeWhile P xs) < length xs"
  by (induction xs) auto

lemma c_string_at_length: "c_string_at buf off = Inr s \<Longrightarrow> off + length s < length buf"
proof -
  assume a: "c_string_at buf off = Inr s"
  then have nul: "NUL \<in> set (drop off buf)" and s: "s = takeWhile (\<lambda>c. c \<noteq> NUL) (drop off buf)"
    by (auto simp: c_string_at_def split: if_splits)
  from nul have "length s < length (drop off buf)"
    unfolding s by (intro takeWhile_shorter) auto
  then show ?thesis by simp
qed

text \<open>\<open>strchr\<close>: the position of the first occurrence, \<open>None\<close> for a null pointer.\<close>

fun strchr :: "string \<Rightarrow> char \<Rightarrow> nat option" where
  "strchr [] c = None"
| "strchr (d # s) c = (if d = c then Some 0 else map_option Suc (strchr s c))"

lemma strchr_None: "strchr s c = None \<longleftrightarrow> c \<notin> set s"
  by (induction s) auto

lemma strchr_append: "c \<notin> set s \<Longrightarrow> strchr (s @ c # t) c = Some (length s)"
  by (induction s) auto

lemma strchr_less: "strchr s c = Some n \<Longrightarrow> n < length s"
  by (induction s arbitrary: n) (auto split: if_splits)

text \<open>\<open>strncmp(s, p, length p) = 0\<close> for a prefix \<open>p\<close> without NUL.\<close>

definition strncmp_eq :: "string \<Rightarrow> string \<Rightarrow> bool" where
  "strncmp_eq s p \<longleftrightarrow> take (length p) s = p"

lemma strncmp_eq_append: "strncmp_eq (p @ s) p"
  by (simp add: strncmp_eq_def)

lemma strncmp_eq_length: "strncmp_eq s p \<Longrightarrow> length p \<le> length s"
  by (metis linorder_linear order_refl strncmp_eq_def take_all_iff)

text \<open>\<open>vsnprintf(buf, n, ...)\<close> keeps at most \<open>n - 1\<close> characters of the formatted text.\<close>

definition vsnprintf :: "nat \<Rightarrow> string \<Rightarrow> string" where
  "vsnprintf n text = take (n - 1) text"

lemma length_vsnprintf: "length (vsnprintf n s) \<le> n - 1"
  by (simp add: vsnprintf_def)

lemma vsnprintf_short: "length s < n \<Longrightarrow> vsnprintf n s = s"
  by (simp add: vsnprintf_def)

section \<open>Decimal numbers\<close>

definition digit_char :: "nat \<Rightarrow> char" where
  "digit_char d = char_of (48 + d)"

definition digit_val :: "char \<Rightarrow> nat" where
  "digit_val c = of_char c - 48"

definition is_digit :: "char \<Rightarrow> bool" where
  "is_digit c \<longleftrightarrow> 48 \<le> (of_char c :: nat) \<and> (of_char c :: nat) \<le> 57"

fun nat_digits :: "nat \<Rightarrow> string" where
  "nat_digits n =
     (if n < 10 then [digit_char n] else nat_digits (n div 10) @ [digit_char (n mod 10)])"

declare nat_digits.simps [simp del]

text \<open>\<open>%d\<close>\<close>

definition int_digits :: "int \<Rightarrow> string" where
  "int_digits i = (if i < 0 then CHR ''-'' # nat_digits (nat (- i)) else nat_digits (nat i))"

fun digits_val :: "nat \<Rightarrow> string \<Rightarrow> nat" where
  "digits_val acc [] = acc"
| "digits_val acc (c # s) = (if is_digit c then digits_val (10 * acc + digit_val c) s else acc)"

text \<open>
  \<open>atoi\<close>: white space, an optional sign, digits up to the first other character, 0 where there
  is no number. The C standard leaves the result open where the value does not fit an \<open>int\<close>; the model
  does what the C library does, which reads a 64-bit \<open>long\<close> that stops at its bounds and keeps the low 32 bits.
\<close>

definition is_space :: "char \<Rightarrow> bool" where
  "is_space c \<longleftrightarrow> c = CHR '' '' \<or> (9 \<le> (of_char c :: nat) \<and> (of_char c :: nat) \<le> 13)"

definition long_to_int :: "int \<Rightarrow> int" where
  "long_to_int v = (max (- (2 ^ 63)) (min (2 ^ 63 - 1) v) + 2 ^ 31) mod 2 ^ 32 - 2 ^ 31"

definition atoi :: "string \<Rightarrow> int" where
  "atoi s = long_to_int
     (case dropWhile is_space s of
        [] \<Rightarrow> 0
      | c # t \<Rightarrow>
          if c = CHR ''-'' then - int (digits_val 0 t)
          else if c = CHR ''+'' then int (digits_val 0 t)
          else int (digits_val 0 (c # t)))"

lemma long_to_int_small: "- (2 ^ 31) \<le> v \<Longrightarrow> v < 2 ^ 31 \<Longrightarrow> long_to_int v = v"
  by (simp add: long_to_int_def)

lemma atoi_range: "- (2 ^ 31) \<le> atoi s \<and> atoi s < 2 ^ 31"
proof -
  have "0 \<le> v mod (2 ^ 32 :: int) \<and> v mod 2 ^ 32 < 2 ^ 32" for v by simp
  then show ?thesis unfolding atoi_def long_to_int_def by (simp add: algebra_simps)
qed

lemma digit_char_props:
  assumes "d < 10"
  shows "is_digit (digit_char d)" and "digit_val (digit_char d) = d"
    and "digit_char d \<noteq> CHR ''-''" and "digit_char d \<noteq> CHR ''+''"
    and "\<not> is_space (digit_char d)" and "digit_char d \<noteq> NUL" and "digit_char d \<noteq> CHR '' ''"
proof -
  have v: "(of_char (digit_char d) :: nat) = 48 + d"
    using assms by (simp add: digit_char_def)
  then show "is_digit (digit_char d)" and "digit_val (digit_char d) = d"
    using assms by (simp_all add: is_digit_def digit_val_def)
  show "digit_char d \<noteq> CHR ''-''" "digit_char d \<noteq> CHR ''+''" "digit_char d \<noteq> NUL"
    "digit_char d \<noteq> CHR '' ''" using v assms by auto
  then show "\<not> is_space (digit_char d)" using v by (simp add: is_space_def)
qed

lemma digits_val_append:
  "(\<forall>c \<in> set s. is_digit c) \<Longrightarrow> digits_val acc (s @ t) = digits_val (digits_val acc s) t"
  by (induction s arbitrary: acc) auto

lemma nat_digits_all_digit: "\<forall>c \<in> set (nat_digits n). is_digit c"
proof (induction n rule: nat_digits.induct)
  case (1 n)
  then show ?case
    by (cases "n < 10") (auto simp: nat_digits.simps [of n] digit_char_props)
qed

lemma digits_val_nat_digits: "digits_val 0 (nat_digits n) = n"
proof (induction n rule: nat_digits.induct)
  case (1 n)
  show ?case
  proof (cases "n < 10")
    case True
    then show ?thesis by (simp add: nat_digits.simps [of n] digit_char_props)
  next
    case False
    with 1 have "digits_val 0 (nat_digits (n div 10)) = n div 10" by simp
    with False show ?thesis
      by (simp add: nat_digits.simps [of n] digits_val_append nat_digits_all_digit digit_char_props)
  qed
qed

lemma nat_digits_Cons: "\<exists>d s. nat_digits n = digit_char d # s \<and> d < 10"
proof (induction n rule: nat_digits.induct)
  case (1 n)
  then show ?case
    by (cases "n < 10") (auto simp: nat_digits.simps [of n])
qed

text \<open>\<open>atoi\<close> reads back what \<open>%d\<close> prints.\<close>

lemma atoi_int_digits:
  assumes "- (2 ^ 31) \<le> i" and "i < 2 ^ 31"
  shows "atoi (int_digits i) = i"
proof (cases "i < 0")
  case True
  then show ?thesis using assms by (simp add: int_digits_def atoi_def is_space_def digits_val_nat_digits long_to_int_small)
next
  case False
  obtain d s where ds: "nat_digits (nat i) = digit_char d # s" "d < 10"
    using nat_digits_Cons by blast
  with False have "atoi (int_digits i) = long_to_int (int (digits_val 0 (nat_digits (nat i))))"
    by (simp add: int_digits_def atoi_def digit_char_props)
  with False show ?thesis using assms by (simp add: digits_val_nat_digits long_to_int_small)
qed

end
