(* ===== verification/Irc_Output.thy ===== *)
theory Irc_Output
  imports Bot_Prelude
begin

text \<open>
  The sending half of \<^verbatim>\<open>src/irc.c\<close> and \<^verbatim>\<open>src/net.c\<close>: \<open>net_raw\<close> formats a line into a 512-byte
  buffer and writes it, and the \<open>irc_*\<close> functions format the IRC commands. A sending function is
  modelled by the text it hands to the socket (or the SSL layer) in one write. Also here:
  \<open>irc_filter\<close> and \<open>irc_parsesender\<close>, and the function table \<open>core_ctx\<close> of \<^verbatim>\<open>include/module.h\<close>
  as a datatype of the calls a module makes.
\<close>

section \<open>Definitions of the source\<close>

text \<open>\<open>_net_raws\<close> writes a string as it is; \<open>net_raw\<close> formats it into \<open>sbuf\<close> first.\<close>

definition net_raws :: "string \<Rightarrow> string" where
  "net_raws ptr = ptr"

definition net_raw :: "string \<Rightarrow> string" where
  "net_raw text = net_raws (vsnprintf 512 text)"

fun irc_filter :: "string \<Rightarrow> string" where
  "irc_filter [] = []"
| "irc_filter (c # str) = (if c = CR \<or> c = LF then CHR '' '' else c) # irc_filter str"

definition irc_message :: "string \<Rightarrow> string \<Rightarrow> string" where
  "irc_message chan message = net_raw (''PRIVMSG '' @ chan @ '' :'' @ message @ crlf)"

definition irc_message_va :: "string \<Rightarrow> string \<Rightarrow> string" where
  "irc_message_va chan text = irc_message chan (vsnprintf 512 text)"

definition irc_action :: "string \<Rightarrow> string \<Rightarrow> string" where
  "irc_action chan message =
     net_raw (''PRIVMSG '' @ chan @ '' :'' @ [CHR 0x01] @ ''ACTION '' @ message @ [CHR 0x01] @ crlf)"

definition irc_join :: "string \<Rightarrow> string" where
  "irc_join chan = net_raw (''JOIN '' @ chan @ crlf)"

definition irc_part :: "string \<Rightarrow> string \<Rightarrow> string" where
  "irc_part chan message = net_raw (''PART '' @ chan @ '' :'' @ message @ crlf)"

definition irc_chmode :: "string \<Rightarrow> string \<Rightarrow> string" where
  "irc_chmode chan modes = net_raw (''MODE '' @ chan @ '' '' @ modes @ crlf)"

definition irc_kick :: "string \<Rightarrow> string \<Rightarrow> string option \<Rightarrow> string" where
  "irc_kick chan nick reason =
     (case reason of
        Some r \<Rightarrow> net_raw (''KICK '' @ chan @ '' '' @ nick @ '' :'' @ r @ crlf)
      | None \<Rightarrow> net_raw (''KICK '' @ chan @ '' '' @ nick @ crlf))"

definition irc_raw :: "string \<Rightarrow> string" where
  "irc_raw message = net_raw (message @ crlf)"

text \<open>\<open>ident\<close> and \<open>host\<close> are null pointers where the separator is missing.\<close>

record command_sender =
  sender_nick :: string
  sender_ident :: "string option"
  sender_host :: "string option"
  permission_level :: int

definition irc_parsesender :: "command_sender \<Rightarrow> string \<Rightarrow> command_sender" where
  "irc_parsesender sender str =
     (case strchr str (CHR ''!'') of
        None \<Rightarrow>
          (case strchr [] (CHR ''@'') of
             None \<Rightarrow> sender\<lparr>sender_nick := str, sender_ident := None, sender_host := None\<rparr>
           | Some j \<Rightarrow> sender\<lparr>sender_nick := str, sender_ident := None, sender_host := Some (drop (Suc j) [])\<rparr>)
      | Some i \<Rightarrow>
          (let t = drop (Suc i) str in
           case strchr t (CHR ''@'') of
             None \<Rightarrow> sender\<lparr>sender_nick := take i str, sender_ident := Some t, sender_host := None\<rparr>
           | Some j \<Rightarrow>
               sender\<lparr>sender_nick := take i str, sender_ident := Some (take j t), sender_host := Some (drop (Suc j) t)\<rparr>))"

text \<open>
  The calls a module makes through \<open>core_ctx\<close>. \<open>Msgva\<close> and \<open>Raw_va\<close> carry the formatted text;
  \<open>Raise_usr1\<close> is \<open>raise(SIGUSR1)\<close>, which sends nothing. The permission calls are state changes and
  are not among them.
\<close>

datatype core_call =
    Msg string string
  | Msgva string string
  | Action string string
  | Join string
  | Part string string
  | Chmode string string
  | Kick string string "string option"
  | Raw string
  | Raw_va string
  | Raise_usr1

fun perform :: "core_call \<Rightarrow> string" where
  "perform (Msg chan message) = irc_message chan message"
| "perform (Msgva chan text) = irc_message_va chan text"
| "perform (Action chan message) = irc_action chan message"
| "perform (Join chan) = irc_join chan"
| "perform (Part chan message) = irc_part chan message"
| "perform (Chmode chan modes) = irc_chmode chan modes"
| "perform (Kick chan nick reason) = irc_kick chan nick reason"
| "perform (Raw message) = irc_raw message"
| "perform (Raw_va text) = net_raw text"
| "perform Raise_usr1 = []"

section \<open>Lines on the wire\<close>

text \<open>Text without line breaks, and what a call puts on a line before the line end.\<close>

definition clean :: "string \<Rightarrow> bool" where
  "clean s \<longleftrightarrow> CR \<notin> set s \<and> LF \<notin> set s"

lemma clean_simps [simp]:
  "clean []" "clean (c # s) \<longleftrightarrow> c \<noteq> CR \<and> c \<noteq> LF \<and> clean s" "clean (s @ t) \<longleftrightarrow> clean s \<and> clean t"
  by (auto simp: clean_def)

lemma clean_take: "clean s \<Longrightarrow> clean (take n s)"
  by (auto simp: clean_def dest: in_set_takeD)

fun call_body :: "core_call \<Rightarrow> string" where
  "call_body (Msg chan message) = ''PRIVMSG '' @ chan @ '' :'' @ message"
| "call_body (Msgva chan text) = ''PRIVMSG '' @ chan @ '' :'' @ take 511 text"
| "call_body (Action chan message) =
     ''PRIVMSG '' @ chan @ '' :'' @ [CHR 0x01] @ ''ACTION '' @ message @ [CHR 0x01]"
| "call_body (Join chan) = ''JOIN '' @ chan"
| "call_body (Part chan message) = ''PART '' @ chan @ '' :'' @ message"
| "call_body (Chmode chan modes) = ''MODE '' @ chan @ '' '' @ modes"
| "call_body (Kick chan nick reason) =
     ''KICK '' @ chan @ '' '' @ nick @ (case reason of None \<Rightarrow> [] | Some r \<Rightarrow> '' :'' @ r)"
| "call_body (Raw message) = message"
| "call_body (Raw_va text) = text"
| "call_body Raise_usr1 = []"

definition ends_line :: "core_call \<Rightarrow> bool" where
  "ends_line c \<longleftrightarrow> c \<noteq> Raise_usr1 \<and> (\<forall>t. c \<noteq> Raw_va t)"

lemma perform_body: "ends_line c \<Longrightarrow> perform c = take 511 (call_body c @ crlf)"
  by (cases c) (simp_all add: ends_line_def net_raw_def net_raws_def vsnprintf_def irc_message_def
      irc_message_va_def irc_action_def irc_join_def irc_part_def irc_chmode_def irc_kick_def irc_raw_def
      split: option.split)

lemma perform_length: "length (perform c) \<le> 511"
proof (cases "ends_line c")
  case True
  then show ?thesis by (simp add: perform_body)
next
  case False
  then show ?thesis by (cases c) (auto simp: ends_line_def net_raw_def net_raws_def vsnprintf_def)
qed

lemma take_crlf:
  assumes "clean body"
  shows "length body \<le> 509 \<Longrightarrow> take 511 (body @ crlf) = body @ crlf"
    and "510 \<le> length body \<Longrightarrow> LF \<notin> set (take 511 (body @ crlf))"
proof -
  show "length body \<le> 509 \<Longrightarrow> take 511 (body @ crlf) = body @ crlf" by simp
  assume "510 \<le> length body"
  then have "take 511 (body @ crlf) = take 511 (body @ [CR])"
    by (cases "length body = 510") simp_all
  then show "LF \<notin> set (take 511 (body @ crlf))"
    using assms by (auto simp: clean_def dest: in_set_takeD)
qed

section \<open>Properties of the sending side\<close>

text \<open>
  C37: a call whose text holds no line break puts exactly its text and one line end on the wire
  when the text has at most 509 bytes; a longer text is cut at 511 bytes and the line end is lost
  with it, so what is sent next continues the same line. Nothing longer than 511 bytes is sent.
\<close>

theorem send_framing:
  assumes "ends_line c" and "clean (call_body c)"
  shows "length (perform c) \<le> 511 \<and>
    (if length (call_body c) \<le> 509 then perform c = call_body c @ crlf
     else LF \<notin> set (perform c) \<and> length (perform c) = 511)"
  using take_crlf [OF assms(2)] perform_length [of c] by (auto simp: perform_body [OF assms(1)])

theorem send_framing_witness:
  "perform (Msg ''#c'' ''hi'') = ''PRIVMSG #c :hi'' @ crlf \<and>
   LF \<notin> set (perform (Msg ''#c'' (replicate 500 (CHR ''a''))))"
proof
  have 1: "ends_line (Msg ''#c'' ''hi'')" "clean (call_body (Msg ''#c'' ''hi''))"
    by (simp_all add: ends_line_def)
  show "perform (Msg ''#c'' ''hi'') = ''PRIVMSG #c :hi'' @ crlf"
    using send_framing [OF 1] by simp
  have "clean (replicate 500 (CHR ''a''))" by (simp add: clean_def)
  then have 2: "ends_line (Msg ''#c'' (replicate 500 (CHR ''a'')))"
      "clean (call_body (Msg ''#c'' (replicate 500 (CHR ''a''))))"
    by (simp_all add: ends_line_def)
  show "LF \<notin> set (perform (Msg ''#c'' (replicate 500 (CHR ''a''))))"
    using send_framing [OF 2] by simp
qed

text \<open>
  \<open>irc_filter\<close> keeps the length and every character that is not a line break, leaves no line
  break, and does nothing to text that has none.
\<close>

lemma irc_filter_makes_clean:
  "clean (irc_filter s) \<and> length (irc_filter s) = length s \<and> (clean s \<longleftrightarrow> irc_filter s = s) \<and>
   list_all2 (\<lambda>c d. d = c \<or> (c = CR \<or> c = LF) \<and> d = CHR '' '') s (irc_filter s)"
  by (induction s) auto

text \<open>
  \<open>irc_parsesender\<close> takes \<open>nick!ident@host\<close> apart at the first exclamation mark and the first at
  sign behind it; without an exclamation mark the ident and the host are null pointers even when
  there is an at sign, and without an at sign the host is.
\<close>

lemma irc_parsesender_splits:
  assumes n: "CHR ''!'' \<notin> set n" and i: "CHR ''@'' \<notin> set i"
  shows "irc_parsesender s (n @ ''!'' @ i @ ''@'' @ h) = s\<lparr>sender_nick := n, sender_ident := Some i, sender_host := Some h\<rparr> \<and>
    irc_parsesender s (n @ ''!'' @ i) = s\<lparr>sender_nick := n, sender_ident := Some i, sender_host := None\<rparr> \<and>
    irc_parsesender s n = s\<lparr>sender_nick := n, sender_ident := None, sender_host := None\<rparr>"
  using n i by (simp add: irc_parsesender_def strchr_append Let_def iffD2 [OF strchr_None])

end
