(* ===== verification/Irc_Input.thy ===== *)
theory Irc_Input
  imports Irc_Output
begin

text \<open>
  The receiving half of \<^verbatim>\<open>src/irc.c\<close>: \<open>irc_loop\<close> copies the bytes of each \<open>net_recv\<close> into a
  513-byte line buffer, cuts lines at CR LF, answers PING and takes the words of a message apart in
  place, by pointers into the buffer. The model keeps the buffer, the index and the pointers (as
  offsets) of the code, and every write is bounds-checked. A list-level parser of a line and a
  list-level line splitter specify what the pointer code computes.
\<close>

section \<open>Definitions of the source\<close>

text \<open>
  What the loop does to the outside: a write to the server, or a call of \<open>modules_check_cmd\<close> with
  the sender, the place to answer to and the message.
\<close>

datatype irc_event =
    Sent string
  | Check_cmd string string string

text \<open>The local pointers of the word loop, as offsets into \<open>buf\<close>; \<open>w_start\<close> is uninitialised at first.\<close>

record line_words =
  w_count :: nat
  w_user :: "nat option"
  w_command :: "nat option"
  w_where :: "nat option"
  w_message :: "nat option"
  w_start :: "nat option"

definition no_words :: line_words where
  "no_words = \<lparr>w_count = 0, w_user = None, w_command = None, w_where = None, w_message = None, w_start = None\<rparr>"

text \<open>The \<open>switch\<close> on the number of words so far.\<close>

definition end_word :: "line_words \<Rightarrow> fault + line_words" where
  "end_word w =
     (let w = w\<lparr>w_count := w_count w + 1\<rparr> in
      if w_count w = 1 then Inr (w\<lparr>w_user := Some 1\<rparr>)
      else if w_count w = 2 then
        (case w_start w of None \<Rightarrow> Inl Uninitialised | Some start \<Rightarrow> Inr (w\<lparr>w_command := Some start\<rparr>))
      else if w_count w = 3 then
        (case w_start w of None \<Rightarrow> Inl Uninitialised | Some start \<Rightarrow> Inr (w\<lparr>w_where := Some start\<rparr>))
      else Inr w)"

function parse_words :: "char list \<Rightarrow> nat \<Rightarrow> nat \<Rightarrow> line_words \<Rightarrow> fault + char list \<times> line_words" where
  "parse_words buf l j w =
     (if j < l then
        and_then (arr_read buf (int j))
          (\<lambda>c.
             if c = CHR '' '' then
               and_then (arr_write buf (int j) NUL)
                 (\<lambda>buf. and_then (end_word w)
                    (\<lambda>w. if j = l - 1 then parse_words buf l (j + 1) w
                         else parse_words buf l (j + 1) (w\<lparr>w_start := Some (j + 1)\<rparr>)))
             else if c = CHR '':'' \<and> w_count w = 3 then
               Inr (buf, if j < l - 1 then w\<lparr>w_message := Some (j + 1)\<rparr> else w)
             else parse_words buf l (j + 1) w)
      else Inr (buf, w))"
  by pat_completeness auto
termination
  by (relation "measure (\<lambda>(buf, l, j, w). l - j)") auto

declare parse_words.simps [simp del]

text \<open>Where to answer: the channel, or the nick of the sender (\<open>nickbuf\<close> has 513 bytes).\<close>

definition reply_target :: "char \<Rightarrow> string \<Rightarrow> string \<Rightarrow> fault + string" where
  "reply_target first where' user =
     (if first \<in> {CHR ''#'', CHR ''&'', CHR ''+'', CHR ''!''} then Inr where'
      else
        (case strchr user (CHR ''!'') of
           None \<Rightarrow> Inr user
         | Some sep \<Rightarrow> if sep < 513 then Inr (take sep user) else Inl Out_Of_Bounds))"

definition handle_privmsg :: "char list \<Rightarrow> line_words \<Rightarrow> fault + irc_event list" where
  "handle_privmsg buf w =
     (case (w_where w, w_message w, w_user w) of
        (Some wh, Some msg, Some us) \<Rightarrow>
          and_then (c_string_at buf us)
            (\<lambda>user. and_then (c_string_at buf wh)
               (\<lambda>where'. and_then (c_string_at buf msg)
                  (\<lambda>message. and_then (arr_read buf (int wh))
                     (\<lambda>first. and_then (reply_target first where' user)
                        (\<lambda>target. Inr [Check_cmd user target message])))))
      | (Some wh, Some msg, None) \<Rightarrow> Inl Null_Pointer
      | _ \<Rightarrow> Inr [])"

text \<open>One complete line: \<open>buf\<close> is terminated and \<open>l\<close> is the index of its last byte.\<close>

definition handle_line :: "char list \<Rightarrow> nat \<Rightarrow> fault + char list \<times> irc_event list" where
  "handle_line buf l =
     (if strncmp_eq buf ''PING'' then
        and_then (arr_write buf 1 (CHR ''O''))
          (\<lambda>buf. and_then (c_string_at buf 0)
             (\<lambda>s. Inr (buf, [Sent (net_raws s), Sent (net_raws crlf)])))
      else
        and_then (arr_read buf 0)
          (\<lambda>c. if c = CHR '':'' then
                 and_then (parse_words buf l 1 no_words)
                   (\<lambda>(buf, w).
                      (case w_command w of
                         None \<Rightarrow> Inr (buf, [])
                       | Some command \<Rightarrow>
                           if w_count w < 2 then Inr (buf, [])
                           else if strncmp_eq (drop command buf) ''PRIVMSG''
                                 \<or> strncmp_eq (drop command buf) ''NOTICE''
                           then and_then (handle_privmsg buf w) (\<lambda>evs. Inr (buf, evs))
                           else Inr (buf, [])))
               else Inr (buf, [])))"

record irc_state =
  line_buf :: "char list"
  line_pos :: int

text \<open>
  The loop over the bytes of one read; \<open>prev\<close> is \<open>rbuf[i - 1]\<close>, which exists from the second byte
  of the read on.
\<close>

fun irc_bytes :: "irc_state \<Rightarrow> char option \<Rightarrow> string \<Rightarrow> fault + irc_state \<times> irc_event list" where
  "irc_bytes st prev [] = Inr (st, [])"
| "irc_bytes st prev (c # cs) =
     (let p = line_pos st + 1 in
      and_then (arr_write (line_buf st) p c)
        (\<lambda>buf.
           if prev = Some CR \<and> c = LF \<or> p = 512 then
             and_then (arr_write buf (if p = 512 then p + 1 else p - 1) NUL)
               (\<lambda>buf. and_then (handle_line buf (nat p))
                  (\<lambda>(buf, evs).
                     and_then (irc_bytes \<lparr>line_buf = buf, line_pos = -1\<rparr> (Some c) cs)
                       (\<lambda>(st, evs'). Inr (st, evs @ evs'))))
           else irc_bytes \<lparr>line_buf = buf, line_pos = p\<rparr> (Some c) cs))"

text \<open>
  What happens at each turn of the outer loop: the \<open>done\<close> flag is set, or \<open>net_recv\<close> returns 0, a
  negative value, or bytes. When the inputs are used up the loop waits in \<open>net_recv\<close>. The last
  component says whether the loop has ended, after which QUIT has been sent.
\<close>

datatype loop_input =
    Done
  | Closed
  | Recv_error
  | Bytes string

fun irc_loop :: "irc_state \<Rightarrow> loop_input list \<Rightarrow> fault + irc_event list \<times> bool" where
  "irc_loop st [] = Inr ([], False)"
| "irc_loop st (Done # ins) = Inr ([Sent (irc_raw ''QUIT :Gone fishing.'')], True)"
| "irc_loop st (Closed # ins) = Inr ([Sent (irc_raw ''QUIT :Gone fishing.'')], True)"
| "irc_loop st (Recv_error # ins) = irc_loop st ins"
| "irc_loop st (Bytes bs # ins) =
     and_then (irc_bytes st None bs)
       (\<lambda>(st, evs). and_then (irc_loop st ins) (\<lambda>(evs', ended). Inr (evs @ evs', ended)))"

section \<open>What a line means\<close>

fun next_word :: "string \<Rightarrow> (string \<times> string) option" where
  "next_word [] = None"
| "next_word (c # s) =
     (if c = CHR '' '' then Some ([], s) else map_option (\<lambda>(w, r). (c # w, r)) (next_word s))"

fun message_part :: "string \<Rightarrow> string option" where
  "message_part [] = None"
| "message_part (c # s) =
     (if c = CHR '' '' then None else if c = CHR '':'' then Some s else message_part s)"

definition target_of :: "string \<Rightarrow> string \<Rightarrow> string" where
  "target_of where' user =
     (if where' \<noteq> [] \<and> hd where' \<in> {CHR ''#'', CHR ''&'', CHR ''+'', CHR ''!''} then where'
      else takeWhile (\<lambda>c. c \<noteq> CHR ''!'') user)"

definition message_events :: "string \<Rightarrow> string \<Rightarrow> string \<Rightarrow> string \<Rightarrow> irc_event list" where
  "message_events user command where' rest =
     (if strncmp_eq command ''PRIVMSG'' \<or> strncmp_eq command ''NOTICE'' then
        (case message_part rest of
           None \<Rightarrow> []
         | Some message \<Rightarrow> [Check_cmd user (target_of where' user) message])
      else [])"

definition line_events :: "string \<Rightarrow> irc_event list" where
  "line_events text =
     (if strncmp_eq text ''PING'' then [Sent (CHR ''P'' # CHR ''O'' # drop 2 text), Sent crlf]
      else
        (case text of
           [] \<Rightarrow> []
         | c # r \<Rightarrow>
             if c \<noteq> CHR '':'' then []
             else
               (case next_word r of
                  None \<Rightarrow> []
                | Some (user, r1) \<Rightarrow>
                    (case next_word r1 of
                       None \<Rightarrow> []
                     | Some (command, r2) \<Rightarrow>
                         (case next_word r2 of
                            None \<Rightarrow> []
                          | Some (where', r3) \<Rightarrow> message_events user command where' r3)))))"

text \<open>
  The lines of one read: \<open>acc\<close> is what earlier bytes have left of an unfinished line. The CR LF
  has to arrive in one read. A byte that meets 512 unfinished bytes does not fit.
\<close>

fun split_read :: "string \<Rightarrow> char option \<Rightarrow> string \<Rightarrow> string list \<times> string" where
  "split_read acc prev [] = ([], acc)"
| "split_read acc prev (c # cs) =
     (if prev = Some CR \<and> c = LF then
        (case split_read [] (Some c) cs of (ls, acc') \<Rightarrow> (butlast acc # ls, acc'))
      else split_read (acc @ [c]) (Some c) cs)"

fun fits :: "string \<Rightarrow> char option \<Rightarrow> string \<Rightarrow> bool" where
  "fits acc prev [] = True"
| "fits acc prev (c # cs) =
     (length acc < 512 \<and> fits (if prev = Some CR \<and> c = LF then [] else acc @ [c]) (Some c) cs)"

fun split_reads :: "string \<Rightarrow> string list \<Rightarrow> string list" where
  "split_reads acc [] = []"
| "split_reads acc (bs # reads) =
     (case split_read acc None bs of (ls, acc') \<Rightarrow> ls @ split_reads acc' reads)"

fun fits_reads :: "string \<Rightarrow> string list \<Rightarrow> bool" where
  "fits_reads acc [] = True"
| "fits_reads acc (bs # reads) = (fits acc None bs \<and> fits_reads (snd (split_read acc None bs)) reads)"

section \<open>The word loop\<close>

lemma next_word_Some: "next_word r = Some (w, r') \<Longrightarrow> r = w @ CHR '' '' # r' \<and> CHR '' '' \<notin> set w"
  by (induction r arbitrary: w) (auto split: if_splits)

lemma next_word_None: "next_word r = None \<Longrightarrow> CHR '' '' \<notin> set r"
  by (induction r) (auto split: if_splits)

lemma message_part_Some:
  "message_part r = Some m \<Longrightarrow> \<exists>q. r = q @ CHR '':'' # m \<and> CHR '' '' \<notin> set q \<and> CHR '':'' \<notin> set q"
proof (induction r)
  case (Cons c r)
  show ?case
  proof (cases "c = CHR '':''")
    case True
    with Cons.prems show ?thesis by (intro exI [of _ "[]"]) simp
  next
    case False
    with Cons.prems have "c \<noteq> CHR '' ''" "message_part r = Some m" by (auto split: if_splits)
    with Cons.IH obtain q where "r = q @ CHR '':'' # m" "CHR '' '' \<notin> set q" "CHR '':'' \<notin> set q" by blast
    with False \<open>c \<noteq> CHR '' ''\<close> show ?thesis by (intro exI [of _ "c # q"]) auto
  qed
qed simp

lemma message_part_None:
  "message_part r = None \<Longrightarrow>
   (\<exists>q r'. r = q @ CHR '' '' # r' \<and> CHR '' '' \<notin> set q \<and> CHR '':'' \<notin> set q) \<or>
   (CHR '' '' \<notin> set r \<and> CHR '':'' \<notin> set r)"
proof (induction r)
  case (Cons c r)
  show ?case
  proof (cases "c = CHR '' ''")
    case True
    then show ?thesis by (intro disjI1 exI [of _ "[]"] exI [of _ r]) simp
  next
    case False
    with Cons.prems have c: "c \<noteq> CHR '':''" "message_part r = None" by (auto split: if_splits)
    with Cons.IH consider q r' where "r = q @ CHR '' '' # r'" "CHR '' '' \<notin> set q" "CHR '':'' \<notin> set q"
      | "CHR '' '' \<notin> set r" "CHR '':'' \<notin> set r" by blast
    then show ?thesis
    proof cases
      case (1 q r')
      with False c show ?thesis by (intro disjI1 exI [of _ "c # q"] exI [of _ r']) auto
    next
      case 2
      with False c show ?thesis by auto
    qed
  qed
qed simp

lemma parse_words_end: "parse_words buf l l w = Inr (buf, w)"
  by (subst parse_words.simps) simp

lemma scan_word:
  assumes "CHR '' '' \<notin> set s" and "w_count w = 3 \<longrightarrow> CHR '':'' \<notin> set s"
    and "length pre + length s \<le> l"
  shows "parse_words (pre @ s @ post) l (length pre) w = parse_words (pre @ s @ post) l (length pre + length s) w"
  using assms
proof (induction s arbitrary: pre)
  case (Cons c s)
  have "parse_words (pre @ (c # s) @ post) l (length pre) w =
      parse_words ((pre @ [c]) @ s @ post) l (length (pre @ [c])) w"
    using Cons.prems by (subst parse_words.simps) (auto simp: nth_append)
  also have "\<dots> = parse_words ((pre @ [c]) @ s @ post) l (length (pre @ [c]) + length s) w"
    using Cons.prems by (intro Cons.IH) auto
  finally show ?case by simp
qed simp

lemma scan_space:
  assumes "length pre + 1 < l"
  shows "parse_words (pre @ CHR '' '' # post) l (length pre) w =
    and_then (end_word w) (\<lambda>w. parse_words ((pre @ [NUL]) @ post) l (length (pre @ [NUL]))
      (w\<lparr>w_start := Some (length (pre @ [NUL]))\<rparr>))"
proof -
  have "length pre \<noteq> l - 1" "length pre < l" using assms by auto
  then show ?thesis by (subst parse_words.simps) (simp add: nth_append list_update_append)
qed

lemma scan_colon:
  assumes "length pre + 1 < l" and "w_count w = 3"
  shows "parse_words (pre @ CHR '':'' # post) l (length pre) w =
    Inr (pre @ CHR '':'' # post, w\<lparr>w_message := Some (length pre + 1)\<rparr>)"
  using assms by (subst parse_words.simps) (auto simp: nth_append)

text \<open>A word and the space behind it, and the last stretch of a line up to its NUL.\<close>

lemma scan_next:
  assumes "next_word r = Some (u, r')" and "w_count w \<noteq> 3" and "length pre + length r < l"
  shows "parse_words (pre @ r @ post) l (length pre) w =
    and_then (end_word w) (\<lambda>w. parse_words ((pre @ u @ [NUL]) @ r' @ post) l (length (pre @ u @ [NUL]))
      (w\<lparr>w_start := Some (length (pre @ u @ [NUL]))\<rparr>))"
proof -
  have r: "r = u @ CHR '' '' # r'" "CHR '' '' \<notin> set u" using next_word_Some [OF assms(1)] by auto
  have "parse_words (pre @ r @ post) l (length pre) w =
      parse_words ((pre @ u) @ CHR '' '' # r' @ post) l (length (pre @ u)) w"
    using scan_word [of u w pre l "CHR '' '' # r' @ post"] r assms(2,3) by simp
  also have "\<dots> = and_then (end_word w) (\<lambda>w. parse_words (((pre @ u) @ [NUL]) @ r' @ post) l
      (length ((pre @ u) @ [NUL])) (w\<lparr>w_start := Some (length ((pre @ u) @ [NUL]))\<rparr>))"
    by (rule scan_space) (use r assms(3) in simp)
  finally show ?thesis by simp
qed

lemma scan_last:
  assumes "CHR '' '' \<notin> set r" and "w_count w = 3 \<longrightarrow> CHR '':'' \<notin> set r" and "l = length pre + length r + 1"
  shows "parse_words (pre @ r @ NUL # post) l (length pre) w = Inr (pre @ r @ NUL # post, w)"
  using scan_word [of "r @ [NUL]" w pre l post] assms parse_words_end [of "pre @ r @ NUL # post" l w]
  by simp

text \<open>One turn of the loop, with the accesses resolved.\<close>

lemma parse_words_step:
  assumes "j < l" and "l \<le> length buf"
  shows "parse_words buf l j w =
    (if buf ! j = CHR '' '' then
       and_then (end_word w) (\<lambda>w. parse_words (buf[j := NUL]) l (j + 1)
         (if j = l - 1 then w else w\<lparr>w_start := Some (j + 1)\<rparr>))
     else if buf ! j = CHR '':'' \<and> w_count w = 3 then
       Inr (buf, if j < l - 1 then w\<lparr>w_message := Some (j + 1)\<rparr> else w)
     else parse_words buf l (j + 1) w)"
  using assms by (subst parse_words.simps) (auto intro!: arg_cong [where f = "and_then (end_word w)"])

lemma scan_rest:
  assumes "4 \<le> w_count w" and "l \<le> length buf" and "j \<le> l"
  shows "\<exists>buf' w'. parse_words buf l j w = Inr (buf', w') \<and> w_message w' = w_message w \<and>
    w_command w' = w_command w \<and> 2 \<le> w_count w'"
  using assms
proof (induction "l - j" arbitrary: buf j w)
  case 0
  then show ?case by (simp add: parse_words_end)
next
  case (Suc n)
  then have j: "j < l" "n = l - (j + 1)" "j + 1 \<le> l" by auto
  have ew: "end_word w = Inr (w\<lparr>w_count := w_count w + 1\<rparr>)"
    using Suc.prems(1) by (simp add: end_word_def Let_def)
  define w1 where "w1 = (if j = l - 1 then w\<lparr>w_count := w_count w + 1\<rparr>
    else w\<lparr>w_count := w_count w + 1, w_start := Some (j + 1)\<rparr>)"
  have w1: "4 \<le> w_count w1" "w_message w1 = w_message w" "w_command w1 = w_command w"
    using Suc.prems(1) by (auto simp: w1_def)
  show ?case
  proof (cases "buf ! j = CHR '' ''")
    case True
    then have "parse_words buf l j w = parse_words (buf[j := NUL]) l (j + 1) w1"
      using Suc.prems j by (simp add: parse_words_step ew w1_def)
    with Suc.hyps(1) [of "j + 1" w1 "buf[j := NUL]"] w1 Suc.prems j show ?thesis by simp
  next
    case False
    then have "parse_words buf l j w = parse_words buf l (j + 1) w"
      using Suc.prems j by (simp add: parse_words_step)
    with Suc.hyps(1) [of "j + 1" w buf] Suc.prems j show ?thesis by simp
  qed
qed

lemma parse_words_length:
  "parse_words buf l j w = Inr (buf', w') \<Longrightarrow> l \<le> length buf \<Longrightarrow> length buf' = length buf"
proof (induction "l - j" arbitrary: buf j w)
  case 0
  then show ?case by (subst (asm) parse_words.simps) auto
next
  case (Suc n)
  then have j: "j < l" "n = l - (j + 1)" by auto
  show ?case
  proof (cases "buf ! j = CHR '' ''")
    case True
    with Suc.prems(1) parse_words_step [OF j(1) Suc.prems(2), of w] obtain w1 where
      "parse_words (buf[j := NUL]) l (j + 1) (if j = l - 1 then w1 else w1\<lparr>w_start := Some (j + 1)\<rparr>) = Inr (buf', w')"
      by (cases "end_word w") simp_all
    with Suc.hyps(1) [OF j(2) this] Suc.prems show ?thesis by simp
  next
    case False
    show ?thesis
    proof (cases "buf ! j = CHR '':'' \<and> w_count w = 3")
      case True
      with False Suc.prems j show ?thesis by (simp add: parse_words_step)
    next
      case no: False
      with False Suc.prems j have "parse_words buf l (j + 1) w = Inr (buf', w')"
        by (simp add: parse_words_step)
      with Suc.hyps(1) [OF j(2) this] Suc.prems show ?thesis by simp
    qed
  qed
qed

section \<open>A line in the buffer\<close>

lemma strncmp_eq_NUL: "c_str p \<Longrightarrow> strncmp_eq (s @ NUL # x) p = strncmp_eq s p"
proof (cases "length p \<le> length s")
  case False
  assume p: "c_str p"
  have "take (length p) (s @ NUL # x) = s @ NUL # take (length p - length s - 1) x"
    using False by (simp add: take_Cons')
  then have "NUL \<in> set (take (length p) (s @ NUL # x))" by simp
  with p have "take (length p) (s @ NUL # x) \<noteq> p" by (metis c_str_def)
  moreover have "take (length p) s \<noteq> p"
  proof
    assume "take (length p) s = p"
    then have "length (take (length p) s) = length p" by simp
    with False show False by simp
  qed
  ultimately show ?thesis by (simp add: strncmp_eq_def)
qed (simp add: strncmp_eq_def)

lemma strchr_takeWhile:
  "strchr s c = None \<Longrightarrow> takeWhile (\<lambda>d. d \<noteq> c) s = s"
  "strchr s c = Some i \<Longrightarrow> take i s = takeWhile (\<lambda>d. d \<noteq> c) s"
  by (induction s arbitrary: i) (auto split: if_splits)

lemma reply_target_of:
  assumes "length user < 513"
  shows "reply_target ((where' @ [NUL]) ! 0) where' user = Inr (target_of where' user)"
proof -
  have "sep < 513" if "strchr user (CHR ''!'') = Some sep" for sep
    using strchr_less [OF that] assms by simp
  then show ?thesis
    by (cases where') (auto simp: reply_target_def target_of_def strchr_takeWhile split: option.split)
qed

text \<open>The buffer after three words: the sender, the command and the place, each ended by a NUL.\<close>

lemma handle_privmsg_message:
  assumes "c_str user" "c_str where'" "c_str message" and "length user < 513"
    and buf: "buf = CHR '':'' # user @ NUL # command @ NUL # where' @ NUL # q @ CHR '':'' # message @ NUL # post"
    and w: "w_user w = Some 1" "w_where w = Some (length user + length command + 3)"
      "w_message w = Some (length user + length command + length where' + length q + 5)"
  shows "handle_privmsg buf w = Inr [Check_cmd user (target_of where' user) message]"
proof -
  have u: "c_string_at buf 1 = Inr user"
    using c_string_at_append [OF assms(1), of "[CHR '':'']"] buf by simp
  have p: "c_string_at buf (length user + length command + 3) = Inr where'"
    using c_string_at_append [OF assms(2), of "CHR '':'' # user @ NUL # command @ [NUL]"] buf
    by (simp add: numeral_eq_Suc)
  have m: "c_string_at buf (length user + length command + length where' + length q + 5) = Inr message"
    using c_string_at_append [OF assms(3), of "CHR '':'' # user @ NUL # command @ NUL # where' @ NUL # q @ [CHR '':'']"] buf
    by (simp add: numeral_eq_Suc add.assoc add.left_commute)
  have "buf = (CHR '':'' # user @ NUL # command @ [NUL]) @ (where' @ [NUL]) @ q @ CHR '':'' # message @ NUL # post"
    using buf by simp
  moreover have "length (CHR '':'' # user @ NUL # command @ [NUL]) = length user + length command + 3" by simp
  ultimately have "arr_read buf (int (length user + length command + 3)) = Inr ((where' @ [NUL]) ! 0)"
    by (subst arr_read_nat) (simp_all add: nth_append)
  with u p m w reply_target_of [OF assms(4), of where'] show ?thesis by (simp add: handle_privmsg_def)
qed

lemma handle_line_words:
  assumes "text = CHR '':'' # r" and "parse_words (text @ rest) l 1 no_words = Inr (buf, w)"
  shows "handle_line (text @ rest) l =
    (case w_command w of
       None \<Rightarrow> Inr (buf, [])
     | Some command \<Rightarrow>
         if w_count w < 2 then Inr (buf, [])
         else if strncmp_eq (drop command buf) ''PRIVMSG'' \<or> strncmp_eq (drop command buf) ''NOTICE''
         then and_then (handle_privmsg buf w) (\<lambda>evs. Inr (buf, evs))
         else Inr (buf, []))"
proof -
  have "\<not> strncmp_eq (text @ rest) ''PING''" using assms(1) by (simp add: strncmp_eq_def)
  then show ?thesis using assms by (simp add: handle_line_def)
qed

lemma handle_privmsg_nothing: "w_message w = None \<or> w_where w = None \<Longrightarrow> handle_privmsg buf w = Inr []"
  by (auto simp: handle_privmsg_def split: option.split)

lemma handle_line_nothing:
  assumes "text = CHR '':'' # r" and "parse_words (text @ rest) l 1 no_words = Inr (buf, w)"
    and "w_command w = None \<or> w_message w = None \<or> w_where w = None"
  shows "handle_line (text @ rest) l = Inr (buf, [])"
  using assms(3) handle_privmsg_nothing [of w buf]
  by (auto simp: handle_line_words [OF assms(1,2)] split: option.split)

text \<open>The words of a line with three spaces, up to the text behind the third.\<close>

definition three_words :: "string \<Rightarrow> string \<Rightarrow> string \<Rightarrow> line_words" where
  "three_words user command where' =
     \<lparr>w_count = 3, w_user = Some 1, w_command = Some (length user + 2),
      w_where = Some (length user + length command + 3), w_message = None,
      w_start = Some (length user + (length command + length where') + 4)\<rparr>"

abbreviation words_buf :: "string \<Rightarrow> string \<Rightarrow> string \<Rightarrow> string" where
  "words_buf user command where' \<equiv> CHR '':'' # user @ NUL # command @ NUL # where' @ [NUL]"

lemma parse_three_words:
  assumes r: "next_word r = Some (user, r1)" "next_word r1 = Some (command, r2)" "next_word r2 = Some (where', r3)"
    and l: "l = length r + 2"
  shows "parse_words (CHR '':'' # r @ NUL # junk) l 1 no_words =
    parse_words (words_buf user command where' @ r3 @ NUL # junk) l
      (length (words_buf user command where')) (three_words user command where')"
proof -
  let ?u = "CHR '':'' # user @ [NUL]"
  let ?c = "?u @ command @ [NUL]"
  have len: "r = user @ CHR '' '' # r1" "r1 = command @ CHR '' '' # r2" "r2 = where' @ CHR '' '' # r3"
    using r next_word_Some by blast+
  have "parse_words ([CHR '':''] @ r @ NUL # junk) l (length [CHR '':'']) no_words =
      parse_words (?u @ r1 @ NUL # junk) l (length ?u)
        (no_words\<lparr>w_count := 1, w_user := Some 1, w_start := Some (length ?u)\<rparr>)"
    using l by (subst scan_next [OF r(1)]) (simp_all add: no_words_def end_word_def Let_def)
  also have "\<dots> = parse_words (?c @ r2 @ NUL # junk) l (length ?c)
        (no_words\<lparr>w_count := 2, w_user := Some 1, w_command := Some (length ?u), w_start := Some (length ?c)\<rparr>)"
    using l len by (subst scan_next [OF r(2)]) (simp_all add: numeral_2_eq_2 no_words_def end_word_def Let_def)
  also have "\<dots> = parse_words ((?c @ where' @ [NUL]) @ r3 @ NUL # junk) l (length (?c @ where' @ [NUL]))
        (three_words user command where')"
    using l len by (subst scan_next [OF r(3)])
      (simp_all add: no_words_def three_words_def end_word_def Let_def numeral_eq_Suc)
  finally show ?thesis by simp
qed

lemma parse_few_words:
  assumes l: "l = length r + 2"
    and few: "next_word r = None \<or>
      (\<exists>user r1. next_word r = Some (user, r1) \<and> (next_word r1 = None \<or>
        (\<exists>command r2. next_word r1 = Some (command, r2) \<and> next_word r2 = None)))"
  shows "\<exists>buf w. parse_words (CHR '':'' # r @ NUL # junk) l 1 no_words = Inr (buf, w) \<and>
    (w_command w = None \<or> w_where w = None)"
proof -
  let ?start = "parse_words ([CHR '':''] @ r @ NUL # junk) l (length [CHR '':'']) no_words"
  have "\<exists>buf w. ?start = Inr (buf, w) \<and> (w_command w = None \<or> w_where w = None)"
  proof (cases "next_word r")
    case None
    then show ?thesis
      using l next_word_None [OF None] by (subst scan_last) (simp_all add: no_words_def)
  next
    case (Some p)
    then obtain user r1 where u: "next_word r = Some (user, r1)" by (cases p) auto
    let ?u = "CHR '':'' # user @ [NUL]"
    have len: "r = user @ CHR '' '' # r1" using u next_word_Some by blast
    have s1: "?start = parse_words (?u @ r1 @ NUL # junk) l (length ?u)
        (no_words\<lparr>w_count := 1, w_user := Some 1, w_start := Some (length ?u)\<rparr>)"
      using l by (subst scan_next [OF u]) (simp_all add: no_words_def end_word_def Let_def)
    show ?thesis
    proof (cases "next_word r1")
      case None
      then show ?thesis
        unfolding s1 using l len next_word_None [OF None] by (subst scan_last) (simp_all add: no_words_def)
    next
      case (Some p)
      with few u obtain command r2 where c: "next_word r1 = Some (command, r2)" "next_word r2 = None"
        by auto
      let ?c = "?u @ command @ [NUL]"
      have len2: "r1 = command @ CHR '' '' # r2" using c next_word_Some by blast
      have "?start = parse_words (?c @ r2 @ NUL # junk) l (length ?c)
        (no_words\<lparr>w_count := 2, w_user := Some 1, w_command := Some (length ?u), w_start := Some (length ?c)\<rparr>)"
        unfolding s1 using l len len2
        by (subst scan_next [OF c(1)]) (simp_all add: numeral_2_eq_2 no_words_def end_word_def Let_def)
      also have "\<dots> = Inr (?c @ r2 @ NUL # junk, no_words\<lparr>w_count := 2, w_user := Some 1,
          w_command := Some (length ?u), w_start := Some (length ?c)\<rparr>)"
        using l len len2 next_word_None [OF c(2)] by (subst scan_last) (simp_all add: no_words_def)
      finally show ?thesis by (simp add: no_words_def)
    qed
  qed
  then show ?thesis by simp
qed

section \<open>A line against its specification\<close>

lemma three_words_rest:
  assumes "l = length (words_buf user command where') + length r3 + 1"
    and "message_part r3 = None"
  shows "\<exists>buf w. parse_words (words_buf user command where' @ r3 @ NUL # junk) l
      (length (words_buf user command where')) (three_words user command where') = Inr (buf, w) \<and>
    w_message w = None"
proof -
  let ?pre = "words_buf user command where'" and ?w = "three_words user command where'"
  from message_part_None [OF assms(2)] consider
      q r' where "r3 = q @ CHR '' '' # r'" "CHR '' '' \<notin> set q" "CHR '':'' \<notin> set q"
    | "CHR '' '' \<notin> set r3" "CHR '':'' \<notin> set r3" by blast
  then show ?thesis
  proof cases
    case (1 q r')
    have "parse_words (?pre @ q @ CHR '' '' # r' @ NUL # junk) l (length ?pre) ?w =
        parse_words ((?pre @ q) @ CHR '' '' # r' @ NUL # junk) l (length (?pre @ q)) ?w"
      using 1 assms(1) scan_word [of q ?w ?pre l "CHR '' '' # r' @ NUL # junk"] by (simp add: add.assoc)
    also have "\<dots> = and_then (end_word ?w) (\<lambda>w. parse_words (((?pre @ q) @ [NUL]) @ r' @ NUL # junk) l
        (length ((?pre @ q) @ [NUL])) (w\<lparr>w_start := Some (length ((?pre @ q) @ [NUL]))\<rparr>))"
      by (rule scan_space) (use 1 assms(1) in simp)
    finally have step: "parse_words (?pre @ q @ CHR '' '' # r' @ NUL # junk) l (length ?pre) ?w = \<dots>" .
    let ?w4 = "?w\<lparr>w_count := 4, w_start := Some (length ((?pre @ q) @ [NUL]))\<rparr>"
    have ew: "end_word ?w = Inr (?w\<lparr>w_count := 4\<rparr>)"
      by (simp add: end_word_def three_words_def Let_def)
    have "\<exists>buf' w'. parse_words (((?pre @ q) @ [NUL]) @ r' @ NUL # junk) l (length ((?pre @ q) @ [NUL])) ?w4 =
        Inr (buf', w') \<and> w_message w' = w_message ?w4 \<and> w_command w' = w_command ?w4 \<and> 2 \<le> w_count w'"
      by (rule scan_rest) (use 1 assms(1) in simp_all)
    then show ?thesis using 1(1) step by (simp add: ew) (auto simp: three_words_def)
  next
    case 2
    then show ?thesis using assms(1) by (subst scan_last) (simp_all add: three_words_def)
  qed
qed

lemma three_words_message:
  assumes "l = length (words_buf user command where') + length r3 + 1"
    and "r3 = q @ CHR '':'' # message" "CHR '' '' \<notin> set q" "CHR '':'' \<notin> set q"
  shows "parse_words (words_buf user command where' @ r3 @ NUL # junk) l
      (length (words_buf user command where')) (three_words user command where') =
    Inr (words_buf user command where' @ q @ CHR '':'' # message @ NUL # junk,
         (three_words user command where')\<lparr>w_message :=
            Some (length user + length command + length where' + length q + 5)\<rparr>)"
proof -
  let ?pre = "words_buf user command where'" and ?w = "three_words user command where'"
  have "parse_words (?pre @ q @ CHR '':'' # message @ NUL # junk) l (length ?pre) ?w =
      parse_words ((?pre @ q) @ CHR '':'' # message @ NUL # junk) l (length (?pre @ q)) ?w"
    using assms scan_word [of q ?w ?pre l "CHR '':'' # message @ NUL # junk"] by (simp add: add.assoc)
  also have "\<dots> = Inr ((?pre @ q) @ CHR '':'' # message @ NUL # junk,
      ?w\<lparr>w_message := Some (length (?pre @ q) + 1)\<rparr>)"
    using assms(1,2) by (intro scan_colon) (simp_all add: three_words_def)
  finally show ?thesis using assms(2) by (simp add: numeral_eq_Suc add.assoc)
qed

lemma handle_line_length:
  assumes "handle_line buf l = Inr (buf', evs)" and "l \<le> length buf"
  shows "length buf' = length buf"
proof (cases "strncmp_eq buf ''PING''")
  case True
  with assms(1) show ?thesis by (auto simp: handle_line_def and_then_Inr_iff dest: arr_write_length)
next
  case False
  show ?thesis
  proof (cases "arr_read buf 0 = Inr (CHR '':'')")
    case True
    with False assms(1) obtain w where "parse_words buf l 1 no_words = Inr (buf', w)"
      by (auto simp: handle_line_def and_then_Inr_iff split: option.splits if_splits)
    with assms(2) show ?thesis by (rule parse_words_length [rotated])
  next
    case no: False
    with False assms(1) show ?thesis
      by (auto simp: handle_line_def and_then_Inr_iff split: if_splits)
  qed
qed

text \<open>A line has fewer than three spaces, or three words and the text behind them.\<close>

abbreviation few_words :: "string \<Rightarrow> bool" where
  "few_words r \<equiv> next_word r = None \<or>
      (\<exists>user r1. next_word r = Some (user, r1) \<and> (next_word r1 = None \<or>
        (\<exists>command r2. next_word r1 = Some (command, r2) \<and> next_word r2 = None)))"

lemma words_cases:
  obtains (few) "few_words r"
  | (three) user r1 command r2 where' r3 where "next_word r = Some (user, r1)"
    "next_word r1 = Some (command, r2)" "next_word r2 = Some (where', r3)"
proof (cases "next_word r")
  case (Some p)
  obtain user r1 where p: "p = (user, r1)" by (cases p)
  show ?thesis
  proof (cases "next_word r1")
    case None
    with Some p few show ?thesis by simp
  next
    case Some2: (Some p')
    obtain command r2 where p': "p' = (command, r2)" by (cases p')
    show ?thesis
    proof (cases "next_word r2")
      case None
      with Some p Some2 p' few show ?thesis by simp
    next
      case (Some p'')
      with \<open>next_word r = Some p\<close> p Some2 p' three show ?thesis by (cases p'') simp
    qed
  qed
qed (use few in simp)

lemma handle_line_colon:
  assumes "c_str r" and "length r \<le> 511"
  shows "\<exists>buf. handle_line (CHR '':'' # r @ NUL # junk) (length r + 2) = Inr (buf, line_events (CHR '':'' # r))"
proof -
  let ?l = "length r + 2" and ?t = "CHR '':'' # r"
  have ev: "\<not> strncmp_eq ?t ''PING''" by (simp add: strncmp_eq_def)
  show ?thesis
  proof (cases r rule: words_cases)
    case few
    then obtain buf w where "parse_words (?t @ NUL # junk) ?l 1 no_words = Inr (buf, w)"
      "w_command w = None \<or> w_where w = None"
      using parse_few_words [of ?l r junk] by auto
    then have "handle_line (?t @ NUL # junk) ?l = Inr (buf, [])"
      by (intro handle_line_nothing [OF refl]) auto
    moreover have "line_events ?t = []" using ev few by (auto simp: line_events_def)
    ultimately show ?thesis by auto
  next
    case r: (three user r1 command r2 where' r3)
    have line: "line_events ?t = message_events user command where' r3"
      using ev r by (simp add: line_events_def)
    have len: "r = user @ CHR '' '' # command @ CHR '' '' # where' @ CHR '' '' # r3"
      using r next_word_Some by fastforce
    then have c: "c_str user" "c_str command" "c_str where'" "c_str r3" using assms(1) by auto
    note parsed = parse_three_words [OF r refl, of junk]
    let ?pre = "words_buf user command where'"
    have l: "?l = length ?pre + length r3 + 1" using len by simp
    show ?thesis
    proof (cases "message_part r3")
      case None
      with three_words_rest [OF l None, of junk] parsed obtain buf w where
        "parse_words (?t @ NUL # junk) ?l 1 no_words = Inr (buf, w)" "w_message w = None" by auto
      then have "handle_line (?t @ NUL # junk) ?l = Inr (buf, [])"
        by (intro handle_line_nothing [OF refl]) auto
      with line None show ?thesis by (auto simp: message_events_def)
    next
      case (Some message)
      then obtain q where q: "r3 = q @ CHR '':'' # message" "CHR '' '' \<notin> set q" "CHR '':'' \<notin> set q"
        using message_part_Some by blast
      let ?buf = "?pre @ q @ CHR '':'' # message @ NUL # junk"
      let ?w = "(three_words user command where')\<lparr>w_message :=
            Some (length user + length command + length where' + length q + 5)\<rparr>"
      have p: "parse_words (?t @ NUL # junk) ?l 1 no_words = Inr (?buf, ?w)"
        using parsed three_words_message [OF l q, of junk] by simp
      have m: "handle_privmsg ?buf ?w = Inr [Check_cmd user (target_of where' user) message]"
        by (rule handle_privmsg_message [where command = command and q = q and post = junk])
          (use c q len assms(2) in \<open>simp_all add: three_words_def\<close>)
      have "drop (length user + 2) ?buf = command @ NUL # where' @ NUL # q @ CHR '':'' # message @ NUL # junk"
        by simp
      then have d: "strncmp_eq (drop (length user + 2) ?buf) p = strncmp_eq command p" if "c_str p" for p
        using that by (simp only: strncmp_eq_NUL)
      have "handle_line (?t @ NUL # junk) ?l = Inr (?buf, message_events user command where' r3)"
        using handle_line_words [OF refl p] m Some d [of "''PRIVMSG''"] d [of "''NOTICE''"]
        by (simp add: three_words_def message_events_def)
      with line show ?thesis by auto
    qed
  qed
qed

lemma handle_line_spec:
  assumes "c_str text" and "length text \<le> 512"
  shows "\<exists>buf. handle_line (text @ NUL # junk) (length text + 1) = Inr (buf, line_events text) \<and>
    length buf = length (text @ NUL # junk)"
proof -
  have "\<exists>buf. handle_line (text @ NUL # junk) (length text + 1) = Inr (buf, line_events text)"
  proof (cases "strncmp_eq text ''PING''")
    case True
    then obtain rest where t: "text = ''PING'' @ rest"
      unfolding strncmp_eq_def by (metis append_take_drop_id)
    have "strncmp_eq (text @ NUL # junk) ''PING''" by (simp add: t strncmp_eq_def)
    moreover have "c_string_at (''PONG'' @ rest @ NUL # junk) 0 = Inr (''PONG'' @ rest)"
      using c_string_at_0 [of "''PONG'' @ rest" junk] assms(1) t by simp
    ultimately show ?thesis
      by (simp add: handle_line_def line_events_def t strncmp_eq_def net_raws_def)
  next
    case False
    then have np: "\<not> strncmp_eq (text @ NUL # junk) ''PING''" by (simp add: strncmp_eq_NUL)
    show ?thesis
    proof (cases "text \<noteq> [] \<and> hd text = CHR '':''")
      case True
      then obtain r where "text = CHR '':'' # r" by (cases "text") auto
      with handle_line_colon [of r junk] assms show ?thesis by simp
    next
      case no: False
      then have "(text @ NUL # junk) ! 0 \<noteq> CHR '':''" by (cases "text") auto
      with np have "handle_line (text @ NUL # junk) (length text + 1) = Inr (text @ NUL # junk, [])"
        by (simp add: handle_line_def)
      moreover have "line_events text = []" using False no by (cases "text") (auto simp: line_events_def)
      ultimately show ?thesis by auto
    qed
  qed
  then show ?thesis using handle_line_length by fastforce
qed

section \<open>The stream of bytes\<close>

text \<open>The buffer holds the unfinished line, and the index its length, less one.\<close>

definition holds_line :: "irc_state \<Rightarrow> string \<Rightarrow> bool" where
  "holds_line st acc \<longleftrightarrow> length acc \<le> 512 \<and> length (line_buf st) = 513 \<and>
     take (length acc) (line_buf st) = acc \<and> line_pos st = int (length acc) - 1"

lemma holds_line_buf:
  assumes "holds_line st acc"
  obtains x junk where "line_buf st = acc @ x # junk" and "length acc + length junk = 512"
proof -
  from assms have "line_buf st = acc @ drop (length acc) (line_buf st)"
    by (metis append_take_drop_id holds_line_def)
  moreover have "drop (length acc) (line_buf st) \<noteq> []" using assms by (simp add: holds_line_def)
  ultimately obtain x junk where "line_buf st = acc @ x # junk" by (metis neq_Nil_conv)
  moreover from this have "length acc + length junk = 512" using assms by (simp add: holds_line_def)
  ultimately show ?thesis using that by blast
qed

lemma irc_bytes_store:
  assumes st: "holds_line st acc" and "length acc < 512" and "\<not> (prev = Some CR \<and> c = LF)"
  obtains st' where "irc_bytes st prev (c # cs) = irc_bytes st' (Some c) cs" and "holds_line st' (acc @ [c])"
proof -
  from st obtain x junk where b: "line_buf st = acc @ x # junk" "length acc + length junk = 512"
    by (rule holds_line_buf)
  let ?st' = "\<lparr>line_buf = acc @ c # junk, line_pos = int (length acc)\<rparr>"
  have "line_pos st + 1 = int (length acc)" using st by (simp add: holds_line_def)
  with b assms(2,3) have "irc_bytes st prev (c # cs) = irc_bytes ?st' (Some c) cs"
    by (auto simp: Let_def)
  moreover have "holds_line ?st' (acc @ [c])" using b assms(2) by (simp add: holds_line_def)
  ultimately show ?thesis by (rule that)
qed

lemma irc_bytes_line:
  assumes st: "holds_line st (line @ [CR])" and "length line < 511" and "c_str line"
  obtains st' where "irc_bytes st (Some CR) (LF # cs) =
      and_then (irc_bytes st' (Some LF) cs) (\<lambda>(st, evs). Inr (st, line_events line @ evs))"
    and "holds_line st' []"
proof -
  from st obtain x junk where b: "line_buf st = (line @ [CR]) @ x # junk" "length (line @ [CR]) + length junk = 512"
    by (rule holds_line_buf)
  obtain buf where h: "handle_line (line @ NUL # LF # junk) (length line + 1) = Inr (buf, line_events line)"
    and len: "length buf = length (line @ NUL # LF # junk)"
    using handle_line_spec [OF assms(3), of "LF # junk"] assms(2) by auto
  let ?st' = "\<lparr>line_buf = buf, line_pos = -1\<rparr>"
  have p: "line_pos st + 1 = int (length line + 1)" using st by (simp add: holds_line_def)
  have w: "arr_write (line_buf st) (int (length line + 1)) LF = Inr (line @ CR # LF # junk)"
    using b by (subst arr_write_ok) (simp_all add: list_update_append nat_add_distrib)
  have w': "arr_write (line @ CR # LF # junk) (int (length line + 1) - 1) NUL = Inr (line @ NUL # LF # junk)"
    by (subst arr_write_ok) (simp_all add: list_update_append nat_add_distrib)
  have "irc_bytes st (Some CR) (LF # cs) =
      and_then (irc_bytes ?st' (Some LF) cs) (\<lambda>(st, evs). Inr (st, line_events line @ evs))"
    using assms(2) w w' h by (simp add: Let_def p del: of_nat_add of_nat_Suc)
  moreover have "holds_line ?st' []" using len b by (simp add: holds_line_def)
  ultimately show ?thesis by (rule that)
qed

lemma irc_bytes_full:
  assumes "holds_line st acc" and "length acc = 512"
  shows "irc_bytes st prev (c # cs) = Inl Out_Of_Bounds"
proof -
  have "line_pos st + 1 = 512" "length (line_buf st) = 513" using assms by (auto simp: holds_line_def)
  then show ?thesis by (simp add: Let_def)
qed

lemma irc_bytes_spec:
  assumes "holds_line st acc" and "c_str acc" and "c_str cs"
    and "prev = Some CR \<Longrightarrow> acc \<noteq> [] \<and> last acc = CR"
  shows "if fits acc prev cs
    then \<exists>st'. irc_bytes st prev cs = Inr (st', concat (map line_events (fst (split_read acc prev cs)))) \<and>
      holds_line st' (snd (split_read acc prev cs))
    else irc_bytes st prev cs = Inl Out_Of_Bounds"
  using assms
proof (induction cs arbitrary: st acc prev)
  case (Cons c cs)
  have acc: "length acc \<le> 512" using Cons.prems(1) by (simp add: holds_line_def)
  show ?case
  proof (cases "length acc = 512")
    case True
    then show ?thesis using irc_bytes_full [OF Cons.prems(1)] by simp
  next
    case False
    with acc have len: "length acc < 512" by simp
    show ?thesis
    proof (cases "prev = Some CR \<and> c = LF")
      case True
      with Cons.prems(4) obtain line where line: "acc = line @ [CR]" by (metis append_butlast_last_id)
      obtain st' where st': "irc_bytes st (Some CR) (LF # cs) =
          and_then (irc_bytes st' (Some LF) cs) (\<lambda>(st, evs). Inr (st, line_events line @ evs))"
        "holds_line st' []"
        using irc_bytes_line [of st line cs] Cons.prems(1,2) line len by auto
      have "if fits [] (Some LF) cs
        then \<exists>st''. irc_bytes st' (Some LF) cs = Inr (st'', concat (map line_events (fst (split_read [] (Some LF) cs)))) \<and>
          holds_line st'' (snd (split_read [] (Some LF) cs))
        else irc_bytes st' (Some LF) cs = Inl Out_Of_Bounds"
        by (rule Cons.IH [OF st'(2)]) (use Cons.prems(3) in simp_all)
      moreover obtain ls rest where "split_read [] (Some LF) cs = (ls, rest)" by fastforce
      ultimately show ?thesis using True st'(1) line len by (auto simp del: irc_bytes.simps)
    next
      case no: False
      obtain st' where st': "irc_bytes st prev (c # cs) = irc_bytes st' (Some c) cs" "holds_line st' (acc @ [c])"
        by (rule irc_bytes_store [OF Cons.prems(1) len no])
      have "if fits (acc @ [c]) (Some c) cs
        then \<exists>st''. irc_bytes st' (Some c) cs = Inr (st'', concat (map line_events (fst (split_read (acc @ [c]) (Some c) cs)))) \<and>
          holds_line st'' (snd (split_read (acc @ [c]) (Some c) cs))
        else irc_bytes st' (Some c) cs = Inl Out_Of_Bounds"
        by (rule Cons.IH [OF st'(2)]) (use Cons.prems(2,3) in auto)
      moreover have "fits acc prev (c # cs) = fits (acc @ [c]) (Some c) cs"
        "split_read acc prev (c # cs) = split_read (acc @ [c]) (Some c) cs" using no len by auto
      ultimately show ?thesis using st'(1) by simp
    qed
  qed
qed auto

lemma split_read_c_str:
  "c_str acc \<Longrightarrow> c_str cs \<Longrightarrow> c_str (snd (split_read acc prev cs))"
  by (induction acc prev cs rule: split_read.induct) (auto split: prod.splits)

lemma irc_loop_reads:
  assumes "holds_line st acc" and "c_str acc" and "\<forall>bs \<in> set reads. c_str bs"
  shows "irc_loop st (map Bytes reads) =
    (if fits_reads acc reads then Inr (concat (map line_events (split_reads acc reads)), False)
     else Inl Out_Of_Bounds)"
  using assms
proof (induction reads arbitrary: st acc)
  case (Cons bs reads)
  have bs: "c_str bs" using Cons.prems(3) by simp
  note spec = irc_bytes_spec [OF Cons.prems(1,2) bs, of None]
  show ?case
  proof (cases "fits acc None bs")
    case True
    with spec obtain st' where
      b: "irc_bytes st None bs = Inr (st', concat (map line_events (fst (split_read acc None bs))))"
      and st': "holds_line st' (snd (split_read acc None bs))" by auto
    have "irc_loop st' (map Bytes reads) =
      (if fits_reads (snd (split_read acc None bs)) reads
       then Inr (concat (map line_events (split_reads (snd (split_read acc None bs)) reads)), False)
       else Inl Out_Of_Bounds)"
      by (rule Cons.IH [OF st']) (use Cons.prems bs split_read_c_str in auto)
    with True b show ?thesis by (simp split: prod.split)
  next
    case False
    with spec show ?thesis by simp
  qed
qed simp

section \<open>Lines on the wire\<close>

text \<open>A line a well-behaved server sends: at most 510 characters, and CR LF behind them.\<close>

definition whole_line :: "string \<Rightarrow> bool" where
  "whole_line line \<longleftrightarrow> c_str line \<and> LF \<notin> set line \<and> length line \<le> 510"

definition wire :: "string list \<Rightarrow> string" where
  "wire lines = concat (map (\<lambda>line. line @ crlf) lines)"

text \<open>The receive buffer of a fresh call of \<open>irc_loop\<close>, with the cells of an uninitialised array.\<close>

definition irc_start :: "char list \<Rightarrow> irc_state" where
  "irc_start cells = \<lparr>line_buf = cells, line_pos = -1\<rparr>"

lemma holds_line_start: "length cells = 513 \<Longrightarrow> holds_line (irc_start cells) []"
  by (simp add: holds_line_def irc_start_def)

lemma split_read_skip:
  "LF \<notin> set s \<Longrightarrow> split_read acc prev (s @ cs) = split_read (acc @ s) (if s = [] then prev else Some (last s)) cs"
  by (induction s arbitrary: acc prev) auto

lemma fits_skip:
  "LF \<notin> set s \<Longrightarrow> length acc + length s \<le> 512 \<Longrightarrow>
   fits acc prev (s @ cs) = fits (acc @ s) (if s = [] then prev else Some (last s)) cs"
  by (induction s arbitrary: acc prev) auto

lemma fits_too_long:
  "LF \<notin> set s \<Longrightarrow> length acc \<le> 512 \<Longrightarrow> 512 < length acc + length s \<Longrightarrow> \<not> fits acc prev (s @ cs)"
  by (induction s arbitrary: acc prev) auto

lemma split_read_line:
  assumes "whole_line line"
  shows "split_read [] prev (line @ crlf @ cs) = (case split_read [] (Some LF) cs of (ls, acc) \<Rightarrow> (line # ls, acc))"
  using assms split_read_skip [of line "[]" prev "crlf @ cs"] by (simp add: whole_line_def split: prod.split)

lemma fits_line:
  assumes "whole_line line"
  shows "fits [] prev (line @ crlf @ cs) = fits [] (Some LF) cs"
  using assms fits_skip [of line "[]" prev "crlf @ cs"] by (simp add: whole_line_def)

lemma split_read_wire:
  "\<forall>line \<in> set lines. whole_line line \<Longrightarrow> split_read [] prev (wire lines) = (lines, []) \<and> fits [] prev (wire lines)"
proof (induction lines arbitrary: prev)
  case (Cons line lines)
  have "wire (line # lines) = line @ crlf @ wire lines" by (simp add: wire_def)
  with Cons show ?case using split_read_line [of line prev] fits_line [of line prev] by simp
qed (simp add: wire_def)

lemma split_reads_wire:
  "\<forall>lines \<in> set batches. \<forall>line \<in> set lines. whole_line line \<Longrightarrow>
   split_reads [] (map wire batches) = concat batches \<and> fits_reads [] (map wire batches)"
  by (induction batches) (auto simp: split_read_wire)

text \<open>
  How the network cuts the text into reads does not matter to the splitter, as long as no read begins between a CR and its LF.
\<close>

lemma split_read_append:
  "split_read acc prev (xs @ ys) =
    (case split_read acc prev xs of (ls, acc') \<Rightarrow>
      case split_read acc' (if xs = [] then prev else Some (last xs)) ys of (ls', acc'') \<Rightarrow> (ls @ ls', acc''))"
  by (induction acc prev xs rule: split_read.induct) (auto split: prod.split)

lemma fits_append:
  "fits acc prev (xs @ ys) \<longleftrightarrow>
    fits acc prev xs \<and> fits (snd (split_read acc prev xs)) (if xs = [] then prev else Some (last xs)) ys"
  by (induction acc prev xs rule: fits.induct) (auto split: prod.split)

lemma split_read_start: "ys = [] \<or> hd ys \<noteq> LF \<Longrightarrow> split_read acc prev ys = split_read acc None ys \<and> fits acc prev ys = fits acc None ys"
  by (cases ys) auto

lemma split_reads_concat:
  assumes "\<forall>bs \<in> set reads. hd bs \<noteq> LF \<and> bs \<noteq> []"
  shows "split_reads acc reads = fst (split_read acc prev (concat reads)) \<and> fits_reads acc reads = fits acc prev (concat reads)"
  using assms
proof (induction reads arbitrary: acc prev)
  case (Cons bs reads)
  have "bs = [] \<or> hd bs \<noteq> LF" using Cons.prems by simp
  note start = split_read_start [OF this, of acc prev]
  obtain ls acc' where b: "split_read acc None bs = (ls, acc')" by fastforce
  show ?case
    using Cons.IH [of acc' "Some (last bs)"] Cons.prems start b
    by (simp add: split_read_append fits_append split: prod.split)
qed simp

lemma split_read_wire_part:
  assumes "\<forall>line \<in> set lines. whole_line line" and "LF \<notin> set part" and "length part \<le> 512"
  shows "split_read [] None (wire lines @ part) = (lines, part) \<and> fits [] None (wire lines @ part)"
  using split_read_wire [OF assms(1), of None] assms(2,3) split_read_skip [of part "[]" _ "[]"] fits_skip [of part "[]" _ "[]"]
  by (simp add: split_read_append fits_append)

lemma wire_c_str: "\<forall>line \<in> set lines. whole_line line \<Longrightarrow> c_str (wire lines)"
  by (induction lines) (auto simp: wire_def whole_line_def)

lemma next_word_space: "CHR '' '' \<notin> set w \<Longrightarrow> next_word (w @ CHR '' '' # r) = Some (w, r)"
  by (induction w) auto

lemma line_events_message:
  assumes "CHR '' '' \<notin> set user" "CHR '' '' \<notin> set command" "CHR '' '' \<notin> set where'"
    and "strncmp_eq command ''PRIVMSG'' \<or> strncmp_eq command ''NOTICE''"
  shows "line_events (CHR '':'' # user @ CHR '' '' # command @ CHR '' '' # where' @ CHR '' '' # CHR '':'' # message)
    = [Check_cmd user (target_of where' user) message]"
  using assms(4) by (simp add: line_events_def strncmp_eq_def [of _ "''PING''"] next_word_space assms(1-3) message_events_def)

lemma line_events_check:
  assumes "Check_cmd user target message \<in> set (line_events line)"
  shows "length user + length message + 11 \<le> length line \<and> set message \<subseteq> set line \<and>
    set user \<subseteq> set line \<and> set target \<subseteq> set line"
proof (cases line)
  case Nil
  with assms show ?thesis by (simp add: line_events_def strncmp_eq_def)
next
  case (Cons c r)
  have np: "\<not> strncmp_eq line ''PING''" using assms by (auto simp: line_events_def)
  with assms Cons have c: "c = CHR '':''" by (auto simp: line_events_def split: if_splits)
  show ?thesis
  proof (cases r rule: words_cases)
    case few
    with assms Cons np c show ?thesis by (auto simp: line_events_def)
  next
    case w: (three u r1 command r2 where' r3)
    with assms Cons np c have m: "Check_cmd user target message \<in> set (message_events u command where' r3)"
      by (simp add: line_events_def)
    then have cmd: "strncmp_eq command ''PRIVMSG'' \<or> strncmp_eq command ''NOTICE''"
      unfolding message_events_def by (rule contrapos_pp) simp
    with m have "message_part r3 = Some message \<and> user = u \<and> target = target_of where' u"
      by (cases "message_part r3") (simp_all add: message_events_def)
    then have mp: "message_part r3 = Some message" and u: "user = u" and t: "target = target_of where' u" by auto
    have tsub: "set target \<subseteq> set u \<union> set where'"
      by (auto simp: t target_of_def dest: set_takeWhileD)
    have command: "6 \<le> length command"
      using cmd strncmp_eq_length [of command "''PRIVMSG''"] strncmp_eq_length [of command "''NOTICE''"] by auto
    from message_part_Some [OF mp] obtain q where "r3 = q @ CHR '':'' # message" by auto
    moreover have "r = u @ CHR '' '' # r1" "r1 = command @ CHR '' '' # r2" "r2 = where' @ CHR '' '' # r3"
      using w next_word_Some by blast+
    ultimately show ?thesis using Cons command u tsub by auto
  qed
qed

lemma concat_wire_events:
  "concat (map line_events (concat batches)) = concat (map (\<lambda>lines. concat (map line_events lines)) batches)"
  by (induction batches) auto

section \<open>Properties\<close>

text \<open>
  C6: The reader of the network is exactly the line splitter followed by the list-level parser of
  a line, for every sequence of reads without NUL bytes and whatever the buffer holds at first: it
  runs without a fault, and with the events of the split lines in order, if and only if no byte
  arrives while 512 bytes of an unfinished line are in the buffer; otherwise it writes the
  terminator behind the 513-byte buffer.
\<close>

theorem irc_loop_refines_splitter:
  assumes "length cells = 513" and "\<forall>bs \<in> set reads. c_str bs"
  shows "irc_loop (irc_start cells) (map Bytes reads) =
    (if fits_reads [] reads then Inr (concat (map line_events (split_reads [] reads)), False)
     else Inl Out_Of_Bounds)"
  using irc_loop_reads [OF holds_line_start [OF assms(1)], of reads] assms(2) by simp

theorem irc_loop_refines_splitter_witness:
  "irc_loop (irc_start (replicate 513 NUL)) (map Bytes [''PING a'', crlf @ ''x'']) =
     Inr ([Sent ''PONG a'', Sent crlf], False)"
  by (subst irc_loop_refines_splitter) (simp_all add: line_events_def strncmp_eq_def)

text \<open>
  C14: Lines of at most 510 characters that the server ends with CR LF are all handled, once each and in order, without a fault,
  however the network cuts them into reads, with one exception: no read may begin with the LF of a CR LF. A line that is not yet
  complete does nothing. The pointer parser working in place leaves nothing of one line behind that disturbs the next.
\<close>

theorem irc_loop_delivers_lines:
  assumes "length cells = 513" and "\<forall>line \<in> set lines. whole_line line"
    and "c_str part" and "LF \<notin> set part" and "length part \<le> 512"
    and cut: "concat reads = wire lines @ part" "\<forall>bs \<in> set reads. bs \<noteq> [] \<and> hd bs \<noteq> LF"
  shows "irc_loop (irc_start cells) (map Bytes reads) = Inr (concat (map line_events lines), False)"
proof -
  have "c_str (concat reads)" unfolding cut(1) using wire_c_str [OF assms(2)] assms(3) by simp
  then have "\<forall>bs \<in> set reads. c_str bs" by (auto simp: c_str_def)
  moreover have "\<forall>bs \<in> set reads. hd bs \<noteq> LF \<and> bs \<noteq> []" using cut(2) by blast
  note split_reads_concat [OF this, of "[]" None, unfolded cut(1)]
  ultimately show ?thesis
    using irc_loop_reads [OF holds_line_start [OF assms(1)], of reads] split_read_wire_part [OF assms(2,4,5)] by simp
qed

theorem irc_loop_delivers_lines_witness:
  "irc_loop (irc_start (replicate 513 NUL)) (map Bytes [''PI'', ''NG a'' @ crlf @ ''PIN'', ''G b'', crlf @ ''PING c'']) =
     Inr ([Sent ''PONG a'', Sent crlf, Sent ''PONG b'', Sent crlf], False)"
  by (subst irc_loop_delivers_lines [where lines = "[''PING a'', ''PING b'']" and part = "''PING c''"])
    (simp_all add: whole_line_def wire_def line_events_def strncmp_eq_def)

text \<open>
  A chat message reaches \<open>modules_check_cmd\<close> as it was sent: for a sender and a place
  without spaces, the full sender, the place to answer to and the unchanged text are what the
  parser passes on, and the place is the channel for a channel message and the nick of the sender
  for a private one.
\<close>

lemma irc_loop_passes_message:
  assumes "length cells = 513"
    and "CHR '' '' \<notin> set nick" "CHR '' '' \<notin> set host" "CHR '' '' \<notin> set where'" "CHR ''!'' \<notin> set nick"
    and "whole_line (CHR '':'' # nick @ CHR ''!'' # host @ '' PRIVMSG '' @ where' @ '' :'' @ message)"
  shows "irc_loop (irc_start cells)
      [Bytes (wire [CHR '':'' # nick @ CHR ''!'' # host @ '' PRIVMSG '' @ where' @ '' :'' @ message])] =
    Inr ([Check_cmd (nick @ CHR ''!'' # host)
           (if strncmp_eq where' ''#'' \<or> strncmp_eq where' ''&'' \<or> strncmp_eq where' ''+'' \<or> strncmp_eq where' ''!''
            then where' else nick) message], False)"
proof -
  let ?line = "CHR '':'' # nick @ CHR ''!'' # host @ '' PRIVMSG '' @ where' @ '' :'' @ message"
  have tw: "takeWhile (\<lambda>c. c \<noteq> CHR ''!'') (nick @ CHR ''!'' # host) = nick"
    using assms(5) by (induction nick) auto
  have t: "target_of where' (nick @ CHR ''!'' # host) =
      (if strncmp_eq where' ''#'' \<or> strncmp_eq where' ''&'' \<or> strncmp_eq where' ''+'' \<or> strncmp_eq where' ''!''
       then where' else nick)"
    using tw by (cases where') (auto simp: target_of_def strncmp_eq_def)
  have ev: "line_events ?line = [Check_cmd (nick @ CHR ''!'' # host) (target_of where' (nick @ CHR ''!'' # host)) message]"
    using line_events_message [of "nick @ CHR ''!'' # host" "''PRIVMSG''" where' message] assms(2-4)
    by (simp add: strncmp_eq_def)
  have "\<forall>bs \<in> set (map wire [[?line]]). c_str bs" using assms(6) wire_c_str [of "[?line]"] by auto
  from irc_loop_reads [OF holds_line_start [OF assms(1)] _ this] split_reads_wire [of "[[?line]]"] assms(6) ev t
  show ?thesis by simp
qed

text \<open>
  A server's PING is answered at once by the same line with PONG, and nothing else happens.
\<close>

lemma irc_loop_answers_ping:
  assumes "length cells = 513" and "whole_line (''PING'' @ token)"
  shows "irc_loop (irc_start cells) [Bytes (wire [''PING'' @ token])] = Inr ([Sent (''PONG'' @ token), Sent crlf], False)"
proof -
  have "\<forall>bs \<in> set (map wire [[''PING'' @ token]]). c_str bs"
    using assms(2) wire_c_str [of "[''PING'' @ token]"] by auto
  from irc_loop_reads [OF holds_line_start [OF assms(1)] _ this] split_reads_wire [of "[[''PING'' @ token]]"] assms(2)
  show ?thesis by (simp add: line_events_def strncmp_eq_def)
qed

text \<open>
  The end of a line is missed when the network delivers its CR in one read and its LF at the
  start of the next: the line is then glued to the one behind it, and what the line says alone is
  lost.
\<close>

lemma irc_loop_misses_split_crlf:
  assumes "length cells = 513" and "whole_line line" and "whole_line line'"
    and "length line + length line' \<le> 508"
  shows "irc_loop (irc_start cells) [Bytes (line @ [CR]), Bytes (LF # line' @ crlf)] =
    Inr (line_events (line @ crlf @ line'), False)"
proof -
  have c: "\<forall>bs \<in> set [line @ [CR], LF # line' @ crlf]. c_str bs" using assms(2,3) by (simp add: whole_line_def)
  have s1: "split_read [] None (line @ [CR]) = ([], line @ [CR])" "fits [] None (line @ [CR])"
    using assms(2) split_read_skip [of "line @ [CR]" "[]" None "[]"] fits_skip [of "line @ [CR]" "[]" None "[]"]
    by (simp_all add: whole_line_def)
  have s2: "split_read (line @ [CR, LF]) (Some LF) (line' @ crlf) = ([line @ crlf @ line'], [])"
    "fits (line @ [CR, LF]) (Some LF) (line' @ crlf)"
    using assms(3,4) split_read_skip [of line' "line @ [CR, LF]" "Some LF" crlf]
      fits_skip [of line' "line @ [CR, LF]" "Some LF" crlf]
    by (simp_all add: whole_line_def butlast_append)
  from irc_loop_reads [OF holds_line_start [OF assms(1)] _ c] s1 s2 assms(4) show ?thesis by simp
qed

text \<open>
  A server line of more than 512 bytes, however it is cut into two reads, makes the loop write
  outside the line buffer: with 512 bytes of it stored, the terminator goes to \<open>buf[513]\<close>.
\<close>

lemma irc_loop_long_line_overflows:
  assumes "length cells = 513" and "c_str (a @ b)" and "LF \<notin> set (a @ b)" and "512 < length (a @ b)"
  shows "irc_loop (irc_start cells) [Bytes a, Bytes b] = Inl Out_Of_Bounds"
proof -
  have c: "\<forall>bs \<in> set [a, b]. c_str bs" using assms(2) by auto
  have "\<not> fits_reads [] [a, b]"
  proof (cases "length a \<le> 512")
    case True
    then show ?thesis
      using assms(3,4) split_read_skip [of a "[]" None "[]"] fits_too_long [of b a None "[]"] by auto
  next
    case False
    then show ?thesis using assms(3) fits_too_long [of a "[]" None "[]"] by auto
  qed
  with irc_loop_reads [OF holds_line_start [OF assms(1)] _ c] show ?thesis by simp
qed

end
