(* ===== verification/Network.thy ===== *)
theory Network
  imports Irc_Input
begin

text \<open>
  The connection of \<^verbatim>\<open>src/net.c\<close>: which library calls follow which results, and what stays open. The
  results of the resolver, the sockets and mbedtls are the argument \<open>net_lib\<close>.
\<close>

section \<open>Definitions of the source\<close>

text \<open>The results of one attempt to connect; \<open>tls_step\<close> gives those of the calls of \<open>mbedtls_ssl_handshake\<close>.\<close>

record net_lib =
  getaddrinfo_ret :: int
  socket_ret :: int
  errno_ret :: int
  connect_ret :: int
  tls_seed :: int
  tls_connect :: int
  tls_fd :: int
  tls_defaults :: int
  tls_setup :: int
  tls_hostname :: int
  tls_step :: "nat \<Rightarrow> int"
  tls_want_read :: int
  tls_want_write :: int

text \<open>
  The globals, and what the process holds: its open sockets, the results of \<open>getaddrinfo\<close> and the sets of mbedtls
  contexts that are initialised and not freed.
\<close>

record net_state =
  conn :: int
  use_ssl :: bool
  server_fd :: "int option"
  open_fds :: "int list"
  addrinfos :: nat
  tls_sets :: nat

definition net_connect_nossl :: "net_lib \<Rightarrow> net_state \<Rightarrow> net_state \<times> int" where
  "net_connect_nossl lib st =
     (if getaddrinfo_ret lib \<noteq> 0 then (st, getaddrinfo_ret lib)
      else
        (let st = st\<lparr>addrinfos := addrinfos st + 1, conn := socket_ret lib\<rparr> in
         if conn st = -1 then (st\<lparr>addrinfos := addrinfos st - 1\<rparr>, errno_ret lib)
         else
           (let st = st\<lparr>open_fds := conn st # open_fds st\<rparr> in
            if connect_ret lib \<noteq> 0 then (st\<lparr>addrinfos := addrinfos st - 1\<rparr>, connect_ret lib)
            else (st\<lparr>addrinfos := addrinfos st - 1\<rparr>, 0))))"

text \<open>The handshake is repeated while it wants to read or write; \<open>None\<close> when this never ends.\<close>

partial_function (option) tls_handshake :: "net_lib \<Rightarrow> nat \<Rightarrow> int option" where
  "tls_handshake lib n =
     (if tls_step lib n = 0 then Some 0
      else if tls_step lib n \<noteq> tls_want_read lib \<and> tls_step lib n \<noteq> tls_want_write lib then Some (-126)
      else tls_handshake lib (n + 1))"

definition net_connect_ssl :: "net_lib \<Rightarrow> net_state \<Rightarrow> (net_state \<times> int) option" where
  "net_connect_ssl lib st =
     (let st = st\<lparr>server_fd := None, tls_sets := tls_sets st + 1\<rparr> in
      if tls_seed lib \<noteq> 0 then Some (st, -89)
      else if tls_connect lib \<noteq> 0 then Some (st, -95)
      else
        (let st = st\<lparr>server_fd := Some (tls_fd lib), open_fds := tls_fd lib # open_fds st\<rparr> in
         if tls_defaults lib \<noteq> 0 then Some (st, -101)
         else if tls_setup lib \<noteq> 0 then Some (st, -109)
         else if tls_hostname lib \<noteq> 0 then Some (st, -114)
         else (case tls_handshake lib 0 of None \<Rightarrow> None | Some ret \<Rightarrow> Some (st, ret))))"

definition net_connect :: "net_lib \<Rightarrow> bool \<Rightarrow> net_state \<Rightarrow> (net_state \<times> int) option" where
  "net_connect lib use_ssl_copy st =
     (let st = st\<lparr>use_ssl := use_ssl_copy\<rparr> in
      if use_ssl st then net_connect_ssl lib st else Some (net_connect_nossl lib st))"

definition net_disconnect :: "net_state \<Rightarrow> net_state" where
  "net_disconnect st =
     (if \<not> use_ssl st then st\<lparr>open_fds := remove1 (conn st) (open_fds st)\<rparr>
      else st\<lparr>open_fds := (case server_fd st of None \<Rightarrow> open_fds st | Some fd \<Rightarrow> remove1 fd (open_fds st)),
              server_fd := None, tls_sets := tls_sets st - 1\<rparr>)"

text \<open>
  One call of \<open>net_recv\<close>: the result of the library and the bytes in \<open>rbuf\<close>. \<open>loop_turn\<close> is what the head of the loop in
  \<open>irc_loop\<close> makes of it.
\<close>

definition net_recv :: "net_state \<Rightarrow> int \<times> string \<Rightarrow> int \<times> string \<Rightarrow> int \<times> string" where
  "net_recv st ssl_read sock_read = (if use_ssl st then ssl_read else sock_read)"

definition loop_turn :: "bool \<Rightarrow> int \<times> string \<Rightarrow> loop_input" where
  "loop_turn done_flag r =
     (if done_flag then Done
      else if fst r = 0 then Closed
      else if fst r < 0 then Recv_error
      else Bytes (take (nat (fst r)) (snd r)))"

section \<open>The handshake\<close>

definition wants_more :: "net_lib \<Rightarrow> nat \<Rightarrow> bool" where
  "wants_more lib n \<longleftrightarrow> tls_step lib n \<noteq> 0 \<and> (tls_step lib n = tls_want_read lib \<or> tls_step lib n = tls_want_write lib)"

lemma tls_handshake_stop: "\<not> wants_more lib n \<Longrightarrow> tls_handshake lib n = Some (if tls_step lib n = 0 then 0 else -126)"
  by (subst tls_handshake.simps) (auto simp: wants_more_def)

lemma tls_handshake_more: "wants_more lib n \<Longrightarrow> tls_handshake lib n = tls_handshake lib (Suc n)"
  by (subst tls_handshake.simps) (auto simp: wants_more_def)

text \<open>It ends exactly when one of its calls does not ask for more.\<close>

lemma tls_handshake_first:
  assumes "\<And>k. k < m \<Longrightarrow> wants_more lib (n + k)" and "\<not> wants_more lib (n + m)"
  shows "tls_handshake lib n = Some (if tls_step lib (n + m) = 0 then 0 else -126)"
  using assms
proof (induction m arbitrary: n)
  case 0
  then show ?case using tls_handshake_stop by simp
next
  case (Suc m)
  have "tls_handshake lib n = tls_handshake lib (Suc n)" using Suc.prems(1) [of 0] by (simp add: tls_handshake_more)
  moreover have "wants_more lib (Suc n + k)" if "k < m" for k using Suc.prems(1) [of "Suc k"] that by simp
  ultimately show ?case using Suc.IH [of "Suc n"] Suc.prems(2) by simp
qed

lemma tls_handshake_ends:
  assumes "\<not> wants_more lib (n + m)"
  shows "tls_handshake lib n \<noteq> None"
proof -
  let ?m = "LEAST m. \<not> wants_more lib (n + m)"
  have "\<not> wants_more lib (n + ?m)" using assms by (rule LeastI)
  moreover have "wants_more lib (n + k)" if "k < ?m" for k using not_less_Least [OF that] by blast
  ultimately show ?thesis using tls_handshake_first [of ?m lib n] by simp
qed

lemma tls_handshake_result:
  assumes "tls_handshake lib n = Some ret"
  shows "\<exists>m. \<not> wants_more lib (n + m)"
proof (rule tls_handshake.raw_induct [where P = "\<lambda>lib n ret. \<exists>m. \<not> wants_more lib (n + m)", OF _ assms])
  fix f :: "net_lib \<Rightarrow> nat \<Rightarrow> int option" and lib n ret
  assume IH: "\<And>lib n ret. f lib n = Some ret \<Longrightarrow> \<exists>m. \<not> wants_more lib (n + m)"
    and call: "(if tls_step lib n = 0 then Some 0
      else if tls_step lib n \<noteq> tls_want_read lib \<and> tls_step lib n \<noteq> tls_want_write lib then Some (-126)
      else f lib (n + 1)) = Some ret"
  show "\<exists>m. \<not> wants_more lib (n + m)"
  proof (cases "wants_more lib n")
    case True
    then have "f lib (n + 1) = Some ret" using call by (auto simp: wants_more_def split: if_splits)
    from IH [OF this] obtain m where "\<not> wants_more lib (n + 1 + m)" by blast
    then show ?thesis by (metis add.assoc)
  next
    case False
    then show ?thesis by (intro exI [of _ 0]) simp
  qed
qed

section \<open>What stays open\<close>

text \<open>
  The state a connection leaves: its socket where there is one, and with TLS one more set of contexts. \<open>attempt_socket\<close> says
  which attempts open a socket.
\<close>

definition attempt_socket :: "net_lib \<Rightarrow> bool \<Rightarrow> bool" where
  "attempt_socket lib ssl \<longleftrightarrow>
     (if ssl then tls_seed lib = 0 \<and> tls_connect lib = 0 else getaddrinfo_ret lib = 0 \<and> socket_ret lib \<noteq> -1)"

lemma net_connect_effect:
  assumes "net_connect lib ssl st = Some (st', ret)"
  shows "use_ssl st' = ssl" and "addrinfos st' = addrinfos st"
    and "length (open_fds st') = length (open_fds st) + (if attempt_socket lib ssl then 1 else 0)"
    and "tls_sets st' = tls_sets st + (if ssl then 1 else 0)"
  using assms
  by (auto simp: net_connect_def net_connect_ssl_def net_connect_nossl_def attempt_socket_def Let_def
      split: if_splits option.splits)

lemma net_connect_success:
  assumes "net_connect lib ssl st = Some (st', 0)" and "errno_ret lib \<noteq> 0"
  shows "attempt_socket lib ssl"
    and "if ssl then server_fd st' = Some (tls_fd lib) \<and> tls_fd lib \<in> set (open_fds st') else conn st' \<in> set (open_fds st')"
  using assms
  by (auto simp: net_connect_def net_connect_ssl_def net_connect_nossl_def attempt_socket_def Let_def
      split: if_splits option.splits)

text \<open>A connection that was made is given back whole.\<close>

lemma disconnect_after_connect:
  assumes "net_connect lib ssl st = Some (st', 0)" and "errno_ret lib \<noteq> 0"
  shows "length (open_fds (net_disconnect st')) = length (open_fds st)" and "tls_sets (net_disconnect st') = tls_sets st"
proof -
  note eff = net_connect_effect [OF assms(1)] and suc = net_connect_success [OF assms]
  show "length (open_fds (net_disconnect st')) = length (open_fds st)"
    using eff suc by (auto simp: net_disconnect_def length_remove1 split: if_splits option.splits)
  show "tls_sets (net_disconnect st') = tls_sets st"
    using eff by (auto simp: net_disconnect_def)
qed

lemma net_connect_returns:
  assumes "\<not> wants_more lib m"
  shows "net_connect lib ssl st \<noteq> None"
  using tls_handshake_ends [of lib 0 m] assms
  by (auto simp: net_connect_def net_connect_ssl_def Let_def split: option.splits)

text \<open>Which attempts succeed.\<close>

definition connects :: "net_lib \<Rightarrow> bool \<Rightarrow> bool" where
  "connects lib ssl \<longleftrightarrow> attempt_socket lib ssl \<and>
     (if ssl then tls_defaults lib = 0 \<and> tls_setup lib = 0 \<and> tls_hostname lib = 0 \<and> tls_handshake lib 0 = Some 0
      else connect_ret lib = 0)"

lemma net_connect_connects:
  assumes "net_connect lib ssl st = Some (st', ret)" and "errno_ret lib \<noteq> 0"
  shows "ret = 0 \<longleftrightarrow> connects lib ssl"
  using assms
  by (auto simp: net_connect_def net_connect_ssl_def net_connect_nossl_def attempt_socket_def connects_def Let_def
      split: if_splits option.splits)

end
