(* ===== verification/Irc_Login.thy ===== *)
theory Irc_Login
  imports Irc_Output
begin

text \<open>
  \<open>irc_login\<close> of \<^verbatim>\<open>src/irc.c\<close>: it sends PASS, USER and NICK and then reads lines until one of them has a
  word that begins with 0, appending an underscore to the nick where a word looks like 433. The
  model keeps the 513-byte line buffer, the allocated nick and both indices, with every access
  bounds-checked.
\<close>

section \<open>Definitions of the source\<close>

record login_state =
  login_buf :: "char list"
  login_pos :: nat
  login_nick :: "char list"
  login_nicklen :: nat
  login_success :: bool

text \<open>The checks behind the space test: the first character of a word.\<close>

definition login_word :: "nat \<Rightarrow> nat \<Rightarrow> login_state \<Rightarrow> fault + login_state \<times> string list" where
  "login_word rl i st =
     and_then (arr_read (login_buf st) (int i))
       (\<lambda>c.
          if c = CHR ''0'' then Inr (st\<lparr>login_success := True\<rparr>, [])
          else if c = CHR ''4'' then
            and_then (if i + 2 < rl then arr_read (login_buf st) (int (i + 2)) else Inr NUL)
              (\<lambda>d.
                 if i + 2 < rl \<and> d = CHR ''3'' \<and> login_nicklen st < 20 then
                   and_then (arr_write (login_nick st) (int (login_nicklen st)) (CHR ''_''))
                     (\<lambda>nick. and_then (arr_write nick (int (login_nicklen st + 1)) NUL)
                        (\<lambda>nick. and_then (c_string_at nick 0)
                           (\<lambda>s. Inr (st\<lparr>login_nick := nick, login_nicklen := login_nicklen st + 1\<rparr>,
                                     [net_raw (''NICK '' @ s @ crlf)]))))
                 else Inr (st, [net_raw (''NICK bphsd'' @ crlf)]))
          else Inr (st, []))"

text \<open>The loop over the \<open>o\<close> characters of a line.\<close>

function login_scan :: "nat \<Rightarrow> nat \<Rightarrow> nat \<Rightarrow> login_state \<Rightarrow> fault + login_state \<times> string list" where
  "login_scan rl len i st =
     (if i < len then
        and_then (arr_read (login_buf st) (int i - 1))
          (\<lambda>before. and_then (arr_read (login_buf st) 1)
             (\<lambda>second.
                if before \<noteq> CHR '' '' \<and> second \<noteq> CHR ''I'' then login_scan rl len (i + 1) st
                else
                  and_then
                    (if before \<noteq> CHR '' '' then
                       and_then (arr_write (login_buf st) 1 (CHR ''O''))
                         (\<lambda>buf. and_then (c_string_at buf 0) (\<lambda>s. Inr (st\<lparr>login_buf := buf\<rparr>, [net_raw (s @ crlf)])))
                     else Inr (st, []))
                    (\<lambda>(st, out1). and_then (login_word rl i st)
                       (\<lambda>(st, out2). and_then (login_scan rl len (i + 1) st)
                          (\<lambda>(st, out3). Inr (st, out1 @ out2 @ out3))))))
      else Inr (st, []))"
  by pat_completeness auto
termination
  by (relation "measure (\<lambda>(rl, len, i, st). len - i)") auto

declare login_scan.simps [simp del]

text \<open>The loop over the bytes of one read of \<open>rl\<close> bytes; \<open>prev\<close> is \<open>rbuf[j - 1]\<close>.\<close>

fun login_bytes :: "nat \<Rightarrow> login_state \<Rightarrow> char option \<Rightarrow> string \<Rightarrow> fault + login_state \<times> string list" where
  "login_bytes rl st prev [] = Inr (st, [])"
| "login_bytes rl st prev (c # cs) =
     and_then (arr_write (login_buf st) (int (login_pos st)) c)
       (\<lambda>buf.
          if prev = Some CR \<and> c = LF \<or> login_pos st = 512 then
            and_then (arr_write buf (int (login_pos st)) NUL)
              (\<lambda>buf. and_then (login_scan rl (login_pos st) 1 (st\<lparr>login_buf := buf\<rparr>))
                 (\<lambda>(st, out). and_then (login_bytes rl (st\<lparr>login_pos := 0\<rparr>) (Some c) cs)
                    (\<lambda>(st, out'). Inr (st, out @ out'))))
          else login_bytes rl (st\<lparr>login_buf := buf, login_pos := login_pos st + 1\<rparr>) (Some c) cs)"

text \<open>
  The loop over the reads; a read of at most 2 bytes, or an error, ends it. The last component is
  \<open>None\<close> while the loop waits for the next read.
\<close>

fun login_reads :: "login_state \<Rightarrow> string list \<Rightarrow> fault + string list \<times> bool option" where
  "login_reads st [] = Inr ([], None)"
| "login_reads st (bs # reads) =
     (if length bs \<le> 2 then Inr ([], Some (login_success st))
      else and_then (login_bytes (length bs) st None bs)
             (\<lambda>(st, out).
                if login_success st then Inr (out, Some True)
                else and_then (login_reads st reads) (\<lambda>(out', r). Inr (out @ out', r))))"

definition irc_login ::
    "bool \<Rightarrow> char list \<Rightarrow> (nat \<Rightarrow> char list) \<Rightarrow> string \<Rightarrow> string \<Rightarrow> string \<Rightarrow> string option \<Rightarrow> string list \<Rightarrow>
     fault + string list \<times> bool option" where
  "irc_login malloc_ok buf fresh user realname nick_t password reads =
     (let nicklen = length nick_t in
      if \<not> malloc_ok then Inr ([], Some False)
      else
        and_then (arr_blit (fresh ((if nicklen < 20 then 20 else nicklen) + 1)) 0 (nick_t @ [NUL]))
          (\<lambda>nick. and_then (c_string_at nick 0)
             (\<lambda>s.
                let hello = (case password of None \<Rightarrow> [] | Some p \<Rightarrow> [net_raw (''PASS '' @ p @ crlf)]) @
                      [net_raw (''USER '' @ user @ '' 0 0 :'' @ realname @ crlf), net_raw (''NICK '' @ s @ crlf)]
                in and_then
                     (login_reads \<lparr>login_buf = buf, login_pos = 0, login_nick = nick, login_nicklen = nicklen,
                        login_success = False\<rparr> reads)
                     (\<lambda>(out, r). Inr (hello @ out, r)))))"

section \<open>The accesses\<close>

text \<open>What holds between two bytes: the nick is a string of \<open>nicklen\<close> characters with room for 20.\<close>

definition login_ok :: "login_state \<Rightarrow> bool" where
  "login_ok st \<longleftrightarrow> length (login_buf st) = 513 \<and> login_pos st \<le> 512 \<and>
     max 20 (login_nicklen st) < length (login_nick st) \<and> NUL \<in> set (login_nick st)"

lemma c_string_at_ok: "NUL \<in> set buf \<Longrightarrow> \<exists>s. c_string_at buf 0 = Inr s"
  by (simp add: c_string_at_def)

lemma NUL_update: "i < length xs \<Longrightarrow> NUL \<in> set (xs[i := NUL])"
  by (rule set_update_memI)

lemma login_word_ok:
  assumes "login_ok st" and "i < 512" and "rl \<le> 512"
  shows "\<exists>st' out. login_word rl i st = Inr (st', out) \<and> login_ok st' \<and> login_buf st' = login_buf st \<and>
    login_pos st' = login_pos st"
proof -
  have len: "length (login_buf st) = 513" using assms(1) by (simp add: login_ok_def)
  show ?thesis
  proof (cases "i + 2 < rl \<and> login_buf st ! i = CHR ''4'' \<and> login_buf st ! (i + 2) = CHR ''3'' \<and> login_nicklen st < 20")
    case True
    let ?nick = "(login_nick st)[login_nicklen st := CHR ''_'', login_nicklen st + 1 := NUL]"
    have room: "login_nicklen st + 1 < length (login_nick st)" using True assms(1) by (auto simp: login_ok_def)
    then have nul: "NUL \<in> set ?nick" by (intro NUL_update) simp
    then obtain s where "c_string_at ?nick 0 = Inr s" using c_string_at_ok by blast
    then have "login_word rl i st = Inr (st\<lparr>login_nick := ?nick, login_nicklen := login_nicklen st + 1\<rparr>,
        [net_raw (''NICK '' @ s @ crlf)])"
      using True len assms(2,3) room by (simp add: login_word_def nat_add_distrib)
    then show ?thesis using True assms(1) nul by (auto simp: login_ok_def)
  next
    case False
    have rd: "arr_read (login_buf st) (int i) = Inr (login_buf st ! i)" using len assms(2) by simp
    have rd2: "i + 2 < rl \<Longrightarrow> arr_read (login_buf st) (int (i + 2)) = Inr (login_buf st ! (i + 2))"
      using len assms(3) by (intro arr_read_nat) simp
    have "\<exists>out. login_word rl i st = Inr (st, out) \<or> login_word rl i st = Inr (st\<lparr>login_success := True\<rparr>, out)"
      using False rd2 unfolding login_word_def rd by (cases "i + 2 < rl") auto
    then show ?thesis using assms(1) by (auto simp: login_ok_def)
  qed
qed

lemma login_scan_ok:
  assumes "login_ok st" and "len \<le> 512" and "rl \<le> 512" and "NUL \<in> set (drop 2 (login_buf st))" and "1 \<le> i"
  shows "\<exists>st' out. login_scan rl len i st = Inr (st', out) \<and> login_ok st'"
  using assms(1,4,5)
proof (induction "len - i" arbitrary: i st)
  case 0
  then show ?case by (subst login_scan.simps) simp
next
  case (Suc n)
  then have i: "i < len" "n = len - (i + 1)" by auto
  have b: "length (login_buf st) = 513" using Suc.prems(1) by (simp add: login_ok_def)
  have rd: "arr_read (login_buf st) (int i - 1) = Inr (login_buf st ! (i - 1))"
    using i assms(2) b Suc.prems(3) by (simp add: arr_read_def nat_diff_distrib)
  have rd1: "arr_read (login_buf st) 1 = Inr (login_buf st ! 1)" using b by (simp add: arr_read_def)
  show ?case
  proof (cases "login_buf st ! (i - 1) \<noteq> CHR '' '' \<and> login_buf st ! 1 \<noteq> CHR ''I''")
    case True
    then have "login_scan rl len i st = login_scan rl len (i + 1) st"
      using i b rd by (subst login_scan.simps) simp
    with Suc.hyps(1) [OF i(2) Suc.prems(1,2)] Suc.prems(3) show ?thesis by simp
  next
    case False
    define st1 where "st1 = (if login_buf st ! (i - 1) \<noteq> CHR '' '' then st\<lparr>login_buf := (login_buf st)[1 := CHR ''O'']\<rparr> else st)"
    have ok1: "login_ok st1" "NUL \<in> set (drop 2 (login_buf st1))"
      using Suc.prems(1,2) by (auto simp: st1_def login_ok_def drop_update_cancel)
    have "NUL \<in> set ((login_buf st)[1 := CHR ''O''])"
      using Suc.prems(2) by (metis drop_update_cancel in_set_dropD one_less_numeral_iff semiring_norm(76))
    then obtain s where "c_string_at ((login_buf st)[1 := CHR ''O'']) 0 = Inr s" using c_string_at_ok by blast
    then have pre: "\<exists>out1. (if login_buf st ! (i - 1) \<noteq> CHR '' '' then
                       and_then (arr_write (login_buf st) 1 (CHR ''O''))
                         (\<lambda>buf. and_then (c_string_at buf 0) (\<lambda>s. Inr (st\<lparr>login_buf := buf\<rparr>, [net_raw (s @ crlf)])))
                     else Inr (st, [])) = Inr (st1, out1)"
      using b by (simp add: st1_def)
    then obtain out1 where pre: "(if login_buf st ! (i - 1) \<noteq> CHR '' '' then
                       and_then (arr_write (login_buf st) 1 (CHR ''O''))
                         (\<lambda>buf. and_then (c_string_at buf 0) (\<lambda>s. Inr (st\<lparr>login_buf := buf\<rparr>, [net_raw (s @ crlf)])))
                     else Inr (st, [])) = Inr (st1, out1)" by blast
    have "i < 512" using i assms(2) by simp
    from login_word_ok [OF ok1(1) this assms(3)] obtain st2 out2 where
      w: "login_word rl i st1 = Inr (st2, out2)" "login_ok st2" "login_buf st2 = login_buf st1" by blast
    have "NUL \<in> set (drop 2 (login_buf st2))" using w(3) ok1(2) by simp
    with Suc.hyps(1) [OF i(2) w(2)] obtain st3 out3 where
      r: "login_scan rl len (i + 1) st2 = Inr (st3, out3)" "login_ok st3" by auto
    have "login_scan rl len i st = Inr (st3, out1 @ out2 @ out3)"
      by (subst login_scan.simps)
        (simp only: if_P [OF i(1)] rd rd1 and_then.simps if_not_P [OF False] pre w(1) r(1) prod.case)
    with r(2) show ?thesis by blast
  qed
qed

lemma login_scan_none: "len \<le> i \<Longrightarrow> login_scan rl len i st = Inr (st, [])"
  by (subst login_scan.simps) simp

lemma login_bytes_ok:
  assumes "login_ok st" and "rl \<le> 512"
  shows "\<exists>st' out. login_bytes rl st prev cs = Inr (st', out) \<and> login_ok st'"
  using assms(1)
proof (induction cs arbitrary: st prev)
  case (Cons c cs)
  let ?buf = "(login_buf st)[login_pos st := c]"
  have b: "length (login_buf st) = 513" "login_pos st \<le> 512" using Cons.prems by (auto simp: login_ok_def)
  show ?case
  proof (cases "prev = Some CR \<and> c = LF \<or> login_pos st = 512")
    case True
    let ?st = "st\<lparr>login_buf := ?buf[login_pos st := NUL]\<rparr>"
    have ok: "login_ok ?st" using Cons.prems by (simp add: login_ok_def)
    have "\<exists>st1 out1. login_scan rl (login_pos st) 1 ?st = Inr (st1, out1) \<and> login_ok st1"
    proof (cases "login_pos st \<le> 1")
      case True
      with ok show ?thesis by (auto simp: login_scan_none)
    next
      case False
      then have "login_pos st = (login_pos st - 2) + 2" by simp
      then obtain k where k: "login_pos st = k + 2" by blast
      have "drop 2 (?buf[login_pos st := NUL]) ! (login_pos st - 2) = NUL" using b by (simp add: k)
      moreover have "login_pos st - 2 < length (drop 2 (?buf[login_pos st := NUL]))" using False b by simp
      ultimately have "NUL \<in> set (drop 2 (?buf[login_pos st := NUL]))" by (metis nth_mem)
      then have "NUL \<in> set (drop 2 (login_buf ?st))" by simp
      with ok b(2) assms(2) show ?thesis by (intro login_scan_ok) auto
    qed
    then obtain st1 out1 where s1: "login_scan rl (login_pos st) 1 ?st = Inr (st1, out1)" "login_ok st1" by blast
    then have "login_ok (st1\<lparr>login_pos := 0\<rparr>)" by (simp add: login_ok_def)
    from Cons.IH [OF this, of "Some c"] s1(1) True b show ?thesis by auto
  next
    case False
    then have "login_ok (st\<lparr>login_buf := ?buf, login_pos := login_pos st + 1\<rparr>)"
      using Cons.prems b by (auto simp: login_ok_def)
    from Cons.IH [OF this, of "Some c"] False b show ?thesis by auto
  qed
qed simp

lemma login_reads_ok:
  assumes "login_ok st" and "\<forall>bs \<in> set reads. length bs \<le> 512"
  shows "\<exists>out r. login_reads st reads = Inr (out, r) \<and> ((\<exists>bs \<in> set reads. length bs \<le> 2) \<longrightarrow> r \<noteq> None)"
  using assms
proof (induction reads arbitrary: st)
  case (Cons bs reads)
  show ?case
  proof (cases "length bs \<le> 2")
    case False
    obtain st1 out1 where s1: "login_bytes (length bs) st None bs = Inr (st1, out1)" "login_ok st1"
      using login_bytes_ok [OF Cons.prems(1), of "length bs" None bs] Cons.prems(2) by auto
    obtain out2 r where "login_reads st1 reads = Inr (out2, r)" "(\<exists>bs \<in> set reads. length bs \<le> 2) \<longrightarrow> r \<noteq> None"
      using Cons.IH [OF s1(2)] Cons.prems(2) by auto
    with s1(1) False show ?thesis by auto
  qed simp
qed simp

text \<open>The state the loop starts in, and what is sent before it.\<close>

definition login_hello :: "string \<Rightarrow> string \<Rightarrow> string \<Rightarrow> string option \<Rightarrow> string list" where
  "login_hello user realname nick password =
     (case password of None \<Rightarrow> [] | Some p \<Rightarrow> [net_raw (''PASS '' @ p @ crlf)]) @
     [net_raw (''USER '' @ user @ '' 0 0 :'' @ realname @ crlf), net_raw (''NICK '' @ nick @ crlf)]"

definition login_start :: "char list \<Rightarrow> char list \<Rightarrow> nat \<Rightarrow> login_state" where
  "login_start buf nick nicklen =
     \<lparr>login_buf = buf, login_pos = 0, login_nick = nick, login_nicklen = nicklen, login_success = False\<rparr>"

lemma irc_login_run:
  assumes "\<forall>m. length (fresh m) = m" and "c_str nick_t" and "length buf = 513"
  shows "\<exists>rest. length rest = max 20 (length nick_t) - length nick_t \<and> login_ok (login_start buf (nick_t @ NUL # rest) (length nick_t)) \<and>
    irc_login True buf fresh user realname nick_t password reads =
      and_then (login_reads (login_start buf (nick_t @ NUL # rest) (length nick_t)) reads)
        (\<lambda>(out, r). Inr (login_hello user realname nick_t password @ out, r))"
proof -
  let ?m = "(if length nick_t < 20 then 20 else length nick_t) + 1"
  let ?rest = "drop (length nick_t + 1) (fresh ?m)"
  have "arr_blit (fresh ?m) 0 (nick_t @ [NUL]) = Inr (nick_t @ NUL # ?rest)"
    using assms(1) by (simp add: arr_blit_def)
  moreover have "c_string_at (nick_t @ NUL # ?rest) 0 = Inr nick_t" using assms(2) by (rule c_string_at_0)
  moreover have "login_ok (login_start buf (nick_t @ NUL # ?rest) (length nick_t))"
    using assms(1,3) by (simp add: login_ok_def login_start_def)
  moreover have "length ?rest = max 20 (length nick_t) - length nick_t" using assms(1) by simp
  ultimately show ?thesis
    by (intro exI [of _ ?rest]) (simp add: irc_login_def Let_def login_start_def login_hello_def)
qed

section \<open>Replies of the server\<close>

lemma login_scan_quiet:
  assumes "length (login_buf st) = 513" and "len \<le> 512" and "1 \<le> i" and "login_buf st ! 1 \<noteq> CHR ''I''"
    and "\<forall>j. i \<le> j \<and> j < len \<and> login_buf st ! (j - 1) = CHR '' '' \<longrightarrow> login_buf st ! j \<noteq> CHR ''0'' \<and> login_buf st ! j \<noteq> CHR ''4''"
  shows "login_scan rl len i st = Inr (st, [])"
  using assms(3,5)
proof (induction "len - i" arbitrary: i)
  case 0
  then show ?case by (simp add: login_scan_none)
next
  case (Suc n)
  then have i: "i < len" "n = len - (i + 1)" by auto
  have rd: "arr_read (login_buf st) (int i - 1) = Inr (login_buf st ! (i - 1))"
    "arr_read (login_buf st) 1 = Inr (login_buf st ! 1)" "arr_read (login_buf st) (int i) = Inr (login_buf st ! i)"
    using i assms(1,2) Suc.prems(1) by (simp_all add: arr_read_def nat_diff_distrib)
  have next_i: "login_scan rl len (i + 1) st = Inr (st, [])"
    using Suc.hyps(1) [OF i(2)] Suc.prems by auto
  show ?case
  proof (cases "login_buf st ! (i - 1) = CHR '' ''")
    case True
    then have "login_buf st ! i \<noteq> CHR ''0''" "login_buf st ! i \<noteq> CHR ''4''" using Suc.prems i by auto
    then have "login_word rl i st = Inr (st, [])" using rd(3) by (simp add: login_word_def)
    then show ?thesis using True i rd next_i by (subst login_scan.simps) simp
  next
    case False
    then show ?thesis using assms(4) i rd next_i by (subst login_scan.simps) simp
  qed
qed

text \<open>A word in the middle of an otherwise quiet line.\<close>

lemma login_scan_word:
  assumes "length (login_buf st) = 513" and "len \<le> 512" and "1 \<le> i" and "i \<le> p" and "p < len" and "login_buf st ! 1 \<noteq> CHR ''I''"
    and "login_buf st ! (p - 1) = CHR '' ''" and "1 \<le> p"
    and "\<forall>j. i \<le> j \<and> j < p \<and> login_buf st ! (j - 1) = CHR '' '' \<longrightarrow> login_buf st ! j \<noteq> CHR ''0'' \<and> login_buf st ! j \<noteq> CHR ''4''"
  shows "login_scan rl len i st = and_then (login_word rl p st)
    (\<lambda>(st, out). and_then (login_scan rl len (p + 1) st) (\<lambda>(st, out'). Inr (st, out @ out')))"
  using assms(3,4,9)
proof (induction "p - i" arbitrary: i)
  case 0
  then have "i = p" by simp
  then have rd: "arr_read (login_buf st) (int i - 1) = Inr (CHR '' '')"
    "arr_read (login_buf st) 1 = Inr (login_buf st ! 1)"
    using assms by (simp_all add: arr_read_def nat_diff_distrib)
  then show ?case using \<open>i = p\<close> assms(5) by (subst login_scan.simps) simp
next
  case (Suc n)
  then have i: "i < len" "i < p" "n = p - (i + 1)" using assms(5) by auto
  have rd: "arr_read (login_buf st) (int i - 1) = Inr (login_buf st ! (i - 1))"
    "arr_read (login_buf st) 1 = Inr (login_buf st ! 1)" "arr_read (login_buf st) (int i) = Inr (login_buf st ! i)"
    using i assms(1,2) Suc.prems(1) by (simp_all add: arr_read_def nat_diff_distrib)
  have next_i: "login_scan rl len (i + 1) st = and_then (login_word rl p st)
    (\<lambda>(st, out). and_then (login_scan rl len (p + 1) st) (\<lambda>(st, out'). Inr (st, out @ out')))"
    using Suc.hyps(1) [OF i(3)] Suc.prems i by auto
  show ?case
  proof (cases "login_buf st ! (i - 1) = CHR '' ''")
    case True
    then have "login_buf st ! i \<noteq> CHR ''0''" "login_buf st ! i \<noteq> CHR ''4''" using Suc.prems i by auto
    then have "login_word rl i st = Inr (st, [])" using rd(3) by (simp add: login_word_def)
    moreover have "and_then r (\<lambda>(st, out). Inr (st, out)) = r" for r :: "fault + login_state \<times> string list"
      by (cases r) auto
    ultimately show ?thesis using True i rd next_i by (subst login_scan.simps) simp
  next
    case False
    then show ?thesis using assms(6) i rd next_i by (subst login_scan.simps) simp
  qed
qed

text \<open>No word of a text but the first begins with 0 or 4.\<close>

fun quiet :: "string \<Rightarrow> bool" where
  "quiet (a # b # s) \<longleftrightarrow> \<not> (a = CHR '' '' \<and> (b = CHR ''0'' \<or> b = CHR ''4'')) \<and> quiet (b # s)"
| "quiet s \<longleftrightarrow> True"

lemma quiet_nth: "quiet s \<Longrightarrow> Suc k < length s \<Longrightarrow> s ! k = CHR '' '' \<Longrightarrow> s ! Suc k \<noteq> CHR ''0'' \<and> s ! Suc k \<noteq> CHR ''4''"
  by (induction s arbitrary: k rule: quiet.induct) (auto simp: nth_Cons split: nat.splits)

lemma quiet_snoc: "quiet s \<Longrightarrow> c \<noteq> CHR ''0'' \<Longrightarrow> c \<noteq> CHR ''4'' \<Longrightarrow> quiet (s @ [c])"
  by (induction s rule: quiet.induct) auto

lemma login_bytes_prefix:
  assumes "LF \<notin> set xs" and "login_buf st = acc @ old @ junk" and "length old = length xs"
    and "login_pos st = length acc" and "length acc + length xs \<le> 512"
  shows "login_bytes rl st prev (xs @ cs) =
    login_bytes rl (st\<lparr>login_buf := acc @ xs @ junk, login_pos := length acc + length xs\<rparr>)
      (if xs = [] then prev else Some (last xs)) cs"
  using assms
proof (induction xs arbitrary: st acc old prev)
  case Nil
  then show ?case by (cases st) simp
next
  case (Cons c xs)
  then obtain x old' where old: "old = x # old'" by (cases old) auto
  let ?st = "st\<lparr>login_buf := acc @ c # old' @ junk, login_pos := Suc (length acc)\<rparr>"
  have "arr_write (login_buf st) (int (login_pos st)) c = Inr (acc @ c # old' @ junk)"
    using Cons.prems old by simp
  then have "login_bytes rl st prev ((c # xs) @ cs) = login_bytes rl ?st (Some c) (xs @ cs)"
    using Cons.prems by auto
  also have "\<dots> = login_bytes rl (?st\<lparr>login_buf := (acc @ [c]) @ xs @ junk, login_pos := length (acc @ [c]) + length xs\<rparr>)
      (if xs = [] then Some c else Some (last xs)) cs"
    using Cons.prems old by (intro Cons.IH [where old = old']) auto
  finally show ?case by simp
qed

lemma login_bytes_line:
  assumes "LF \<notin> set line" and "length line \<le> 510" and "length (login_buf st) = 513" and "login_pos st = 0"
  shows "login_bytes rl st None (line @ crlf) =
    and_then (login_scan rl (length line + 1) 1
        (st\<lparr>login_buf := line @ CR # NUL # drop (length line + 2) (login_buf st), login_pos := length line + 1\<rparr>))
      (\<lambda>(st, out). Inr (st\<lparr>login_pos := 0\<rparr>, out))"
proof -
  let ?n = "length line + 1"
  have "login_bytes rl st None ((line @ [CR]) @ [LF]) =
    login_bytes rl (st\<lparr>login_buf := (line @ [CR]) @ drop ?n (login_buf st), login_pos := ?n\<rparr>) (Some CR) [LF]"
    using assms by (subst login_bytes_prefix [where acc = "[]" and old = "take ?n (login_buf st)" and junk = "drop ?n (login_buf st)"]) auto
  moreover have "drop ?n (login_buf st) = login_buf st ! ?n # drop (Suc ?n) (login_buf st)"
    using assms(2,3) by (intro Cons_nth_drop_Suc [symmetric]) simp
  moreover have "arr_write (line @ CR # x # rest) (1 + int (length line)) c = Inr (line @ CR # c # rest)" for x c rest
    by (simp add: arr_write_def list_update_append nat_add_distrib)
  ultimately show ?thesis by (cases st) simp
qed

text \<open>A line of the server whose code begins with 0 or 4: the code is looked at once, with the line in the buffer.\<close>

lemma login_bytes_reply:
  assumes "login_ok st" and "login_pos st = 0" and "srv \<noteq> []" and "hd srv \<noteq> CHR ''I''" and "CHR '' '' \<notin> set srv"
    and "quiet (d # rest)" and "LF \<notin> set (srv @ d # rest)" and "length srv + length rest \<le> 500" and "rl \<le> 512"
  defines "line \<equiv> '':'' @ srv @ '' '' @ d # rest"
  shows "login_bytes rl st None (line @ crlf) =
    and_then (login_word rl (length srv + 2)
        (st\<lparr>login_buf := line @ CR # NUL # drop (length line + 2) (login_buf st), login_pos := length line + 1\<rparr>))
      (\<lambda>(st, out). Inr (st\<lparr>login_pos := 0\<rparr>, out))"
proof -
  let ?buf = "line @ CR # NUL # drop (length line + 2) (login_buf st)"
  let ?st = "st\<lparr>login_buf := ?buf, login_pos := length line + 1\<rparr>"
  let ?p = "length srv + 2"
  have len: "length line = length srv + length rest + 3" by (simp add: line_def)
  have b: "length (login_buf st) = 513" using assms(1) by (simp add: login_ok_def)
  have st: "login_ok ?st" using assms(1,8) len by (auto simp: login_ok_def)
  obtain s0 srv' where srv: "srv = s0 # srv'" "s0 \<noteq> CHR ''I''" using assms(3,4) by (cases srv) auto
  have second: "?buf ! 1 \<noteq> CHR ''I''" using srv by (simp add: line_def)
  have tail: "?buf ! (?p + k) = (d # rest @ [CR]) ! k" if "k \<le> Suc (length rest)" for k
    using that by (simp add: line_def nth_append nth_Cons split: nat.splits)
  have head: "?buf ! k \<noteq> CHR '' ''" if "k < length srv + 1" for k
    using that assms(5) by (cases k) (auto simp: line_def nth_append dest: nth_mem)
  have space: "?buf ! (length srv + 1) = CHR '' ''" by (simp add: line_def nth_append)
  have scan: "login_scan rl (length line + 1) 1 ?st = and_then (login_word rl ?p ?st)
    (\<lambda>(st, out). and_then (login_scan rl (length line + 1) (?p + 1) st) (\<lambda>(st, out'). Inr (st, out @ out')))"
    using head space second b len assms(8)
    by (intro login_scan_word) auto
  have "login_scan rl (length line + 1) (?p + 1) st' = Inr (st', [])" if buf: "login_buf st' = ?buf" for st'
  proof (rule login_scan_quiet)
    show "\<forall>j. ?p + 1 \<le> j \<and> j < length line + 1 \<and> login_buf st' ! (j - 1) = CHR '' '' \<longrightarrow>
      login_buf st' ! j \<noteq> CHR ''0'' \<and> login_buf st' ! j \<noteq> CHR ''4''"
    proof (intro allI impI)
      fix j assume j: "?p + 1 \<le> j \<and> j < length line + 1 \<and> login_buf st' ! (j - 1) = CHR '' ''"
      define k where "k = j - ?p - 1"
      have "?p + 1 \<le> j" using j by blast
      then have k: "j = ?p + Suc k" unfolding k_def by linarith
      have "quiet ((d # rest) @ [CR])" using assms(6) by (rule quiet_snoc) auto
      then show "login_buf st' ! j \<noteq> CHR ''0'' \<and> login_buf st' ! j \<noteq> CHR ''4''"
        using j k tail [of k] tail [of "Suc k"] buf len by (auto dest!: quiet_nth [of _ k])
    qed
  qed (use b len assms(8) buf second in auto)
  moreover from login_word_ok [OF st, of ?p rl] assms(8,9) obtain st' out where
    "login_word rl ?p ?st = Inr (st', out)" "login_buf st' = ?buf" by auto
  ultimately have "login_scan rl (length line + 1) 1 ?st = login_word rl ?p ?st" using scan by auto
  moreover have "LF \<notin> set line" "length line \<le> 510" using assms(7,8) len by (auto simp: line_def)
  ultimately show ?thesis using login_bytes_line [OF _ _ b assms(2), of line rl] by simp
qed

lemma login_word_taken:
  assumes "buf = CHR '':'' # srv @ '' 433'' @ taken" and "length nick < 20" and "length srv + 4 < rl" and "c_str nick"
  shows "login_word rl (length srv + 2) \<lparr>login_buf = buf, login_pos = pos, login_nick = nick @ NUL # x # rest,
      login_nicklen = length nick, login_success = ok\<rparr> =
    Inr (\<lparr>login_buf = buf, login_pos = pos, login_nick = nick @ CHR ''_'' # NUL # rest,
      login_nicklen = length nick + 1, login_success = ok\<rparr>, [net_raw (''NICK '' @ nick @ ''_'' @ crlf)])"
proof -
  have "arr_read buf (int (length srv + 2)) = Inr (CHR ''4'')" "arr_read buf (int (length srv + 2 + 2)) = Inr (CHR ''3'')"
    unfolding assms(1) by (subst arr_read_nat; simp add: nth_append)+
  moreover have "arr_write (nick @ NUL # x # rest) (int (length nick)) (CHR ''_'') = Inr (nick @ CHR ''_'' # x # rest)"
    by simp
  moreover have "arr_write (nick @ CHR ''_'' # x # rest) (int (length nick + 1)) NUL = Inr (nick @ CHR ''_'' # NUL # rest)"
    by (simp add: arr_write_def list_update_append nat_add_distrib)
  moreover have "c_string_at (nick @ CHR ''_'' # NUL # rest) 0 = Inr (nick @ ''_'')"
    using c_string_at_0 [of "nick @ ''_''" rest] assms(4) by simp
  ultimately show ?thesis using assms(2,3) by (simp add: login_word_def)
qed

lemma login_word_welcome:
  assumes "login_buf st = CHR '':'' # srv @ '' 001'' @ welcome"
  shows "login_word rl (length srv + 2) st = Inr (st\<lparr>login_success := True\<rparr>, [])"
proof -
  have "arr_read (login_buf st) (int (length srv + 2)) = Inr (CHR ''0'')"
    unfolding assms by (subst arr_read_nat; simp add: nth_append)
  then show ?thesis by (simp add: login_word_def)
qed

lemma quiet_code: "quiet s \<Longrightarrow> d \<noteq> CHR '' '' \<Longrightarrow> quiet (d # s)"
  by (cases s) auto

text \<open>The line of the welcome, and a login that is answered with it at once.\<close>

lemma login_bytes_welcome:
  assumes "login_ok st" and "login_pos st = 0" and "srv \<noteq> []" and "hd srv \<noteq> CHR ''I''" and "CHR '' '' \<notin> set srv" and "LF \<notin> set srv"
    and "quiet welcome" and "LF \<notin> set welcome" and "length srv + length welcome \<le> 400"
  defines "line \<equiv> '':'' @ srv @ '' 001'' @ welcome"
  shows "\<exists>st'. login_bytes (length (line @ crlf)) st None (line @ crlf) = Inr (st', []) \<and> login_success st'"
proof -
  let ?st = "st\<lparr>login_buf := line @ CR # NUL # drop (length line + 2) (login_buf st), login_pos := length line + 1\<rparr>"
  have "login_bytes (length (line @ crlf)) st None (line @ crlf) =
      and_then (login_word (length (line @ crlf)) (length srv + 2) ?st) (\<lambda>(st, out). Inr (st\<lparr>login_pos := 0\<rparr>, out))"
    using login_bytes_reply [OF assms(1-5), of "CHR ''0''" "''01'' @ welcome" "length (line @ crlf)"] assms(6-9) quiet_code
    by (simp add: line_def)
  also have "login_word (length (line @ crlf)) (length srv + 2) ?st = Inr (?st\<lparr>login_success := True\<rparr>, [])"
    by (rule login_word_welcome) (simp add: line_def)
  finally show ?thesis by simp
qed

lemma irc_login_welcomed:
  assumes "\<forall>m. length (fresh m) = m" and "c_str nick_t" and "length buf = 513"
    and "srv \<noteq> []" and "hd srv \<noteq> CHR ''I''" and "CHR '' '' \<notin> set srv" and "LF \<notin> set srv"
    and "quiet welcome" and "LF \<notin> set welcome" and "length srv + length welcome \<le> 400"
  shows "irc_login True buf fresh user realname nick_t password (('':'' @ srv @ '' 001'' @ welcome @ crlf) # reads) =
    Inr (login_hello user realname nick_t password, Some True)"
proof -
  let ?line = "'':'' @ srv @ '' 001'' @ welcome"
  obtain rest where ok: "login_ok (login_start buf (nick_t @ NUL # rest) (length nick_t))" and
    run: "irc_login True buf fresh user realname nick_t password ((?line @ crlf) # reads) =
      and_then (login_reads (login_start buf (nick_t @ NUL # rest) (length nick_t)) ((?line @ crlf) # reads))
        (\<lambda>(out, r). Inr (login_hello user realname nick_t password @ out, r))"
    using irc_login_run [OF assms(1-3), of user realname password "(?line @ crlf) # reads"] by blast
  obtain st' where "login_bytes (length (?line @ crlf)) (login_start buf (nick_t @ NUL # rest) (length nick_t)) None (?line @ crlf) =
      Inr (st', [])" "login_success st'"
    using login_bytes_welcome [OF ok _ assms(4-10)] by (auto simp: login_start_def)
  then show ?thesis using run by simp
qed

text \<open>A read of at most two bytes ends the login.\<close>

lemma irc_login_returns:
  assumes "\<forall>m. length (fresh m) = m" and "c_str nick_t" and "length buf = 513" and "\<forall>bs \<in> set reads. length bs \<le> 512"
    and "\<exists>bs \<in> set reads. length bs \<le> 2"
  shows "\<exists>out r. irc_login malloc_ok buf fresh user realname nick_t password reads = Inr (out, Some r)"
proof (cases malloc_ok)
  case True
  from irc_login_run [OF assms(1-3), of user realname password reads] obtain rest where
    st: "login_ok (login_start buf (nick_t @ NUL # rest) (length nick_t))" and
    run: "irc_login True buf fresh user realname nick_t password reads =
      and_then (login_reads (login_start buf (nick_t @ NUL # rest) (length nick_t)) reads)
        (\<lambda>(out, r). Inr (login_hello user realname nick_t password @ out, r))" by blast
  from login_reads_ok [OF st assms(4)] assms(5) run True show ?thesis by auto
qed (auto simp: irc_login_def Let_def)

section \<open>Properties\<close>

text \<open>
  C16: \<open>irc_login\<close> never leaves its line buffer or the nick it allocated, whatever the server sends in
  reads of at most 512 bytes, and it returns once a read brings at most two bytes (an error or a closed
  connection). What it sends begins with PASS, USER and NICK.
\<close>

theorem irc_login_ends:
  assumes "\<forall>m. length (fresh m) = m" and "c_str nick_t" and "length buf = 513" and "\<forall>bs \<in> set reads. length bs \<le> 512"
  shows "\<exists>out r. irc_login malloc_ok buf fresh user realname nick_t password reads = Inr (out, r) \<and>
    (malloc_ok \<longrightarrow> (\<exists>more. out = login_hello user realname nick_t password @ more)) \<and>
    ((\<exists>bs \<in> set reads. length bs \<le> 2) \<longrightarrow> r \<noteq> None)"
proof (cases malloc_ok)
  case True
  from irc_login_run [OF assms(1-3), of user realname password reads] obtain rest where
    st: "login_ok (login_start buf (nick_t @ NUL # rest) (length nick_t))" and
    run: "irc_login True buf fresh user realname nick_t password reads =
      and_then (login_reads (login_start buf (nick_t @ NUL # rest) (length nick_t)) reads)
        (\<lambda>(out, r). Inr (login_hello user realname nick_t password @ out, r))" by blast
  from login_reads_ok [OF st assms(4)] run True show ?thesis by auto
qed (auto simp: irc_login_def Let_def)

theorem irc_login_ends_witness:
  "\<exists>out r. irc_login True (replicate 513 NUL) (\<lambda>m. replicate m NUL) ''u'' ''n'' ''bot'' None [[]] = Inr (out, r) \<and>
    (True \<longrightarrow> (\<exists>more. out = login_hello ''u'' ''n'' ''bot'' None @ more)) \<and>
    ((\<exists>bs \<in> set [[] :: string]. length bs \<le> 2) \<longrightarrow> r \<noteq> None)"
  by (rule irc_login_ends) (simp_all add: c_str_def)

text \<open>
  C23: When the nick is taken (code 433) and shorter than 20, \<open>irc_login\<close> asks for it again with an underscore and
  waits; the welcome (code 001) then ends it with success. Both lines come from a server whose name
  does not begin with a capital I, and no later word of them begins with 0 or 4.
\<close>

theorem irc_login_replies:
  assumes "\<forall>m. length (fresh m) = m" and "c_str nick_t" and "length buf = 513" and "length nick_t < 20"
    and "srv \<noteq> []" and "hd srv \<noteq> CHR ''I''" and "CHR '' '' \<notin> set srv" and "LF \<notin> set srv"
    and "quiet taken" and "LF \<notin> set taken" and "length srv + length taken \<le> 400"
    and "quiet welcome" and "LF \<notin> set welcome" and "length srv + length welcome \<le> 400"
  shows "irc_login True buf fresh user realname nick_t password
      (('':'' @ srv @ '' 433'' @ taken @ crlf) # ('':'' @ srv @ '' 001'' @ welcome @ crlf) # reads) =
    Inr (login_hello user realname nick_t password @ [net_raw (''NICK '' @ nick_t @ ''_'' @ crlf)], Some True)"
proof -
  let ?first = "'':'' @ srv @ '' '' @ CHR ''4'' # (''33'' @ taken)"
  let ?second = "'':'' @ srv @ '' '' @ CHR ''0'' # (''01'' @ welcome)"
  let ?n = "length nick_t"
  let ?reads = "(?first @ crlf) # (?second @ crlf) # reads"
  from irc_login_run [OF assms(1-3), of user realname password ?reads] obtain rest where
    rest: "length rest = max 20 ?n - ?n" and
    ok: "login_ok (login_start buf (nick_t @ NUL # rest) ?n)" and
    run: "irc_login True buf fresh user realname nick_t password ?reads =
      and_then (login_reads (login_start buf (nick_t @ NUL # rest) ?n) ?reads)
        (\<lambda>(out, r). Inr (login_hello user realname nick_t password @ out, r))" by blast
  from rest assms(4) obtain x rest' where rest': "rest = x # rest'" by (cases rest) auto
  define buf1 where "buf1 = ?first @ CR # NUL # drop (length ?first + 2) buf"
  define st1 where "st1 = login_start buf1 (nick_t @ CHR ''_'' # NUL # rest') (?n + 1)"
  have b1: "login_bytes (length (?first @ crlf)) (login_start buf (nick_t @ NUL # rest) ?n) None (?first @ crlf) =
      Inr (st1, [net_raw (''NICK '' @ nick_t @ ''_'' @ crlf)])"
  proof -
    have "login_bytes (length (?first @ crlf)) (login_start buf (nick_t @ NUL # rest) ?n) None (?first @ crlf) =
      and_then (login_word (length (?first @ crlf)) (length srv + 2) \<lparr>login_buf = buf1, login_pos = length ?first + 1,
          login_nick = nick_t @ NUL # x # rest', login_nicklen = ?n, login_success = False\<rparr>)
        (\<lambda>(st, out). Inr (st\<lparr>login_pos := 0\<rparr>, out))"
      using assms(4-11) ok rest'
      by (subst login_bytes_reply) (auto simp: login_start_def buf1_def intro!: quiet_code)
    also have "login_word (length (?first @ crlf)) (length srv + 2) \<lparr>login_buf = buf1, login_pos = length ?first + 1,
          login_nick = nick_t @ NUL # x # rest', login_nicklen = ?n, login_success = False\<rparr> =
      Inr (\<lparr>login_buf = buf1, login_pos = length ?first + 1, login_nick = nick_t @ CHR ''_'' # NUL # rest',
          login_nicklen = ?n + 1, login_success = False\<rparr>, [net_raw (''NICK '' @ nick_t @ ''_'' @ crlf)])"
      using assms(2,4) by (intro login_word_taken) (simp_all add: buf1_def)
    finally show ?thesis by (simp add: st1_def login_start_def)
  qed
  have ok1: "login_ok st1" using login_bytes_ok [OF ok, of "length (?first @ crlf)" None "?first @ crlf"] b1 assms(11) by auto
  obtain st2 where b2: "login_bytes (length (?second @ crlf)) st1 None (?second @ crlf) = Inr (st2, [])" "login_success st2"
    using login_bytes_welcome [OF ok1 _ assms(5-8,12-14)] by (auto simp: st1_def login_start_def)
  show ?thesis using run b1 b2 by (simp add: st1_def login_start_def)
qed

theorem irc_login_replies_witness:
  "irc_login True (replicate 513 NUL) (\<lambda>m. replicate m NUL) ''u'' ''n'' ''bot'' None
      (('':'' @ ''srv'' @ '' 433'' @ '' * bot :in use'' @ crlf) # ('':'' @ ''srv'' @ '' 001'' @ '' bot_ :hi'' @ crlf) # []) =
    Inr (login_hello ''u'' ''n'' ''bot'' None @ [net_raw (''NICK '' @ ''bot'' @ ''_'' @ crlf)], Some True)"
  by (rule irc_login_replies) (simp_all add: c_str_def)

end
