(* ===== verification/Crc8.thy ===== *)
theory Crc8
  imports Bot_Prelude
begin

text \<open>
  The table-driven CRC of \<^verbatim>\<open>src/hashmap.c\<close> that picks the bucket of a key, on 8-bit
  words: \<open>crc8_init\<close> builds the table, \<open>crc8_block\<close> runs it over a byte string. The reference
  definition is the bit-serial shift register over the message bits; the two are equal. The
  division step is linear and injective, so the table is a permutation.
\<close>

unbundle bit_operations_syntax

section \<open>Definitions of the source\<close>

definition CRC8_TOPBIT :: "8 word" where
  "CRC8_TOPBIT = push_bit 7 1"

definition CRC8_POLYNOMIAL :: "8 word" where
  "CRC8_POLYNOMIAL = 0x9b"

text \<open>One round of the inner loop of \<open>crc8_init\<close>; the shift is truncated to 8 bits.\<close>

definition crc8_round :: "8 word \<Rightarrow> 8 word" where
  "crc8_round remainder =
     (if remainder AND CRC8_TOPBIT \<noteq> 0 then push_bit 1 remainder XOR CRC8_POLYNOMIAL
      else push_bit 1 remainder)"

fun crc8_bits :: "nat \<Rightarrow> 8 word \<Rightarrow> 8 word" where
  "crc8_bits 0 remainder = remainder"
| "crc8_bits (Suc n) remainder = crc8_bits n (crc8_round remainder)"

definition crc8_init :: "8 word list" where
  "crc8_init = map (\<lambda>dividend. crc8_bits 8 (word_of_nat dividend)) [0..<256]"

text \<open>
  The loop of \<open>crc8_block\<close>. \<open>remainder << 8\<close> is computed in \<open>int\<close> and truncated to 8 bits by the
  assignment; the caller's result is widened to \<open>unsigned short\<close>.
\<close>

fun crc8_loop :: "8 word list \<Rightarrow> 8 word list \<Rightarrow> 8 word \<Rightarrow> 8 word" where
  "crc8_loop table8 [] remainder = remainder"
| "crc8_loop table8 (b # bytes) remainder =
     (let data = b XOR remainder
      in crc8_loop table8 bytes (table8 ! unat data XOR push_bit 8 remainder))"

definition crc8_block :: "8 word list \<Rightarrow> 16 word" where
  "crc8_block bytes = ucast (crc8_loop crc8_init bytes 0) AND 0xff"

definition byte_of :: "char \<Rightarrow> 8 word" where
  "byte_of c = word_of_nat (of_char c)"

text \<open>The bucket of a key, as the map operations compute it: \<open>crc8_block(key, strlen(key))\<close>.\<close>

definition crc8_key :: "string \<Rightarrow> nat" where
  "crc8_key key = unat (crc8_block (map byte_of key))"

section \<open>The division step\<close>

declare push_bit_Suc [simp del]

lemma topbit_iff: "(r :: 8 word) AND CRC8_TOPBIT \<noteq> 0 \<longleftrightarrow> bit r 7"
  by (simp add: CRC8_TOPBIT_def bit_iff_and_push_bit_not_eq_0 del: push_bit_of_1)

lemma crc8_round_alt:
  "crc8_round r = (if bit r 7 then push_bit 1 r XOR CRC8_POLYNOMIAL else push_bit 1 r)"
  by (simp only: crc8_round_def topbit_iff)

lemma crc8_round_xor: "crc8_round (x XOR y) = crc8_round x XOR crc8_round y"
  by (auto simp: crc8_round_alt bit_xor_iff push_bit_xor xor.assoc xor.commute xor.left_commute)

lemma crc8_bits_xor: "crc8_bits n (x XOR y) = crc8_bits n x XOR crc8_bits n y"
  by (induction n arbitrary: x y) (simp_all add: crc8_round_xor)

lemma crc8_round_eq_0: "crc8_round r = 0 \<longleftrightarrow> r = 0"
proof
  assume z: "crc8_round r = 0"
  have "bit (crc8_round r) 0 = bit r 7"
    by (simp add: crc8_round_alt bit_simps CRC8_POLYNOMIAL_def)
  with z have top: "\<not> bit r 7" by simp
  with z have sh: "push_bit 1 r = 0" by (simp add: crc8_round_alt)
  show "r = 0"
  proof (rule bit_word_eqI)
    fix n assume "n < LENGTH(8)"
    then consider "n = 7" | "Suc n < 8" by fastforce
    then show "bit r n = bit 0 n"
    proof cases
      case 1 with top show ?thesis by simp
    next
      case 2
      from sh have "\<not> bit (push_bit 1 r) (Suc n)" by simp
      with 2 show ?thesis by (simp add: bit_simps)
    qed
  qed
qed (simp add: crc8_round_alt)

lemma crc8_bits_eq_0: "crc8_bits n r = 0 \<longleftrightarrow> r = 0"
  by (induction n arbitrary: r) (simp_all add: crc8_round_eq_0)

lemma xor_eq_0_iff: "(x :: 'a::len word) XOR y = 0 \<longleftrightarrow> x = y"
proof
  assume "x XOR y = 0"
  then have "(x XOR y) XOR y = 0 XOR y" by simp
  then show "x = y" by (simp add: xor.assoc)
qed simp

lemma xor_left_cancel: "(b :: 'a::len word) XOR x = b XOR y \<longleftrightarrow> x = y"
proof
  assume "b XOR x = b XOR y"
  then have "b XOR (b XOR x) = b XOR (b XOR y)" by simp
  then show "x = y" by (simp add: xor.assoc [symmetric])
qed simp

lemma crc8_bits_inj: "crc8_bits n x = crc8_bits n y \<longleftrightarrow> x = y"
proof
  assume "crc8_bits n x = crc8_bits n y"
  then have "crc8_bits n (x XOR y) = 0" by (simp add: crc8_bits_xor)
  then show "x = y" by (simp add: crc8_bits_eq_0 xor_eq_0_iff)
qed simp

section \<open>The table loop\<close>

lemma crc8_init_nth: "crc8_init ! unat (d :: 8 word) = crc8_bits 8 d"
proof -
  have "unat d < 256" using unsigned_less [of d] by simp
  then show ?thesis by (simp add: crc8_init_def)
qed

lemma crc8_loop_Cons:
  "crc8_loop crc8_init (b # bs) r = crc8_loop crc8_init bs (crc8_bits 8 (b XOR r))"
proof -
  have "push_bit 8 r = (0 :: 8 word)"
    by (rule bit_word_eqI) (simp add: bit_simps)
  then show ?thesis by (simp add: crc8_init_nth Let_def)
qed

declare crc8_loop.simps(2) [simp del]

lemma crc8_loop_append:
  "crc8_loop t (bs @ cs) r = crc8_loop t cs (crc8_loop t bs r)"
  by (induction bs arbitrary: r) (simp_all add: crc8_loop.simps(2) Let_def)

lemma crc8_loop_inj_start:
  "crc8_loop crc8_init bs r = crc8_loop crc8_init bs r' \<longleftrightarrow> r = r'"
proof (induction bs arbitrary: r r')
  case (Cons b bs)
  have "b XOR r = b XOR r' \<longleftrightarrow> r = r'" by (rule xor_left_cancel)
  with Cons show ?case by (simp add: crc8_loop_Cons crc8_bits_inj)
qed simp

lemma unat_crc8_block: "unat (crc8_block bytes) = unat (crc8_loop crc8_init bytes 0)"
proof -
  have "(ucast (w :: 8 word) :: 16 word) AND mask 8 = ucast w" for w
    by (rule bit_word_eqI) (auto simp: bit_simps dest: bit_imp_le_length)
  moreover have "(0xff :: 16 word) = mask 8" by (simp add: mask_eq_exp_minus_1)
  ultimately have "(ucast (w :: 8 word) :: 16 word) AND 0xff = ucast w" for w by simp
  then show ?thesis
    using unsigned_less [of "crc8_loop crc8_init bytes 0", where ?'a = nat]
    by (simp add: crc8_block_def unsigned_ucast_eq take_bit_nat_eq_self)
qed

text \<open>Every bucket index is in the range of the 256 buckets.\<close>

lemma crc8_key_less [simp]: "crc8_key key < 256"
  using unsigned_less [of "crc8_loop crc8_init (map byte_of key) 0"]
  by (simp add: crc8_key_def unat_crc8_block)

lemma crc8_block_one_byte:
  assumes "b \<noteq> c"
  shows "crc8_block (pre @ b # post) \<noteq> crc8_block (pre @ c # post)"
proof
  assume "crc8_block (pre @ b # post) = crc8_block (pre @ c # post)"
  then have "crc8_loop crc8_init (pre @ b # post) 0 = crc8_loop crc8_init (pre @ c # post) 0"
    by (metis unat_crc8_block unsigned_word_eqI)
  then have "b XOR crc8_loop crc8_init pre 0 = c XOR crc8_loop crc8_init pre 0"
    by (simp add: crc8_loop_append crc8_loop_Cons crc8_loop_inj_start crc8_bits_inj)
  with assms show False by (simp add: xor.commute [of _ "crc8_loop crc8_init pre 0"] xor_left_cancel)
qed

section \<open>The reference: a bit-serial shift register\<close>

text \<open>
  The register takes the message bit by bit, the most significant bit of each byte first: the
  bit is added to the top of the register, which is then shifted and reduced by the polynomial.
\<close>

definition serial_step :: "bool \<Rightarrow> 8 word \<Rightarrow> 8 word" where
  "serial_step b r =
     (let top = (bit r 7 \<noteq> b) in push_bit 1 r XOR (if top then CRC8_POLYNOMIAL else 0))"

definition bits_of_byte :: "8 word \<Rightarrow> bool list" where
  "bits_of_byte d = map (\<lambda>i. bit d (7 - i)) [0..<8]"

definition crc8_serial :: "8 word list \<Rightarrow> 8 word" where
  "crc8_serial bytes = fold serial_step (concat (map bits_of_byte bytes)) 0"

lemma serial_step_round: "serial_step b r = crc8_round (r XOR push_bit 7 (of_bool b))"
proof -
  have "push_bit 1 (push_bit 7 (of_bool b)) = (0 :: 8 word)"
    by (rule bit_word_eqI) (auto simp: bit_simps)
  then have sh: "push_bit 1 (r XOR push_bit 7 (of_bool b)) = push_bit 1 r"
    by (simp add: push_bit_xor)
  have top: "bit (r XOR push_bit 7 (of_bool b)) 7 = (bit r 7 \<noteq> b)"
    by (auto simp: bit_simps)
  show ?thesis unfolding crc8_round_alt sh top by (simp add: serial_step_def Let_def)
qed

lemma crc8_round_low: "\<not> bit r 7 \<Longrightarrow> crc8_round r = push_bit 1 r"
  by (simp add: crc8_round_alt)

lemma crc8_bits_Suc_end: "crc8_bits (Suc n) r = crc8_round (crc8_bits n r)"
  by (induction n arbitrary: r) simp_all

text \<open>A message bit that is not yet at the top only moves up.\<close>

lemma crc8_bits_shift:
  "k \<le> 7 \<Longrightarrow> crc8_bits k (push_bit (7 - k) (of_bool b)) = push_bit 7 (of_bool b)"
proof (induction k)
  case 0
  then show ?case by simp
next
  case (Suc k)
  have low: "\<not> bit (push_bit (7 - Suc k) (of_bool b) :: 8 word) 7"
    using Suc.prems by (auto simp: bit_push_bit_iff bit_of_bool_iff)
  have "7 - k = 1 + (7 - Suc k)" using Suc.prems by simp
  then have "push_bit 1 (push_bit (7 - Suc k) (of_bool b)) = (push_bit (7 - k) (of_bool b) :: 8 word)"
    by (simp only: push_bit_push_bit)
  with crc8_round_low [OF low]
  have "crc8_round (push_bit (7 - Suc k) (of_bool b)) = push_bit (7 - k) (of_bool b)"
    by (rule trans)
  with Suc show ?case by simp
qed

definition high_bits :: "nat \<Rightarrow> 8 word \<Rightarrow> 8 word" where
  "high_bits n d = push_bit (8 - n) (drop_bit (8 - n) d)"

lemma bit_high_bits: "bit (high_bits n d) i \<longleftrightarrow> 8 - n \<le> i \<and> bit d i"
  by (auto simp: high_bits_def bit_simps dest: bit_imp_le_length)

lemma high_bits_Suc:
  "n < 8 \<Longrightarrow> high_bits (Suc n) d = high_bits n d XOR push_bit (7 - n) (of_bool (bit d (7 - n)))"
proof (rule bit_word_eqI)
  fix i assume "n < 8" and i: "i < LENGTH(8)"
  then show "bit (high_bits (Suc n) d) i
    = bit (high_bits n d XOR push_bit (7 - n) (of_bool (bit d (7 - n)))) i"
    by (cases "i = 7 - n") (auto simp: bit_high_bits bit_xor_iff bit_push_bit_iff bit_of_bool_iff)
qed

lemma serial_prefix:
  "n \<le> 8 \<Longrightarrow>
   fold serial_step (map (\<lambda>i. bit d (7 - i)) [0..<n]) r = crc8_bits n (r XOR high_bits n d)"
proof (induction n)
  case 0
  have "high_bits 0 d = 0"
    by (rule bit_word_eqI) (simp add: bit_high_bits)
  then show ?case by simp
next
  case (Suc n)
  let ?b = "push_bit (7 - n) (of_bool (bit d (7 - n))) :: 8 word"
  have "fold serial_step (map (\<lambda>i. bit d (7 - i)) [0..<Suc n]) r
      = serial_step (bit d (7 - n)) (crc8_bits n (r XOR high_bits n d))"
    using Suc by simp
  also have "\<dots> = crc8_round (crc8_bits n (r XOR high_bits n d) XOR crc8_bits n ?b)"
    using Suc.prems by (simp only: serial_step_round crc8_bits_shift [of n])
  also have "\<dots> = crc8_bits (Suc n) ((r XOR high_bits n d) XOR ?b)"
    by (simp only: crc8_bits_xor [symmetric] crc8_bits_Suc_end)
  also have "(r XOR high_bits n d) XOR ?b = r XOR high_bits (Suc n) d"
    using Suc.prems by (simp add: high_bits_Suc xor.assoc)
  finally show ?case .
qed

lemma serial_byte: "fold serial_step (bits_of_byte d) r = crc8_bits 8 (d XOR r)"
proof -
  have "high_bits 8 d = d" by (simp add: high_bits_def)
  then show ?thesis
    using serial_prefix [of 8 d r] by (simp add: bits_of_byte_def xor.commute del: upt.simps)
qed

lemma crc8_loop_serial:
  "crc8_loop crc8_init bytes r = fold serial_step (concat (map bits_of_byte bytes)) r"
  by (induction bytes arbitrary: r) (simp_all add: crc8_loop_Cons serial_byte)

text \<open>
  C40: \<^verbatim>\<open>crc8_block\<close> of \<^verbatim>\<open>src/hashmap.c\<close>, the lookup-table loop with its 8-bit truncations, computes
  for every byte string the remainder that the bit-serial CRC register of polynomial 0x9b
  computes, and its result is always a valid index of the 256 buckets.
\<close>

theorem crc8_block_is_serial_crc:
  "unat (crc8_block bytes) = unat (crc8_serial bytes) \<and> unat (crc8_block bytes) < 256"
proof
  show eq: "unat (crc8_block bytes) = unat (crc8_serial bytes)"
    by (simp add: unat_crc8_block crc8_serial_def crc8_loop_serial)
  show "unat (crc8_block bytes) < 256"
    using unsigned_less [of "crc8_serial bytes", where ?'a = nat] by (simp add: eq)
qed

end
