(* ===== verification/Hashmap.thy ===== *)
theory Hashmap
  imports Crc8
begin

text \<open>
  The chained hash map of \<^verbatim>\<open>src/hashmap.c\<close> and \<^verbatim>\<open>include/hashmap.h\<close>. A bucket keeps its length
  and capacity in \<open>unsigned short\<close>s and an array of cells; a cell that was allocated and never
  written is \<open>None\<close>. Reads and writes of cells are bounds-checked, a key pointer is \<open>None\<close> where
  \<open>strdup\<close> returned NULL, and the outcome of each allocation is an argument.
  \<open>hashmap_vals\<close> abstracts a map to the list of values it holds for each key, oldest first; the
  operations are shown to implement \<open>get\<close> as its head, \<open>put\<close> as appending and \<open>remove\<close> as dropping
  the head. The locale \<open>kv_store\<close> states these laws for the clients of the map.
\<close>

section \<open>Data\<close>

record hashmap_entry =
  ent_key :: "string option"
  ent_value :: int

record hashmap_entry_list =
  vlen :: "16 word"
  vroom :: "16 word"
  cells :: "hashmap_entry option list"

record hashmap =
  num_entry :: "64 word"
  bucketsize :: "64 word"
  buckets :: "hashmap_entry_list list"

section \<open>Operations\<close>

definition hashmap_new :: "bool \<Rightarrow> hashmap option" where
  "hashmap_new calloc_ok =
     (if \<not> calloc_ok then None
      else Some \<lparr>num_entry = 0, bucketsize = 256,
                  buckets = replicate 256 \<lparr>vlen = 0, vroom = 0, cells = []\<rparr>\<rparr>)"

definition set_bucket :: "hashmap \<Rightarrow> nat \<Rightarrow> hashmap_entry_list \<Rightarrow> hashmap" where
  "set_bucket m hash hel = m\<lparr>buckets := (buckets m)[hash := hel]\<rparr>"

text \<open>\<open>he = &hel->values[i]\<close>, read.\<close>

definition entry_at :: "hashmap_entry_list \<Rightarrow> int \<Rightarrow> fault + hashmap_entry" where
  "entry_at hel i =
     and_then (arr_read (cells hel) i)
       (\<lambda>c. case c of None \<Rightarrow> Inl Uninitialised | Some he \<Rightarrow> Inr he)"

text \<open>\<open>realloc\<close> keeps the old cells that fit; the rest of the new block is not initialised.\<close>

definition realloc_cells :: "hashmap_entry option list \<Rightarrow> nat \<Rightarrow> hashmap_entry option list" where
  "realloc_cells cs n = take n cs @ replicate (n - length cs) None"

text \<open>The end of \<open>hashmap_put\<close>: write the entry at index \<open>vlen-1\<close> and count it.\<close>

definition hashmap_append ::
    "bool \<Rightarrow> hashmap \<Rightarrow> nat \<Rightarrow> hashmap_entry_list \<Rightarrow> string \<Rightarrow> int \<Rightarrow> fault + hashmap" where
  "hashmap_append strdup_ok m hash hel key val =
     and_then (arr_write (cells hel) (int (unat (vlen hel)) - 1)
                 (Some \<lparr>ent_key = (if strdup_ok then Some key else None), ent_value = val\<rparr>))
       (\<lambda>cs. let m1 = set_bucket m hash (hel\<lparr>cells := cs\<rparr>)
             in Inr (m1\<lparr>num_entry := num_entry m1 + 1\<rparr>))"

definition hashmap_put ::
    "bool \<Rightarrow> bool \<Rightarrow> hashmap \<Rightarrow> string \<Rightarrow> int \<Rightarrow> fault + hashmap" where
  "hashmap_put realloc_ok strdup_ok m key val =
     (let hash = crc8_key key in
      and_then (arr_read (buckets m) (int hash))
        (\<lambda>hel.
           let hel = hel\<lparr>vlen := vlen hel + 1\<rparr> in
           if vroom hel < vlen hel then
             (let hel = hel\<lparr>vroom := (if vroom hel = 0 then 4 else vroom hel * 2)\<rparr> in
              if \<not> realloc_ok then Inr (set_bucket m hash hel)
              else hashmap_append strdup_ok m hash
                     (hel\<lparr>cells := realloc_cells (cells hel) (unat (vroom hel))\<rparr>) key val)
           else hashmap_append strdup_ok m hash hel key val))"

text \<open>The search loop shared by \<open>hashmap_get\<close> and \<open>hashmap_remove\<close>: the index of the first match.\<close>

function hashmap_find :: "hashmap_entry_list \<Rightarrow> string \<Rightarrow> nat \<Rightarrow> fault + nat option" where
  "hashmap_find hel key i =
     (if i < unat (vlen hel) then
        and_then (entry_at hel (int i))
          (\<lambda>he. case ent_key he of
                  None \<Rightarrow> Inl Null_Pointer
                | Some k \<Rightarrow> if key = k then Inr (Some i) else hashmap_find hel key (Suc i))
      else Inr None)"
  by pat_completeness auto
termination
  by (relation "measure (\<lambda>(hel, key, i). unat (vlen hel) - i)") auto

declare hashmap_find.simps [simp del]

definition hashmap_get :: "hashmap \<Rightarrow> string \<Rightarrow> fault + int" where
  "hashmap_get m key =
     and_then (arr_read (buckets m) (int (crc8_key key)))
       (\<lambda>hel. and_then (hashmap_find hel key 0)
          (\<lambda>r. case r of
                 None \<Rightarrow> Inr 0
               | Some i \<Rightarrow> and_then (entry_at hel (int i)) (\<lambda>he. Inr (ent_value he))))"

text \<open>
  \<open>memcpy(values + i, values + i + 1, sizeof * (vlen - i))\<close>: the source range ends at index
  \<open>vlen\<close>, one past the entries in use, and has to lie in the allocated block. The ranges
  overlap; the model takes the copy in ascending order.
\<close>

definition shift_down :: "hashmap_entry option list \<Rightarrow> nat \<Rightarrow> nat \<Rightarrow> fault + hashmap_entry option list" where
  "shift_down cs i n =
     (if i + 1 + n \<le> length cs then arr_blit cs (int i) (take n (drop (i + 1) cs))
      else Inl Out_Of_Bounds)"

definition hashmap_remove :: "hashmap \<Rightarrow> string \<Rightarrow> fault + hashmap \<times> int" where
  "hashmap_remove m key =
     (let hash = crc8_key key in
      and_then (arr_read (buckets m) (int hash))
        (\<lambda>hel. and_then (hashmap_find hel key 0)
           (\<lambda>r. case r of
                  None \<Rightarrow> Inr (m, 0)
                | Some i \<Rightarrow>
                    and_then (entry_at hel (int i))
                      (\<lambda>he. and_then (shift_down (cells hel) i (unat (vlen hel) - i))
                         (\<lambda>cs. Inr (set_bucket m hash (hel\<lparr>cells := cs, vlen := vlen hel - 1\<rparr>),
                                    ent_value he))))))"

text \<open>
  \<open>hashmap_iterate\<close>: the callback threads its context, gets each key pointer and value, and a
  non-zero result stops both loops.
\<close>

function iterate_bucket ::
    "('c \<Rightarrow> string option \<Rightarrow> int \<Rightarrow> 'c \<times> int) \<Rightarrow> hashmap_entry_list \<Rightarrow> nat \<Rightarrow> 'c \<Rightarrow> fault + 'c \<times> bool" where
  "iterate_bucket iter hel j ctx =
     (if j < unat (vlen hel) then
        and_then (entry_at hel (int j))
          (\<lambda>he. let (ctx, r) = iter ctx (ent_key he) (ent_value he)
                in if r \<noteq> 0 then Inr (ctx, True) else iterate_bucket iter hel (Suc j) ctx)
      else Inr (ctx, False))"
  by pat_completeness auto
termination
  by (relation "measure (\<lambda>(iter, hel, j, ctx). unat (vlen hel) - j)") auto

declare iterate_bucket.simps [simp del]

fun iterate_buckets ::
    "('c \<Rightarrow> string option \<Rightarrow> int \<Rightarrow> 'c \<times> int) \<Rightarrow> hashmap_entry_list list \<Rightarrow> 'c \<Rightarrow> fault + 'c \<times> int" where
  "iterate_buckets iter [] ctx = Inr (ctx, 0)"
| "iterate_buckets iter (hel # hels) ctx =
     and_then (iterate_bucket iter hel 0 ctx)
       (\<lambda>(ctx, stop). if stop then Inr (ctx, -1) else iterate_buckets iter hels ctx)"

definition hashmap_iterate ::
    "hashmap \<Rightarrow> ('c \<Rightarrow> string option \<Rightarrow> int \<Rightarrow> 'c \<times> int) \<Rightarrow> 'c \<Rightarrow> fault + 'c \<times> int" where
  "hashmap_iterate m iter ctx = iterate_buckets iter (take (unat (bucketsize m)) (buckets m)) ctx"

text \<open>\<open>hashmap_empty\<close>: the inner loop reads every key pointer to free it, then the bucket is reset.\<close>

function free_keys :: "hashmap_entry_list \<Rightarrow> nat \<Rightarrow> fault + unit" where
  "free_keys hel j =
     (if j < unat (vlen hel) then and_then (entry_at hel (int j)) (\<lambda>he. free_keys hel (Suc j))
      else Inr ())"
  by pat_completeness auto
termination
  by (relation "measure (\<lambda>(hel, j). unat (vlen hel) - j)") auto

declare free_keys.simps [simp del]

fun empty_buckets :: "hashmap_entry_list list \<Rightarrow> fault + hashmap_entry_list list" where
  "empty_buckets [] = Inr []"
| "empty_buckets (hel # hels) =
     and_then (free_keys hel 0)
       (\<lambda>_. and_then (empty_buckets hels)
          (\<lambda>hels'. Inr (hel\<lparr>cells := [], vlen := 0, vroom := 0\<rparr> # hels')))"

definition hashmap_empty :: "hashmap \<Rightarrow> fault + hashmap" where
  "hashmap_empty m =
     and_then (empty_buckets (take (unat (bucketsize m)) (buckets m)))
       (\<lambda>hels. Inr (m\<lparr>buckets := hels @ drop (unat (bucketsize m)) (buckets m)\<rparr>))"

text \<open>\<open>hashmap_destroy\<close> frees the entries and the buckets; what is left of the map behind the old pointer has no buckets.\<close>

definition hashmap_destroy :: "hashmap \<Rightarrow> fault + hashmap" where
  "hashmap_destroy m = and_then (hashmap_empty m) (\<lambda>m. Inr (m\<lparr>buckets := []\<rparr>))"

section \<open>What a bucket and a map hold\<close>

text \<open>
  A bucket represents the list of its key/value pairs, in the order they were put: the cells in
  use are initialised, their keys are not NULL and hash to the bucket, and \<open>vroom\<close> is the
  number of cells allocated.
\<close>

definition cells_of :: "(string \<times> int) list \<Rightarrow> hashmap_entry option list" where
  "cells_of ps = map (\<lambda>(k, v). Some \<lparr>ent_key = Some k, ent_value = v\<rparr>) ps"

definition bucket_rep :: "nat \<Rightarrow> hashmap_entry_list \<Rightarrow> (string \<times> int) list \<Rightarrow> bool" where
  "bucket_rep b hel ps \<longleftrightarrow>
     unat (vlen hel) = length ps \<and> unat (vroom hel) = length (cells hel) \<and>
     take (length ps) (cells hel) = cells_of ps \<and> (\<forall>p \<in> set ps. crc8_key (fst p) = b)"

definition cell_pair :: "hashmap_entry option \<Rightarrow> string \<times> int" where
  "cell_pair c = (the (ent_key (the c)), ent_value (the c))"

definition bucket_pairs :: "hashmap_entry_list \<Rightarrow> (string \<times> int) list" where
  "bucket_pairs hel = map cell_pair (take (unat (vlen hel)) (cells hel))"

definition hashmap_wf :: "hashmap \<Rightarrow> bool" where
  "hashmap_wf m \<longleftrightarrow> bucketsize m = 256 \<and> length (buckets m) = 256 \<and>
     (\<forall>b < 256. bucket_rep b (buckets m ! b) (bucket_pairs (buckets m ! b)))"

text \<open>All values held for a key, oldest first.\<close>

definition assoc_vals :: "(string \<times> int) list \<Rightarrow> string \<Rightarrow> int list" where
  "assoc_vals ps k = map snd (filter (\<lambda>p. fst p = k) ps)"

definition hashmap_vals :: "hashmap \<Rightarrow> string \<Rightarrow> int list" where
  "hashmap_vals m k = assoc_vals (bucket_pairs (buckets m ! crc8_key k)) k"

text \<open>
  Room in the bucket of a key: for one more entry before the 16-bit capacity overflows, and for
  the copy of \<open>hashmap_remove\<close>, which reads the cell after the last entry.
\<close>

definition put_room :: "hashmap \<Rightarrow> string \<Rightarrow> bool" where
  "put_room m k \<longleftrightarrow> unat (vlen (buckets m ! crc8_key k)) < 32768"

definition remove_room :: "hashmap \<Rightarrow> string \<Rightarrow> bool" where
  "remove_room m k \<longleftrightarrow> vlen (buckets m ! crc8_key k) < vroom (buckets m ! crc8_key k)"

lemma bucket_rep_pairs: "bucket_rep b hel ps \<Longrightarrow> bucket_pairs hel = ps"
  by (auto simp: bucket_rep_def bucket_pairs_def cells_of_def cell_pair_def o_def split_beta)

lemma bucket_rep_len: "bucket_rep b hel ps \<Longrightarrow> length ps \<le> length (cells hel)"
proof -
  assume "bucket_rep b hel ps"
  then have "length (take (length ps) (cells hel)) = length (cells_of ps)"
    by (simp add: bucket_rep_def)
  then show ?thesis by (simp add: cells_of_def)
qed

lemma bucket_rep_nth:
  assumes "bucket_rep b hel ps" and "i < length ps"
  shows "cells hel ! i = Some \<lparr>ent_key = Some (fst (ps ! i)), ent_value = snd (ps ! i)\<rparr>"
proof -
  have "cells hel ! i = take (length ps) (cells hel) ! i" using assms(2) by simp
  also have "\<dots> = cells_of ps ! i" using assms(1) by (simp add: bucket_rep_def)
  finally show ?thesis using assms(2) by (simp add: cells_of_def split_beta)
qed

lemma bucket_rep_entry_at:
  "bucket_rep b hel ps \<Longrightarrow> i < length ps \<Longrightarrow>
   entry_at hel (int i) = Inr \<lparr>ent_key = Some (fst (ps ! i)), ent_value = snd (ps ! i)\<rparr>"
  using bucket_rep_len [of b hel ps]
  by (simp add: entry_at_def bucket_rep_nth)

lemma hashmap_wf_bucket:
  assumes "hashmap_wf m"
  shows "arr_read (buckets m) (int (crc8_key k)) = Inr (buckets m ! crc8_key k)"
    and "bucket_rep (crc8_key k) (buckets m ! crc8_key k) (bucket_pairs (buckets m ! crc8_key k))"
    and "length (buckets m) = 256"
  using assms crc8_key_less [of k] by (auto simp: hashmap_wf_def)

lemma hashmap_wf_entry_at:
  assumes "hashmap_wf m" and "i < length (bucket_pairs (buckets m ! crc8_key k))"
  shows "entry_at (buckets m ! crc8_key k) (int i) =
    Inr \<lparr>ent_key = Some (fst (bucket_pairs (buckets m ! crc8_key k) ! i)),
         ent_value = snd (bucket_pairs (buckets m ! crc8_key k) ! i)\<rparr>"
  by (rule bucket_rep_entry_at [OF hashmap_wf_bucket(2) [OF assms(1)] assms(2)])

lemma hashmap_wf_set_bucket:
  assumes "hashmap_wf m" and "bucket_rep b hel ps"
  shows "hashmap_wf (set_bucket m b hel)"
proof -
  have rep: "bucket_rep b hel (bucket_pairs hel)" using assms(2) by (simp add: bucket_rep_pairs)
  have "bucket_rep c ((buckets m)[b := hel] ! c) (bucket_pairs ((buckets m)[b := hel] ! c))"
    if "c < 256" for c
    using that assms(1) rep by (cases "c = b") (simp_all add: hashmap_wf_def)
  then show ?thesis
    using assms(1) by (simp add: hashmap_wf_def set_bucket_def)
qed

lemma hashmap_vals_set_bucket:
  assumes "hashmap_wf m" and "bucket_rep (crc8_key k) hel ps"
  shows "hashmap_vals (set_bucket m (crc8_key k) hel) k' =
    (if crc8_key k' = crc8_key k then assoc_vals ps k' else hashmap_vals m k')"
  using assms crc8_key_less [of k]
  by (auto simp: hashmap_vals_def set_bucket_def nth_list_update hashmap_wf_def dest: bucket_rep_pairs)

section \<open>Searching a bucket\<close>

fun first_pos :: "string \<Rightarrow> (string \<times> int) list \<Rightarrow> nat option" where
  "first_pos k [] = None"
| "first_pos k (p # ps) = (if k = fst p then Some 0 else map_option Suc (first_pos k ps))"

lemma hashmap_find_pos:
  assumes "bucket_rep b hel ps" and "i \<le> length ps"
  shows "hashmap_find hel k i = Inr (map_option ((+) i) (first_pos k (drop i ps)))"
  using assms
proof (induction hel k i rule: hashmap_find.induct)
  case (1 hel k i)
  show ?case
  proof (cases "i < length ps")
    case True
    with 1 have "drop i ps = ps ! i # drop (Suc i) ps"
      by (simp add: Cons_nth_drop_Suc)
    moreover have "unat (vlen hel) = length ps" using "1.prems" by (simp add: bucket_rep_def)
    ultimately show ?thesis
      using True "1.prems" "1.IH"
      by (auto simp: hashmap_find.simps [of hel k i] bucket_rep_entry_at option.map_comp o_def)
  next
    case False
    with "1.prems" show ?thesis
      by (subst hashmap_find.simps) (simp add: bucket_rep_def)
  qed
qed

lemma hashmap_find_wf:
  assumes "hashmap_wf m"
  shows "hashmap_find (buckets m ! crc8_key k) k 0
    = Inr (first_pos k (bucket_pairs (buckets m ! crc8_key k)))"
proof -
  have "((+) 0) = (id :: nat \<Rightarrow> nat)" by auto
  then show ?thesis
    using hashmap_find_pos [OF hashmap_wf_bucket(2) [OF assms, of k], of 0 k] by (simp add: option.map_id)
qed

lemma first_pos_None: "first_pos k ps = None \<longleftrightarrow> assoc_vals ps k = []"
  by (induction ps) (auto simp: assoc_vals_def)

lemma first_pos_less: "first_pos k ps = Some i \<Longrightarrow> i < length ps \<and> fst (ps ! i) = k"
  by (induction ps arbitrary: i) (auto split: if_splits)

text \<open>The list that is left when the pair at index \<open>i\<close> is taken out.\<close>

abbreviation remove_at :: "nat \<Rightarrow> 'a list \<Rightarrow> 'a list" where
  "remove_at i ps \<equiv> take i ps @ drop (Suc i) ps"

lemma first_pos_vals:
  "first_pos k ps = Some i \<Longrightarrow> assoc_vals ps k = snd (ps ! i) # assoc_vals (remove_at i ps) k"
proof (induction ps arbitrary: i)
  case (Cons p ps)
  then show ?case
  proof (cases "k = fst p")
    case False
    with Cons.prems obtain j where "first_pos k ps = Some j" "i = Suc j" by auto
    with Cons.IH False show ?thesis by (simp add: assoc_vals_def)
  qed (simp add: assoc_vals_def)
qed simp

lemma first_pos_other:
  assumes "first_pos k ps = Some i" and "k' \<noteq> k"
  shows "assoc_vals (remove_at i ps) k' = assoc_vals ps k'"
proof -
  have i: "i < length ps" "fst (ps ! i) = k" using first_pos_less [OF assms(1)] by auto
  have "assoc_vals ps k' = assoc_vals (take i ps @ ps ! i # drop (Suc i) ps) k'"
    using i(1) by (simp add: id_take_nth_drop [symmetric])
  also have "\<dots> = assoc_vals (remove_at i ps) k'"
    using i(2) assms(2) by (simp add: assoc_vals_def)
  finally show ?thesis by simp
qed

section \<open>The operations on a well-formed map\<close>

lemma bucket_rep_empty: "bucket_rep b \<lparr>vlen = 0, vroom = 0, cells = []\<rparr> []"
  by (simp add: bucket_rep_def cells_of_def)

lemma bucket_rep_reset: "bucket_rep b (hel\<lparr>cells := [], vlen := 0, vroom := 0\<rparr>) []"
  by (simp add: bucket_rep_def cells_of_def)

lemma hashmap_new_wf:
  assumes "hashmap_new True = Some m"
  shows "hashmap_wf m" and "hashmap_vals m = (\<lambda>k. [])"
proof -
  let ?e = "\<lparr>vlen = 0, vroom = 0, cells = []\<rparr> :: hashmap_entry_list"
  have m: "bucketsize m = 256" "buckets m = replicate 256 ?e"
    using assms by (auto simp: hashmap_new_def)
  have nth: "buckets m ! b = ?e" if "b < 256" for b
    unfolding m using that by (rule nth_replicate)
  have pairs: "bucket_pairs ?e = []" by (simp add: bucket_pairs_def)
  show "hashmap_wf m"
    unfolding hashmap_wf_def using m(1) nth
    by (simp add: m(2) pairs bucket_rep_empty)
  show "hashmap_vals m = (\<lambda>k. [])"
    by (simp add: hashmap_vals_def nth pairs assoc_vals_def fun_eq_iff)
qed

lemma hashmap_get_vals:
  assumes "hashmap_wf m"
  shows "hashmap_get m k = Inr (case hashmap_vals m k of [] \<Rightarrow> 0 | v # _ \<Rightarrow> v)"
proof (cases "first_pos k (bucket_pairs (buckets m ! crc8_key k))")
  case None
  with assms show ?thesis
    by (simp add: hashmap_get_def hashmap_wf_bucket hashmap_find_wf hashmap_vals_def
        iffD1 [OF first_pos_None])
next
  case (Some i)
  with assms show ?thesis
    by (simp add: hashmap_get_def hashmap_wf_bucket hashmap_find_wf hashmap_vals_def
        hashmap_wf_entry_at first_pos_less first_pos_vals)
qed

lemma hashmap_vals_num_entry [simp]: "hashmap_vals (m\<lparr>num_entry := n\<rparr>) = hashmap_vals m"
  by (simp add: hashmap_vals_def fun_eq_iff)

lemma hashmap_wf_num_entry [simp]: "hashmap_wf (m\<lparr>num_entry := n\<rparr>) = hashmap_wf m"
  by (simp add: hashmap_wf_def)

lemma hashmap_append_rep:
  assumes len: "unat (vlen hel) = Suc (length ps)" "length ps < length (cells hel)"
    and room: "unat (vroom hel) = length (cells hel)"
    and rep: "take (length ps) (cells hel) = cells_of ps" "\<forall>p \<in> set ps. crc8_key (fst p) = crc8_key k"
    and wf: "hashmap_wf m" and old: "bucket_pairs (buckets m ! crc8_key k) = ps"
  shows "\<exists>m'. hashmap_append True m (crc8_key k) hel k v = Inr m' \<and> hashmap_wf m' \<and>
    hashmap_vals m' = (hashmap_vals m)(k := hashmap_vals m k @ [v]) \<and> num_entry m' = num_entry m + 1"
proof -
  define hel' where "hel' = hel\<lparr>cells := (cells hel)[length ps :=
    Some \<lparr>ent_key = Some k, ent_value = v\<rparr>]\<rparr>"
  have "bucket_rep (crc8_key k) hel' (ps @ [(k, v)])"
    using len room rep
    by (auto simp: bucket_rep_def hel'_def cells_of_def take_Suc_conv_app_nth)
  note set = hashmap_wf_set_bucket [OF wf this] hashmap_vals_set_bucket [OF wf this]
  have "hashmap_append True m (crc8_key k) hel k v =
      Inr ((set_bucket m (crc8_key k) hel')\<lparr>num_entry := num_entry m + 1\<rparr>)"
    using len by (simp add: hashmap_append_def hel'_def set_bucket_def Let_def)
  then show ?thesis
    using set old by (auto simp: fun_eq_iff hashmap_vals_def assoc_vals_def)
qed

lemma hashmap_put_vals:
  assumes wf: "hashmap_wf m" and room: "put_room m k"
  shows "\<exists>m'. hashmap_put True True m k v = Inr m' \<and> hashmap_wf m' \<and>
    hashmap_vals m' = (hashmap_vals m)(k := hashmap_vals m k @ [v]) \<and> num_entry m' = num_entry m + 1"
proof -
  define hel where "hel = buckets m ! crc8_key k"
  define ps where "ps = bucket_pairs hel"
  have rep: "bucket_rep (crc8_key k) hel ps" "length ps \<le> length (cells hel)"
    using hashmap_wf_bucket(2) [OF wf, of k] bucket_rep_len by (auto simp: hel_def ps_def)
  have vl: "unat (vlen hel) = length ps" "unat (vroom hel) = length (cells hel)" "length ps < 32768"
    using rep room by (auto simp: bucket_rep_def put_room_def hel_def)
  have suc: "unat (vlen hel + 1) = Suc (length ps)"
    using vl by (simp add: unat_word_ariths)
  show ?thesis
  proof (cases "vroom hel < vlen hel + 1")
    case False
    then have "length ps < length (cells hel)"
      using suc vl by (simp add: word_less_nat_alt)
    then show ?thesis
      using hashmap_append_rep [of "hel\<lparr>vlen := vlen hel + 1\<rparr>" ps k m v] False rep vl suc wf
      by (simp add: hashmap_put_def hashmap_wf_bucket Let_def bucket_rep_def flip: hel_def ps_def)
  next
    case True
    define r where "r = (if vroom hel = 0 then 4 else vroom hel * 2)"
    have full: "length (cells hel) = length ps"
      using True suc vl rep(2) by (simp add: word_less_nat_alt)
    have r: "length ps < unat r"
      using vl full by (auto simp: r_def unat_word_ariths unat_eq_0)
    have "\<exists>m'. hashmap_append True m (crc8_key k)
        (hel\<lparr>vlen := vlen hel + 1, vroom := r, cells := realloc_cells (cells hel) (unat r)\<rparr>) k v = Inr m' \<and>
      hashmap_wf m' \<and> hashmap_vals m' = (hashmap_vals m)(k := hashmap_vals m k @ [v]) \<and>
      num_entry m' = num_entry m + 1"
      using rep vl suc wf full r
      by (intro hashmap_append_rep [where ps = ps])
        (auto simp: realloc_cells_def bucket_rep_def hel_def ps_def)
    moreover have "hashmap_put True True m k v = hashmap_append True m (crc8_key k)
        (hel\<lparr>vlen := vlen hel + 1, vroom := r, cells := realloc_cells (cells hel) (unat r)\<rparr>) k v"
      using True by (simp add: hashmap_put_def hashmap_wf_bucket wf Let_def r_def flip: hel_def)
    ultimately show ?thesis by simp
  qed
qed

text \<open>Where the bucket has a spare cell, the copy of \<open>hashmap_remove\<close> takes the pair out.\<close>

lemma shift_down_rep:
  assumes rep: "bucket_rep b hel ps" and i: "i < length ps" and room: "length ps < length (cells hel)"
  shows "\<exists>cs. shift_down (cells hel) i (length ps - i) = Inr cs \<and>
    bucket_rep b (hel\<lparr>cells := cs, vlen := vlen hel - 1\<rparr>) (remove_at i ps)"
proof -
  define cs where "cs = take i (cells hel) @ take (length ps - i) (drop (Suc i) (cells hel)) @
    drop (length ps) (cells hel)"
  have sd: "shift_down (cells hel) i (length ps - i) = Inr cs"
    using i room by (simp add: shift_down_def arr_blit_ok cs_def)
  have vl: "unat (vlen hel - 1) = length ps - 1"
    using rep i by (auto simp: bucket_rep_def unat_sub word_le_nat_alt)
  have t: "take (length ps) (cells hel) = cells_of ps" using rep by (simp add: bucket_rep_def)
  have l: "length (take i (cells hel)) = i"
      "length (take (length ps - i) (drop (Suc i) (cells hel))) = length ps - i"
    using i room by simp_all
  have "take (length ps - 1) cs =
      take i (cells hel) @ take (length ps - Suc i) (drop (Suc i) (cells hel))"
    unfolding cs_def take_append l using i by (simp add: min_absorb1 min_absorb2)
  also have "\<dots> = take i (take (length ps) (cells hel)) @ drop (Suc i) (take (length ps) (cells hel))"
    using i by (simp add: drop_take min_def)
  also have "\<dots> = cells_of (remove_at i ps)"
    by (simp only: t) (simp add: cells_of_def take_map drop_map)
  finally have "bucket_rep b (hel\<lparr>cells := cs, vlen := vlen hel - 1\<rparr>) (remove_at i ps)"
    using rep i room vl
    by (auto simp: bucket_rep_def cs_def dest: in_set_takeD in_set_dropD)
  with sd show ?thesis by blast
qed

lemma hashmap_remove_vals:
  assumes wf: "hashmap_wf m" and vals: "hashmap_vals m k = v # vs"
  shows "if remove_room m k
    then \<exists>m'. hashmap_remove m k = Inr (m', v) \<and> hashmap_wf m' \<and>
      hashmap_vals m' = (hashmap_vals m)(k := vs) \<and> num_entry m' = num_entry m \<and>
      (put_room m k \<longrightarrow> put_room m' k)
    else hashmap_remove m k = Inl Out_Of_Bounds"
proof -
  define hel where "hel = buckets m ! crc8_key k"
  define ps where "ps = bucket_pairs hel"
  have rep: "bucket_rep (crc8_key k) hel ps" "length ps \<le> length (cells hel)"
    using hashmap_wf_bucket(2) [OF wf, of k] bucket_rep_len by (auto simp: hel_def ps_def)
  have vl: "unat (vlen hel) = length ps" "unat (vroom hel) = length (cells hel)"
    using rep by (auto simp: bucket_rep_def)
  have vals': "assoc_vals ps k = v # vs" using vals by (simp add: hashmap_vals_def hel_def ps_def)
  then obtain i where i: "first_pos k ps = Some i" using first_pos_None [of k ps] by fastforce
  have len: "i < length ps" and v: "snd (ps ! i) = v" "assoc_vals (remove_at i ps) k = vs"
    using first_pos_less [OF i] first_pos_vals [OF i] vals' by auto
  have rr: "remove_room m k \<longleftrightarrow> length ps < length (cells hel)"
    by (simp add: remove_room_def word_less_nat_alt vl flip: hel_def)
  have find: "hashmap_find hel k 0 = Inr (first_pos k ps)"
    using hashmap_find_wf [OF wf, of k] by (simp add: hel_def ps_def)
  have run: "hashmap_remove m k = and_then (shift_down (cells hel) i (length ps - i))
      (\<lambda>cs. Inr (set_bucket m (crc8_key k) (hel\<lparr>cells := cs, vlen := vlen hel - 1\<rparr>), v))"
    using wf i len v find
    by (simp add: hashmap_remove_def hashmap_wf_bucket bucket_rep_entry_at [OF rep(1)] vl Let_def
        flip: hel_def)
  show ?thesis
  proof (cases "remove_room m k")
    case True
    with rr obtain cs where cs: "shift_down (cells hel) i (length ps - i) = Inr cs"
        "bucket_rep (crc8_key k) (hel\<lparr>cells := cs, vlen := vlen hel - 1\<rparr>) (remove_at i ps)"
      using shift_down_rep [OF rep(1) len] by blast
    have other: "hashmap_vals m k' = assoc_vals ps k'" if "crc8_key k' = crc8_key k" for k'
      using that by (simp add: hashmap_vals_def hel_def ps_def)
    define m' where "m' = set_bucket m (crc8_key k) (hel\<lparr>cells := cs, vlen := vlen hel - 1\<rparr>)"
    have "vlen (buckets m' ! crc8_key k) = vlen hel - 1"
      using hashmap_wf_bucket(3) [OF wf] by (simp add: m'_def set_bucket_def)
    then have "put_room m k \<longrightarrow> put_room m' k"
      using vl len by (auto simp: put_room_def unat_sub word_le_nat_alt simp flip: hel_def)
    moreover have "hashmap_vals m' = (hashmap_vals m)(k := vs)"
      using v(2) first_pos_other [OF i] other hashmap_vals_set_bucket [OF wf cs(2)]
      by (auto simp: fun_eq_iff m'_def)
    moreover have "num_entry m' = num_entry m" by (simp add: m'_def set_bucket_def)
    ultimately show ?thesis
      using True run cs(1) hashmap_wf_set_bucket [OF wf cs(2)] by (simp add: m'_def)
  next
    case False
    with rr rep(2) have "length (cells hel) = length ps" by simp
    with len have "shift_down (cells hel) i (length ps - i) = Inl Out_Of_Bounds"
      by (simp add: shift_down_def)
    with False run show ?thesis by simp
  qed
qed

lemma hashmap_remove_absent:
  assumes wf: "hashmap_wf m" and vals: "hashmap_vals m k = []"
  shows "hashmap_remove m k = Inr (m, 0)"
proof -
  have "first_pos k (bucket_pairs (buckets m ! crc8_key k)) = None"
    using vals by (simp add: first_pos_None hashmap_vals_def)
  with wf show ?thesis by (simp add: hashmap_remove_def hashmap_wf_bucket hashmap_find_wf Let_def)
qed

section \<open>The interface to clients\<close>

text \<open>
  What a client of the map may rely on: \<open>vals m k\<close> is the list of values the map holds for \<open>k\<close>;
  \<open>get\<close> returns the oldest, or 0; \<open>put\<close> adds one behind the others; \<open>remove\<close> takes the oldest away
  and returns it. \<open>can_put\<close> and \<open>can_remove\<close> say when the provider promises to do so.
\<close>

locale kv_store =
  fixes get :: "'m \<Rightarrow> 'k \<Rightarrow> fault + int"
    and put :: "'m \<Rightarrow> 'k \<Rightarrow> int \<Rightarrow> fault + 'm"
    and remove :: "'m \<Rightarrow> 'k \<Rightarrow> fault + 'm \<times> int"
    and inv :: "'m \<Rightarrow> bool"
    and vals :: "'m \<Rightarrow> 'k \<Rightarrow> int list"
    and can_put :: "'m \<Rightarrow> 'k \<Rightarrow> bool"
    and can_remove :: "'m \<Rightarrow> 'k \<Rightarrow> bool"
  assumes get_law: "inv m \<Longrightarrow> get m k = Inr (case vals m k of [] \<Rightarrow> 0 | v # _ \<Rightarrow> v)"
    and put_law: "inv m \<Longrightarrow> can_put m k \<Longrightarrow>
      \<exists>m'. put m k v = Inr m' \<and> inv m' \<and> vals m' = (vals m)(k := vals m k @ [v])"
    and remove_law: "inv m \<Longrightarrow> vals m k = v # vs \<Longrightarrow> can_remove m k \<Longrightarrow>
      \<exists>m'. remove m k = Inr (m', v) \<and> inv m' \<and> vals m' = (vals m)(k := vs) \<and>
        (can_put m k \<longrightarrow> can_put m' k)"
begin

lemma get_after_put:
  assumes "inv m" and "can_put m k" and "put m k v = Inr m'"
  shows "get m' k' = (if k' = k \<and> vals m k = [] then Inr v else get m k')"
  using put_law [OF assms(1,2), of v] assms by (auto simp: get_law split: list.splits)

text \<open>
  The client's "set": remove the key if \<open>get\<close> says it is there, then put. A value 0 cannot be told
  from an absent key, so a key whose oldest value is 0 keeps it for ever.
\<close>

lemma set_law:
  assumes inv: "inv m" and put: "can_put m k"
    and room: "vals m k \<noteq> [] \<Longrightarrow> hd (vals m k) \<noteq> 0 \<Longrightarrow> can_remove m k"
  shows "\<exists>m'. and_then (get m k)
      (\<lambda>p. and_then (if p \<noteq> 0 then and_then (remove m k) (\<lambda>(m, _). Inr m) else Inr m)
        (\<lambda>m. put m k v)) = Inr m' \<and> inv m' \<and>
    vals m' = (vals m)(k := (case vals m k of [] \<Rightarrow> [v]
      | u # us \<Rightarrow> if u \<noteq> 0 then us @ [v] else u # us @ [v]))"
proof (cases "vals m k")
  case Nil
  then show ?thesis using put_law [OF inv put, of v] by (simp add: get_law [OF inv])
next
  case (Cons u us)
  show ?thesis
  proof (cases "u = 0")
    case True
    then show ?thesis using Cons put_law [OF inv put, of v] by (simp add: get_law [OF inv])
  next
    case False
    with Cons room have "can_remove m k" by simp
    with remove_law [OF inv Cons] put obtain m1 where m1: "remove m k = Inr (m1, u)" "inv m1"
        "can_put m1 k" "vals m1 = (vals m)(k := us)" by blast
    with put_law [OF m1(2,3), of v] Cons False show ?thesis by (auto simp: get_law [OF inv])
  qed
qed

end

interpretation hm: kv_store hashmap_get "hashmap_put True True" hashmap_remove
    hashmap_wf hashmap_vals put_room remove_room
proof (unfold_locales, goal_cases)
  case (1 m k)
  then show ?case by (rule hashmap_get_vals)
next
  case (2 m k v)
  then show ?case using hashmap_put_vals by blast
next
  case (3 m k v vs)
  then show ?case using hashmap_remove_vals [of m k v vs] by auto
qed

section \<open>Failed allocation, iteration and emptying\<close>

text \<open>A search that runs past the last written cell of a full block leaves the block.\<close>

lemma hashmap_find_overrun:
  assumes "take (length ps) (cells hel) = cells_of ps" and "length (cells hel) = length ps"
    and "unat (vlen hel) = Suc (length ps)" and "first_pos k (drop i ps) = None" and "i \<le> length ps"
  shows "hashmap_find hel k i = Inl Out_Of_Bounds"
  using assms
proof (induction hel k i rule: hashmap_find.induct)
  case (1 hel k i)
  show ?case
  proof (cases "i < length ps")
    case True
    have "cells hel ! i = cells_of ps ! i" using "1.prems"(1,2) True by simp
    then have e: "entry_at hel (int i) = Inr \<lparr>ent_key = Some (fst (ps ! i)), ent_value = snd (ps ! i)\<rparr>"
      using "1.prems"(2) True by (simp add: entry_at_def cells_of_def split_beta)
    have "drop i ps = ps ! i # drop (Suc i) ps" using True by (simp add: Cons_nth_drop_Suc)
    with "1.prems"(4) have "k \<noteq> fst (ps ! i)" "first_pos k (drop (Suc i) ps) = None"
      by (auto split: if_splits)
    with 1 True e show ?thesis by (subst hashmap_find.simps) simp
  next
    case False
    with "1.prems" show ?thesis
      by (subst hashmap_find.simps) (simp add: entry_at_def arr_read_def)
  qed
qed

fun visit ::
    "('c \<Rightarrow> string option \<Rightarrow> int \<Rightarrow> 'c \<times> int) \<Rightarrow> (string \<times> int) list \<Rightarrow> 'c \<Rightarrow> 'c \<times> bool" where
  "visit iter [] ctx = (ctx, False)"
| "visit iter (p # ps) ctx =
     (let (ctx, r) = iter ctx (Some (fst p)) (snd p)
      in if r \<noteq> 0 then (ctx, True) else visit iter ps ctx)"

lemma visit_append:
  "visit iter (ps @ qs) ctx =
   (let (ctx, stop) = visit iter ps ctx in if stop then (ctx, True) else visit iter qs ctx)"
  by (induction ps arbitrary: ctx) (auto simp: Let_def split: prod.splits)

lemma iterate_bucket_visit:
  assumes "bucket_rep b hel ps" and "j \<le> length ps"
  shows "iterate_bucket iter hel j ctx = Inr (visit iter (drop j ps) ctx)"
  using assms
proof (induction iter hel j ctx rule: iterate_bucket.induct)
  case (1 iter hel j ctx)
  have len: "unat (vlen hel) = length ps" using "1.prems" by (simp add: bucket_rep_def)
  show ?case
  proof (cases "j < length ps")
    case True
    with 1 len show ?thesis
      by (simp add: iterate_bucket.simps [of iter hel j ctx] bucket_rep_entry_at
          Cons_nth_drop_Suc [OF True, symmetric] split: prod.splits)
  next
    case False
    with 1 len show ?thesis by (subst iterate_bucket.simps) simp
  qed
qed

lemma iterate_buckets_visit:
  assumes "\<forall>hel \<in> set hels. \<exists>b. bucket_rep b hel (bucket_pairs hel)"
  shows "iterate_buckets iter hels ctx =
    (case visit iter (concat (map bucket_pairs hels)) ctx of (c, stop) \<Rightarrow> Inr (c, if stop then -1 else 0))"
  using assms
proof (induction hels arbitrary: ctx)
  case (Cons hel hels)
  then obtain b where "bucket_rep b hel (bucket_pairs hel)" by auto
  from iterate_bucket_visit [OF this, of 0 iter ctx]
  have "iterate_bucket iter hel 0 ctx = Inr (visit iter (bucket_pairs hel) ctx)" by simp
  with Cons show ?case by (auto simp: visit_append split: prod.splits)
qed simp

lemma hashmap_wf_buckets:
  assumes "hashmap_wf m" and "hel \<in> set (buckets m)"
  shows "\<exists>b. bucket_rep b hel (bucket_pairs hel)"
proof -
  from assms obtain b where "b < 256" "hel = buckets m ! b"
    by (auto simp: in_set_conv_nth hashmap_wf_def)
  with assms(1) show ?thesis by (auto simp: hashmap_wf_def)
qed

lemma hashmap_wf_take [simp]: "hashmap_wf m \<Longrightarrow> take (unat (bucketsize m)) (buckets m) = buckets m"
  by (simp add: hashmap_wf_def)

lemma free_keys_ok:
  assumes "bucket_rep b hel ps"
  shows "free_keys hel j = Inr ()"
  using assms
proof (induction hel j rule: free_keys.induct)
  case (1 hel j)
  have len: "unat (vlen hel) = length ps" using "1.prems" by (simp add: bucket_rep_def)
  with 1 show ?case
    by (cases "j < length ps")
      (simp_all add: free_keys.simps [of hel j] bucket_rep_entry_at)
qed

lemma empty_buckets_ok:
  assumes "\<forall>hel \<in> set hels. \<exists>b. bucket_rep b hel (bucket_pairs hel)"
  shows "empty_buckets hels = Inr (map (\<lambda>hel. hel\<lparr>cells := [], vlen := 0, vroom := 0\<rparr>) hels)"
  using assms
proof (induction hels)
  case (Cons hel hels)
  then obtain b where "bucket_rep b hel (bucket_pairs hel)" by auto
  with free_keys_ok Cons show ?case by simp
qed simp

section \<open>Properties of the map\<close>

text \<open>
  C8: on a well-formed map, \<open>hashmap_get\<close>, \<open>hashmap_put\<close> and \<open>hashmap_remove\<close> implement the list of
  values of each key: get returns the oldest value or 0 and changes nothing; put, with room and
  memory, appends a value and counts it in \<open>num_entry\<close>; remove drops the oldest value and returns
  it, touches no other key, leaves \<open>num_entry\<close> alone, and keeps the map well formed.
\<close>

theorem hashmap_refines_value_lists:
  assumes "hashmap_wf m" and "put_room m k" and "remove_room m k"
  shows "hashmap_get m k = Inr (case hashmap_vals m k of [] \<Rightarrow> 0 | v # _ \<Rightarrow> v) \<and>
    (\<exists>m'. hashmap_put True True m k v = Inr m' \<and> hashmap_wf m' \<and>
      hashmap_vals m' = (hashmap_vals m)(k := hashmap_vals m k @ [v]) \<and>
      num_entry m' = num_entry m + 1) \<and>
    (\<exists>m'. hashmap_remove m k = Inr (m', case hashmap_vals m k of [] \<Rightarrow> 0 | v # _ \<Rightarrow> v) \<and>
      hashmap_wf m' \<and> hashmap_vals m' = (hashmap_vals m)(k := tl (hashmap_vals m k)) \<and>
      num_entry m' = num_entry m)"
proof (intro conjI)
  show "hashmap_get m k = Inr (case hashmap_vals m k of [] \<Rightarrow> 0 | v # _ \<Rightarrow> v)"
    using assms(1) by (rule hashmap_get_vals)
  show "\<exists>m'. hashmap_put True True m k v = Inr m' \<and> hashmap_wf m' \<and>
      hashmap_vals m' = (hashmap_vals m)(k := hashmap_vals m k @ [v]) \<and> num_entry m' = num_entry m + 1"
    using assms(1,2) by (rule hashmap_put_vals)
  show "\<exists>m'. hashmap_remove m k = Inr (m', case hashmap_vals m k of [] \<Rightarrow> 0 | v # _ \<Rightarrow> v) \<and>
      hashmap_wf m' \<and> hashmap_vals m' = (hashmap_vals m)(k := tl (hashmap_vals m k)) \<and>
      num_entry m' = num_entry m"
  proof (cases "hashmap_vals m k")
    case Nil
    then have "(hashmap_vals m)(k := []) = hashmap_vals m" by auto
    with Nil assms(1) show ?thesis by (simp add: hashmap_remove_absent)
  next
    case (Cons v vs)
    with hashmap_remove_vals [OF assms(1) Cons] assms(3) show ?thesis by auto
  qed
qed

text \<open>A map with one entry, for the witnesses.\<close>

definition empty_map :: hashmap where
  "empty_map = \<lparr>num_entry = 0, bucketsize = 256,
     buckets = replicate 256 \<lparr>vlen = 0, vroom = 0, cells = []\<rparr>\<rparr>"

lemma empty_map_new: "hashmap_new True = Some empty_map"
  by (simp add: hashmap_new_def empty_map_def)

lemmas empty_map_wf = hashmap_new_wf [OF empty_map_new]

lemma empty_map_bucket [simp]:
  "buckets empty_map ! crc8_key k = \<lparr>vlen = 0, vroom = 0, cells = []\<rparr>"
proof -
  have "buckets empty_map = replicate 256 \<lparr>vlen = 0, vroom = 0, cells = []\<rparr>"
    by (simp add: empty_map_def)
  then show ?thesis using nth_replicate [OF crc8_key_less] by simp
qed

lemma empty_map_put_room: "put_room empty_map k"
  by (simp add: put_room_def)

text \<open>The maps that hold one and four values of a single key: a bucket starts with room for four.\<close>

definition one_bucket :: "64 word \<Rightarrow> string \<Rightarrow> hashmap_entry_list \<Rightarrow> hashmap" where
  "one_bucket n k hel = (set_bucket empty_map (crc8_key k) hel)\<lparr>num_entry := n\<rparr>"

fun put_all :: "hashmap \<Rightarrow> string \<Rightarrow> int list \<Rightarrow> fault + hashmap" where
  "put_all m k [] = Inr m"
| "put_all m k (v # vs) = and_then (hashmap_put True True m k v) (\<lambda>m. put_all m k vs)"

lemma one_bucket_simps [simp]:
  "length (buckets (one_bucket n k hel)) = 256"
  "buckets (one_bucket n k hel) ! crc8_key k = hel"
  "num_entry (one_bucket n k hel) = n"
  "(set_bucket (one_bucket n k hel) (crc8_key k) hel')\<lparr>num_entry := n'\<rparr> = one_bucket n' k hel'"
  using hashmap_wf_bucket(3) [OF empty_map_wf(1)] by (simp_all add: one_bucket_def set_bucket_def)

lemma realloc_four: "realloc_cells [] (unat (4 :: 16 word)) = [None, None, None, None]"
proof -
  have "replicate 4 None = [None, None, None, None :: hashmap_entry option]"
    by (simp add: numeral_eq_Suc)
  then show ?thesis by (simp add: realloc_cells_def)
qed

lemma put_one:
  "hashmap_put True True empty_map k v =
   Inr (one_bucket 1 k \<lparr>vlen = 1, vroom = 4, cells = [Some \<lparr>ent_key = Some k, ent_value = v\<rparr>, None, None, None]\<rparr>)"
proof -
  have "num_entry empty_map = 0" by (simp add: empty_map_def)
  then show ?thesis
    by (simp add: hashmap_put_def hashmap_wf_bucket [OF empty_map_wf(1)] hashmap_append_def Let_def
        realloc_four [simplified] one_bucket_def set_bucket_def)
qed

lemma put_next:
  "\<not> vroom hel < vlen hel + 1 \<Longrightarrow>
   hashmap_put True True (one_bucket n k hel) k v =
   and_then (arr_write (cells hel) (int (unat (vlen hel + 1)) - 1) (Some \<lparr>ent_key = Some k, ent_value = v\<rparr>))
     (\<lambda>cs. Inr (one_bucket (n + 1) k (hel\<lparr>vlen := vlen hel + 1, cells := cs\<rparr>)))"
  by (simp add: hashmap_put_def hashmap_append_def Let_def one_bucket_def set_bucket_def
      hashmap_wf_bucket [OF empty_map_wf(1)])

lemma put_four:
  "put_all empty_map k [a, b, c, d] = Inr (one_bucket 4 k \<lparr>vlen = 4, vroom = 4, cells =
     [Some \<lparr>ent_key = Some k, ent_value = a\<rparr>, Some \<lparr>ent_key = Some k, ent_value = b\<rparr>,
      Some \<lparr>ent_key = Some k, ent_value = c\<rparr>, Some \<lparr>ent_key = Some k, ent_value = d\<rparr>]\<rparr>)"
  by (simp add: put_one put_next)

lemma one_bucket_wf:
  assumes "bucket_rep (crc8_key k) hel ps"
  shows "hashmap_wf (one_bucket n k hel)"
    and "hashmap_vals (one_bucket n k hel) k' = (if crc8_key k' = crc8_key k then assoc_vals ps k' else [])"
  using hashmap_wf_set_bucket [OF empty_map_wf(1) assms]
    hashmap_vals_set_bucket [OF empty_map_wf(1) assms] empty_map_wf(2)
  by (simp_all add: one_bucket_def)

theorem hashmap_refines_value_lists_witness:
  "\<exists>m m'. hashmap_put True True empty_map ''host'' 7 = Inr m \<and> hashmap_get m ''host'' = Inr 7 \<and>
    hashmap_remove m ''host'' = Inr (m', 7) \<and> hashmap_vals m' ''host'' = []"
proof -
  let ?hel = "\<lparr>vlen = 1, vroom = 4, cells = [Some \<lparr>ent_key = Some ''host'', ent_value = 7\<rparr>, None, None, None]\<rparr>"
  let ?m = "one_bucket 1 ''host'' ?hel"
  have "bucket_rep (crc8_key ''host'') ?hel [(''host'', 7)]"
    by (simp add: bucket_rep_def cells_of_def)
  note wf = one_bucket_wf [OF this]
  have vals: "hashmap_vals ?m ''host'' = [7]" by (simp add: wf(2) assoc_vals_def)
  have room: "put_room ?m ''host''" "remove_room ?m ''host''"
    by (simp_all add: put_room_def remove_room_def)
  from hashmap_refines_value_lists [OF wf(1) room, of 1] vals obtain m' where
    "hashmap_get ?m ''host'' = Inr 7" "hashmap_remove ?m ''host'' = Inr (m', 7)"
    "hashmap_vals m' = (hashmap_vals ?m)(''host'' := [])" by auto
  with put_one [of "''host''" 7] show ?thesis
    by (intro exI [of _ ?m] exI [of _ m'] conjI) simp_all
qed

text \<open>
  C38: \<open>hashmap_remove\<close> of a key that is present reads past the end of the bucket's block exactly
  when the bucket is full: the length of its copy is one entry too long.
\<close>

theorem hashmap_remove_full_bucket_overreads:
  assumes "hashmap_wf m" and "hashmap_vals m k \<noteq> []"
  shows "hashmap_remove m k = Inl Out_Of_Bounds \<longleftrightarrow> \<not> remove_room m k"
proof -
  from assms(2) obtain v vs where "hashmap_vals m k = v # vs" by (cases "hashmap_vals m k") auto
  from hashmap_remove_vals [OF assms(1) this] show ?thesis by (auto split: if_splits)
qed

theorem hashmap_remove_full_bucket_overreads_witness:
  "\<exists>m. put_all empty_map ''host'' [1, 2, 3, 4] = Inr m \<and> hashmap_remove m ''host'' = Inl Out_Of_Bounds"
proof -
  let ?hel = "\<lparr>vlen = 4, vroom = 4, cells = map (\<lambda>v. Some \<lparr>ent_key = Some ''host'', ent_value = v\<rparr>) [1, 2, 3, 4]\<rparr>"
  let ?m = "one_bucket 4 ''host'' ?hel"
  have "bucket_rep (crc8_key ''host'') ?hel (map (Pair ''host'') [1, 2, 3, 4])"
    by (simp add: bucket_rep_def cells_of_def)
  note wf = one_bucket_wf [OF this]
  have vals: "hashmap_vals ?m ''host'' \<noteq> []"
    using wf(2) [where k' = "''host''" and n = 4] by (simp add: assoc_vals_def)
  have "\<not> remove_room ?m ''host''" by (simp add: remove_room_def)
  with hashmap_remove_full_bucket_overreads [OF wf(1) vals]
  have "hashmap_remove ?m ''host'' = Inl Out_Of_Bounds" by blast
  with put_four [of "''host''" 1 2 3 4] show ?thesis by simp
qed

text \<open>
  when \<open>realloc\<close> fails inside \<open>hashmap_put\<close> the length and capacity of the bucket have already
  been raised: the call reports nothing, and a later \<open>hashmap_get\<close> of any key that hashes to the
  bucket and is not in it reads outside the block.
\<close>

lemma hashmap_put_oom_corrupts_bucket:
  assumes wf: "hashmap_wf m" and full: "\<not> remove_room m k" and room: "put_room m k"
  shows "\<exists>m'. hashmap_put False strdup_ok m k v = Inr m' \<and>
    (\<forall>k'. crc8_key k' = crc8_key k \<longrightarrow> hashmap_vals m k' = [] \<longrightarrow> hashmap_get m' k' = Inl Out_Of_Bounds)"
proof -
  define hel where "hel = buckets m ! crc8_key k"
  define ps where "ps = bucket_pairs hel"
  have rep: "bucket_rep (crc8_key k) hel ps" "length ps \<le> length (cells hel)"
    using hashmap_wf_bucket(2) [OF wf, of k] bucket_rep_len by (auto simp: hel_def ps_def)
  have vl: "unat (vlen hel) = length ps" "unat (vroom hel) = length (cells hel)" "length ps < 32768"
    using rep room by (auto simp: bucket_rep_def put_room_def hel_def)
  have suc: "unat (vlen hel + 1) = Suc (length ps)" using vl by (simp add: unat_word_ariths)
  have len: "length (cells hel) = length ps"
    using full rep(2) vl by (simp add: remove_room_def word_less_nat_alt flip: hel_def)
  define hel' where "hel' = hel\<lparr>vlen := vlen hel + 1,
    vroom := (if vroom hel = 0 then 4 else vroom hel * 2)\<rparr>"
  have "vroom hel < vlen hel + 1" using suc vl len by (simp add: word_less_nat_alt)
  then have put: "hashmap_put False strdup_ok m k v = Inr (set_bucket m (crc8_key k) hel')"
    by (simp add: hashmap_put_def hashmap_wf_bucket wf Let_def hel'_def flip: hel_def)
  have "hashmap_get (set_bucket m (crc8_key k) hel') k' = Inl Out_Of_Bounds"
    if k': "crc8_key k' = crc8_key k" "hashmap_vals m k' = []" for k'
  proof -
    have "first_pos k' ps = None"
      using k' by (simp add: first_pos_None hashmap_vals_def hel_def ps_def)
    then have "hashmap_find hel' k' 0 = Inl Out_Of_Bounds"
      using rep(1) len suc by (intro hashmap_find_overrun [where ps = ps])
        (simp_all add: hel'_def bucket_rep_def)
    then show ?thesis
      using k'(1) hashmap_wf_bucket(3) [OF wf] by (simp add: hashmap_get_def set_bucket_def)
  qed
  with put show ?thesis by blast
qed

text \<open>
  \<open>hashmap_iterate\<close> calls the callback on exactly the pairs of the map, bucket by bucket and
  oldest first, threading its context, and returns -1 as soon as a call returns non-zero, else 0.
\<close>

lemma hashmap_iterate_visits_all:
  assumes "hashmap_wf m"
  shows "hashmap_iterate m iter ctx =
    (case visit iter (concat (map bucket_pairs (buckets m))) ctx of
       (ctx', stop) \<Rightarrow> Inr (ctx', if stop then -1 else 0))"
  unfolding hashmap_iterate_def hashmap_wf_take [OF assms]
  by (rule iterate_buckets_visit) (blast intro: hashmap_wf_buckets [OF assms])

text \<open>
  \<open>hashmap_empty\<close> frees every entry and leaves a well-formed map without values, but keeps the
  old \<open>num_entry\<close>.
\<close>

lemma hashmap_empty_clears:
  assumes "hashmap_wf m"
  shows "\<exists>m'. hashmap_empty m = Inr m' \<and> hashmap_wf m' \<and> hashmap_vals m' = (\<lambda>k. []) \<and>
    num_entry m' = num_entry m"
proof -
  define m' where "m' = m\<lparr>buckets := map (\<lambda>hel. hel\<lparr>cells := [], vlen := 0, vroom := 0\<rparr>) (buckets m)\<rparr>"
  have drop: "drop (unat (bucketsize m)) (buckets m) = []"
    using assms by (simp add: hashmap_wf_def)
  then have "hashmap_empty m = Inr m'"
    using empty_buckets_ok hashmap_wf_buckets [OF assms] assms
    by (simp add: hashmap_empty_def m'_def)
  moreover have "buckets m' ! b = \<lparr>vlen = 0, vroom = 0, cells = []\<rparr>" if "b < 256" for b
    using that hashmap_wf_bucket(3) [OF assms] by (simp add: m'_def)
  then have "hashmap_wf m'" "hashmap_vals m' = (\<lambda>k. [])"
    using assms bucket_rep_reset
    by (auto simp: hashmap_wf_def hashmap_vals_def m'_def bucket_pairs_def assoc_vals_def)
  moreover have "num_entry m' = num_entry m" by (simp add: m'_def)
  ultimately show ?thesis by blast
qed

text \<open>A lookup in a map that has been destroyed reads freed memory.\<close>

lemma hashmap_get_destroyed: "buckets m = [] \<Longrightarrow> hashmap_get m key = Inl Out_Of_Bounds"
  by (simp add: hashmap_get_def arr_read_def)

end
