(* ===== verification/Permissions.thy ===== *)
theory Permissions
  imports Hashmap
begin

text \<open>
  The permission table of \<^verbatim>\<open>src/permissions.c\<close> with the levels of \<^verbatim>\<open>include/perms.h\<close>. The state
  is the hash map, the mutex and the 128-byte scratch buffer of \<open>permissions_get\<close>. A call on a
  taken mutex is \<open>Blocked\<close>; a call that faults or returns early leaves the mutex as the code
  leaves it, since the fault handler of the thread pool jumps out of the call. The lookup is shown to
  return the level of the most specific entry among the host and its prefixes followed by a star.
\<close>

section \<open>Definitions of the source\<close>

definition PERMS_OWNER :: int where "PERMS_OWNER = 99999"
definition PERMS_ADMIN :: int where "PERMS_ADMIN = 50000"
definition PERMS_OP :: int where "PERMS_OP = 40000"
definition PERMS_HOP :: int where "PERMS_HOP = 25000"
definition PERMS_TRUST :: int where "PERMS_TRUST = 6000"

lemmas perms_defs = PERMS_OWNER_def PERMS_ADMIN_def PERMS_OP_def PERMS_HOP_def PERMS_TRUST_def

record perm_state =
  perm_map :: hashmap
  perm_locked :: bool
  pbuf :: "char list"

text \<open>
  \<open>owner_host\<close> is the value of \<^verbatim>\<open>BOT_OWNER_HOST\<close>. The result -1 reports a failed allocation of the
  map.
\<close>

definition permissions_init ::
    "bool \<Rightarrow> bool \<Rightarrow> bool \<Rightarrow> string option \<Rightarrow> perm_state \<Rightarrow> perm_state \<times> (fault + int)" where
  "permissions_init calloc_ok realloc_ok strdup_ok owner_host st =
     (case hashmap_new calloc_ok of
        None \<Rightarrow> (st, Inr (-1))
      | Some m \<Rightarrow>
          (case owner_host of
             None \<Rightarrow> (st\<lparr>perm_map := m\<rparr>, Inr 0)
           | Some h \<Rightarrow>
               (case hashmap_put realloc_ok strdup_ok m h 100000 of
                  Inl f \<Rightarrow> (st\<lparr>perm_map := m\<rparr>, Inl f)
                | Inr m' \<Rightarrow> (st\<lparr>perm_map := m'\<rparr>, Inr 0))))"

definition permissions_set ::
    "bool \<Rightarrow> bool \<Rightarrow> perm_state \<Rightarrow> string \<Rightarrow> int \<Rightarrow> perm_state \<times> (fault + unit)" where
  "permissions_set realloc_ok strdup_ok st host level =
     (if perm_locked st then (st, Inl Blocked)
      else
        (case and_then (hashmap_get (perm_map st) host)
                (\<lambda>p. and_then
                   (if p \<noteq> 0 then and_then (hashmap_remove (perm_map st) host) (\<lambda>(m, _). Inr m)
                    else Inr (perm_map st))
                   (\<lambda>m. hashmap_put realloc_ok strdup_ok m host level)) of
           Inl f \<Rightarrow> (st\<lparr>perm_locked := True\<rparr>, Inl f)
         | Inr m \<Rightarrow> (st\<lparr>perm_map := m, perm_locked := False\<rparr>, Inr ())))"

text \<open>
  The loop of \<open>permissions_get\<close>: look the buffer up; while there is no level and \<open>len\<close> is not
  negative, put a star at \<open>len\<close>, end the string behind it and go one to the left.
\<close>

function permissions_scan :: "hashmap \<Rightarrow> char list \<Rightarrow> int \<Rightarrow> fault + char list \<times> int" where
  "permissions_scan m buf len =
     and_then (c_string_at buf 0)
       (\<lambda>s. and_then (hashmap_get m s)
          (\<lambda>perm.
             if perm = 0 \<and> len \<ge> 0 then
               and_then (arr_write buf len (CHR ''*''))
                 (\<lambda>buf. and_then (arr_write buf (len + 1) NUL)
                    (\<lambda>buf. permissions_scan m buf (len - 1)))
             else Inr (buf, perm)))"
  by pat_completeness auto
termination
  by (relation "measure (\<lambda>(m, buf, len). nat (len + 1))") auto

declare permissions_scan.simps [simp del]

text \<open>A host of \<open>None\<close> is a null pointer, which \<open>strlen\<close> dereferences after the lock is taken.\<close>

definition permissions_get :: "perm_state \<Rightarrow> string option \<Rightarrow> perm_state \<times> (fault + int)" where
  "permissions_get st host =
     (if perm_locked st then (st, Inl Blocked)
      else
        let st1 = st\<lparr>perm_locked := True\<rparr> in
        (case host of
           None \<Rightarrow> (st1, Inl Null_Pointer)
         | Some h \<Rightarrow>
             if length h > 128 then (st1, Inr 0)
             else
               (case and_then (arr_blit (pbuf st) 0 (h @ [NUL]))
                       (\<lambda>buf. permissions_scan (perm_map st) buf (int (length h))) of
                  Inl f \<Rightarrow> (st1, Inl f)
                | Inr (buf, perm) \<Rightarrow> (st1\<lparr>pbuf := buf, perm_locked := False\<rparr>, Inr perm))))"

section \<open>What the table means\<close>

text \<open>
  The level stored for a key (0 where there is none), the keys tried for a host, in order, and the
  level of a host: the first non-zero one among them.
\<close>

definition stored_level :: "hashmap \<Rightarrow> string \<Rightarrow> int" where
  "stored_level m k = (case hashmap_vals m k of [] \<Rightarrow> 0 | v # _ \<Rightarrow> v)"

definition star :: "nat \<Rightarrow> string \<Rightarrow> string" where
  "star n h = take n h @ ''*''"

definition candidates :: "string \<Rightarrow> string list" where
  "candidates h = h # map (\<lambda>n. star n h) (rev [0..<Suc (length h)])"

definition first_level :: "hashmap \<Rightarrow> string list \<Rightarrow> int" where
  "first_level m ks = (case filter (\<lambda>k. stored_level m k \<noteq> 0) ks of [] \<Rightarrow> 0 | k # _ \<Rightarrow> stored_level m k)"

definition level_of :: "hashmap \<Rightarrow> string \<Rightarrow> int" where
  "level_of m h = first_level m (candidates h)"

lemma first_level_simps [simp]:
  "first_level m [] = 0"
  "first_level m (k # ks) = (if stored_level m k \<noteq> 0 then stored_level m k else first_level m ks)"
  by (simp_all add: first_level_def)

lemma hashmap_get_stored: "hashmap_wf m \<Longrightarrow> hashmap_get m k = Inr (stored_level m k)"
  by (simp add: hm.get_law stored_level_def)

text \<open>
  The state between calls: a well-formed map in which a key with a non-zero level has one entry
  only, the mutex free, the buffer of 128 bytes.
\<close>

definition perm_ok :: "perm_state \<Rightarrow> bool" where
  "perm_ok st \<longleftrightarrow> hashmap_wf (perm_map st) \<and> \<not> perm_locked st \<and> length (pbuf st) = 128 \<and>
     (\<forall>k v vs. hashmap_vals (perm_map st) k = v # vs \<longrightarrow> v \<noteq> 0 \<longrightarrow> vs = [])"

section \<open>The lookup loop\<close>

lemma star_c_str: "c_str h \<Longrightarrow> c_str (star n h)"
  by (simp add: star_def c_str_take)

lemma scan_step:
  assumes "hashmap_wf m" and "c_string_at buf 0 = Inr s"
  shows "permissions_scan m buf len =
    (if stored_level m s = 0 \<and> len \<ge> 0
     then and_then (arr_write buf len (CHR ''*''))
       (\<lambda>buf. and_then (arr_write buf (len + 1) NUL) (\<lambda>buf. permissions_scan m buf (len - 1)))
     else Inr (buf, stored_level m s))"
  using assms by (subst permissions_scan.simps) (simp add: hashmap_get_stored)

text \<open>Writing the star at position \<open>k\<close> of a buffer that starts with \<open>k\<close> characters of the host.\<close>

lemma star_write:
  assumes "length pre = k" and "2 \<le> length rest"
  shows "\<exists>rest'. and_then (arr_write (pre @ rest) (int k) (CHR ''*''))
      (\<lambda>buf. arr_write buf (int k + 1) NUL) = Inr (pre @ CHR ''*'' # NUL # rest') \<and>
    length rest' + 2 = length rest"
proof -
  obtain a b rest' where rest: "rest = a # b # rest'"
    using assms(2) by (metis Suc_le_length_iff numeral_2_eq_2)
  have "nat (int k + 1) = Suc k" by simp
  then have "and_then (arr_write (pre @ rest) (int k) (CHR ''*''))
      (\<lambda>buf. arr_write buf (int k + 1) NUL) = Inr (pre @ CHR ''*'' # NUL # rest')"
    using assms(1) by (simp add: rest list_update_append)
  with rest show ?thesis by auto
qed

lemma and_then_assoc: "and_then (and_then r f) g = and_then r (\<lambda>x. and_then (f x) g)"
  by (cases r) auto

lemma scan_stars:
  assumes wf: "hashmap_wf m" and h: "c_str h"
  shows "k \<le> length h \<Longrightarrow> \<exists>buf. length buf = k + 2 + length rest \<and>
    permissions_scan m (star k h @ NUL # rest) (int k - 1) =
    Inr (buf, first_level m (map (\<lambda>n. star n h) (rev [0..<Suc k])))"
proof (induction k arbitrary: rest)
  case 0
  have "c_string_at (star 0 h @ NUL # rest) 0 = Inr (star 0 h)"
    using h by (intro c_string_at_0 star_c_str)
  then show ?case
    by (simp add: scan_step [OF wf]) (simp add: star_def)
next
  case (Suc k)
  have s: "c_string_at (star (Suc k) h @ NUL # rest) 0 = Inr (star (Suc k) h)"
    using h by (intro c_string_at_0 star_c_str)
  show ?case
  proof (cases "stored_level m (star (Suc k) h) = 0")
    case False
    then show ?thesis
      using Suc.prems by (simp add: scan_step [OF wf s]) (simp add: star_def min_absorb2)
  next
    case True
    have split: "star (Suc k) h @ NUL # rest = take k h @ [h ! k, CHR ''*'', NUL] @ rest"
      using Suc.prems by (simp add: star_def take_Suc_conv_app_nth)
    obtain rest' where w: "and_then (arr_write (star (Suc k) h @ NUL # rest) (int k) (CHR ''*''))
        (\<lambda>buf. arr_write buf (int k + 1) NUL) = Inr (take k h @ CHR ''*'' # NUL # rest')"
      and len: "length rest' + 2 = length rest + 3"
      using star_write [of "take k h" k "[h ! k, CHR ''*'', NUL] @ rest"] Suc.prems
      unfolding split by auto
    have "permissions_scan m (star (Suc k) h @ NUL # rest) (int (Suc k) - 1) =
        permissions_scan m (star k h @ NUL # rest') (int k - 1)"
      using True w by (simp add: scan_step [OF wf s] and_then_assoc [symmetric]) (simp add: star_def)
    moreover obtain buf where "length buf = k + 2 + length rest'"
      "permissions_scan m (star k h @ NUL # rest') (int k - 1) =
       Inr (buf, first_level m (map (\<lambda>n. star n h) (rev [0..<Suc k])))"
      using Suc.IH [of rest'] Suc.prems by auto
    ultimately show ?thesis using True len by auto
  qed
qed

lemma scan_host:
  assumes wf: "hashmap_wf m" and h: "c_str h" and room: "rest \<noteq> []"
  shows "\<exists>buf. length buf = length h + 1 + length rest \<and>
    permissions_scan m (h @ NUL # rest) (int (length h)) = Inr (buf, level_of m h)"
proof -
  have s: "c_string_at (h @ NUL # rest) 0 = Inr h" using h by (rule c_string_at_0)
  show ?thesis
  proof (cases "stored_level m h = 0")
    case False
    then show ?thesis by (simp add: scan_step [OF wf s] level_of_def candidates_def)
  next
    case True
    obtain rest' where w: "and_then (arr_write (h @ NUL # rest) (int (length h)) (CHR ''*''))
        (\<lambda>buf. arr_write buf (int (length h) + 1) NUL) = Inr (h @ CHR ''*'' # NUL # rest')"
      and len: "length rest' + 2 = Suc (length rest)"
      using star_write [of h "length h" "NUL # rest"] room by (cases rest) auto
    have "permissions_scan m (h @ NUL # rest) (int (length h)) =
        permissions_scan m (star (length h) h @ NUL # rest') (int (length h) - 1)"
      using True w by (simp add: scan_step [OF wf s] and_then_assoc [symmetric]) (simp add: star_def)
    with scan_stars [OF wf h, of "length h" rest'] True len show ?thesis
      by (auto simp: level_of_def candidates_def)
  qed
qed

lemma permissions_get_ok:
  assumes ok: "perm_ok st" and h: "c_str h" and len: "length h \<le> 126"
  shows "\<exists>st'. permissions_get st (Some h) = (st', Inr (level_of (perm_map st) h)) \<and>
    perm_ok st' \<and> perm_map st' = perm_map st"
proof -
  have wf: "hashmap_wf (perm_map st)" and l: "length (pbuf st) = 128" and free: "\<not> perm_locked st"
    using ok by (auto simp: perm_ok_def)
  have blit: "arr_blit (pbuf st) 0 (h @ [NUL]) = Inr (h @ NUL # drop (Suc (length h)) (pbuf st))"
    using l len by (simp add: arr_blit_ok)
  obtain buf where "length buf = 128"
    "permissions_scan (perm_map st) (h @ NUL # drop (Suc (length h)) (pbuf st)) (int (length h))
     = Inr (buf, level_of (perm_map st) h)"
    using scan_host [OF wf h, of "drop (Suc (length h)) (pbuf st)"] l len by auto
  with blit free len ok show ?thesis
    by (auto simp: permissions_get_def perm_ok_def)
qed

section \<open>Setting a level\<close>

lemma permissions_set_ok:
  assumes ok: "perm_ok st" and put: "put_room (perm_map st) h"
    and room: "stored_level (perm_map st) h \<noteq> 0 \<longrightarrow> remove_room (perm_map st) h"
  shows "\<exists>st'. permissions_set True True st h level = (st', Inr ()) \<and> perm_ok st' \<and>
    hashmap_vals (perm_map st') = (hashmap_vals (perm_map st))(h :=
      (if stored_level (perm_map st) h = 0 then hashmap_vals (perm_map st) h else []) @ [level])"
proof -
  let ?m = "perm_map st"
  have wf: "hashmap_wf ?m" and free: "\<not> perm_locked st"
    and single: "\<And>k v vs. hashmap_vals ?m k = v # vs \<Longrightarrow> v \<noteq> 0 \<Longrightarrow> vs = []"
    using ok by (auto simp: perm_ok_def)
  have rr: "hashmap_vals ?m h \<noteq> [] \<Longrightarrow> hd (hashmap_vals ?m h) \<noteq> 0 \<Longrightarrow> remove_room ?m h"
    using room by (cases "hashmap_vals ?m h") (simp_all add: stored_level_def)
  from hm.set_law [where v = level, OF wf put rr] obtain m' where
    run: "and_then (hashmap_get ?m h)
      (\<lambda>p. and_then (if p \<noteq> 0 then and_then (hashmap_remove ?m h) (\<lambda>(m, _). Inr m) else Inr ?m)
        (\<lambda>m. hashmap_put True True m h level)) = Inr m'" and wf': "hashmap_wf m'"
    and vals': "hashmap_vals m' = (hashmap_vals ?m)(h := (case hashmap_vals ?m h of [] \<Rightarrow> [level]
      | u # us \<Rightarrow> if u \<noteq> 0 then us @ [level] else u # us @ [level]))"
    by auto
  have vals: "hashmap_vals m' = (hashmap_vals ?m)(h :=
      (if stored_level ?m h = 0 then hashmap_vals ?m h else []) @ [level])"
    using single by (auto simp: vals' stored_level_def fun_eq_iff split: list.splits)
  have "vs = []" if "hashmap_vals m' k = v # vs" "v \<noteq> 0" for k v vs
    using that single [of k v vs]
    by (auto simp: vals stored_level_def split: if_splits list.splits)
  then show ?thesis
    using run wf' vals ok free by (auto simp: permissions_set_def perm_ok_def)
qed

lemma stored_level_set:
  assumes "hashmap_vals m' = (hashmap_vals m)(h := (if stored_level m h = 0 then hashmap_vals m h else []) @ [level])"
  shows "stored_level m' k = (if k = h \<and> (hashmap_vals m h = [] \<or> stored_level m h \<noteq> 0) then level
    else stored_level m k)"
  using assms by (auto simp: stored_level_def split: list.splits)

section \<open>Properties of the permission table\<close>

text \<open>
  C3: for a host of at most 126 bytes \<open>permissions_get\<close> returns the level of the most specific
  entry: the host itself, else its longest prefix stored with a star behind it, else 0. It
  releases the mutex and does not change the table, and none of its buffer accesses is out of
  bounds.
\<close>

theorem permissions_get_most_specific:
  assumes "perm_ok st" and "c_str h" and "length h \<le> 126"
  shows "\<exists>st'. permissions_get st (Some h) = (st', Inr (level_of (perm_map st) h)) \<and>
    perm_ok st' \<and> perm_map st' = perm_map st"
  using assms by (rule permissions_get_ok)

definition perm_state_of :: "hashmap \<Rightarrow> perm_state" where
  "perm_state_of m = \<lparr>perm_map = m, perm_locked = False, pbuf = replicate 128 NUL\<rparr>"

lemma one_entry:
  "\<exists>m. hashmap_put True True empty_map k v = Inr m \<and> hashmap_wf m \<and> put_room m k \<and> remove_room m k \<and>
    hashmap_vals m = (\<lambda>_. [])(k := [v]) \<and> perm_ok (perm_state_of m)"
proof -
  obtain m where "hashmap_put True True empty_map k v = Inr m" "hashmap_wf m"
      "hashmap_vals m = (\<lambda>_. [])(k := [v])"
    using hashmap_put_vals [OF empty_map_wf(1) empty_map_put_room, of k v] by (auto simp: empty_map_wf(2))
  moreover from this put_one [of k v] have "put_room m k" "remove_room m k"
    by (auto simp: put_room_def remove_room_def)
  moreover from calculation have "perm_ok (perm_state_of m)"
    by (auto simp: perm_ok_def perm_state_of_def fun_upd_def split: if_splits)
  ultimately show ?thesis by blast
qed

text \<open>A host and a pattern that differ in one character lie in different buckets.\<close>

lemma put_fresh:
  assumes "hashmap_wf m" and "buckets m ! crc8_key k = \<lparr>vlen = 0, vroom = 0, cells = []\<rparr>"
    and "hashmap_put True True m k v = Inr m'"
  shows "put_room m' k \<and> remove_room m' k"
proof -
  have "buckets m' ! crc8_key k = \<lparr>vlen = 1, vroom = 4, cells = [Some \<lparr>ent_key = Some k, ent_value = v\<rparr>, None, None, None]\<rparr>"
    using assms hashmap_wf_bucket(3) [OF assms(1)]
    by (auto simp: hashmap_put_def hashmap_wf_bucket hashmap_append_def Let_def realloc_four [simplified] set_bucket_def)
  then show ?thesis by (simp add: put_room_def remove_room_def)
qed

lemma two_entries:
  assumes "crc8_key k \<noteq> crc8_key k'"
  shows "\<exists>m. hashmap_vals m = (\<lambda>_. [])(k := [v], k' := [v']) \<and> put_room m k' \<and> remove_room m k' \<and>
    perm_ok (perm_state_of m)"
proof -
  obtain m1 where m1: "hashmap_put True True empty_map k v = Inr m1" "hashmap_wf m1"
      "hashmap_vals m1 = (\<lambda>_. [])(k := [v])"
    using one_entry [of k v] by blast
  have fresh: "buckets m1 ! crc8_key k' = \<lparr>vlen = 0, vroom = 0, cells = []\<rparr>"
    using m1(1) assms by (auto simp: put_one one_bucket_def set_bucket_def)
  then have room: "put_room m1 k'" by (simp add: put_room_def)
  obtain m where m: "hashmap_put True True m1 k' v' = Inr m" "hashmap_wf m"
      "hashmap_vals m = (hashmap_vals m1)(k' := hashmap_vals m1 k' @ [v'])"
    using hashmap_put_vals [OF m1(2) room, of v'] by blast
  moreover have "k \<noteq> k'" using assms by auto
  ultimately have vals: "hashmap_vals m = (\<lambda>_. [])(k := [v], k' := [v'])" using m1(3) by simp
  then have "perm_ok (perm_state_of m)"
    using m(2) by (auto simp: perm_ok_def perm_state_of_def fun_upd_def split: if_splits)
  with vals put_fresh [OF m1(2) fresh m(1)] show ?thesis by blast
qed

theorem permissions_get_most_specific_witness:
  "\<exists>st st'. permissions_get st (Some ''user.example'') = (st', Inr 40000) \<and>
    hashmap_vals (perm_map st) ''user*'' = [40000]"
proof -
  obtain m where m: "hashmap_vals m = (\<lambda>_. [])(''user*'' := [40000])" "perm_ok (perm_state_of m)"
    using one_entry [of "''user*''" 40000] by blast
  have "c_str ''user.example''" "length ''user.example'' \<le> 126" by simp_all
  from permissions_get_most_specific [OF m(2) this] obtain st' where
    "permissions_get (perm_state_of m) (Some ''user.example'') = (st', Inr (level_of m ''user.example''))"
    by (auto simp: perm_state_of_def)
  moreover have "level_of m ''user.example'' = 40000"
    by (simp add: level_of_def candidates_def stored_level_def m star_def upt_rec)
  ultimately show ?thesis using m(1)
    by (intro exI [of _ "perm_state_of m"] exI [of _ st']) (simp add: perm_state_of_def)
qed

text \<open>
  C10: \<open>permissions_set\<close> with a non-zero level, on a host that is not in the table or has a
  non-zero level: the host gets the level, no other entry changes, and \<open>permissions_get\<close> then
  returns it.
\<close>

theorem permissions_set_then_get:
  assumes ok: "perm_ok st" and put: "put_room (perm_map st) h"
    and room: "stored_level (perm_map st) h \<noteq> 0 \<longrightarrow> remove_room (perm_map st) h"
    and old: "hashmap_vals (perm_map st) h = [] \<or> stored_level (perm_map st) h \<noteq> 0"
    and h: "c_str h" "length h \<le> 126" and level: "level \<noteq> 0"
  shows "\<exists>st' st''. permissions_set True True st h level = (st', Inr ()) \<and> perm_ok st' \<and>
    (\<forall>k. stored_level (perm_map st') k = (if k = h then level else stored_level (perm_map st) k)) \<and>
    permissions_get st' (Some h) = (st'', Inr level)"
proof -
  obtain st' where st': "permissions_set True True st h level = (st', Inr ())" "perm_ok st'"
    and vals: "hashmap_vals (perm_map st') = (hashmap_vals (perm_map st))(h :=
      (if stored_level (perm_map st) h = 0 then hashmap_vals (perm_map st) h else []) @ [level])"
    using permissions_set_ok [OF ok put room] by blast
  have stored: "\<forall>k. stored_level (perm_map st') k = (if k = h then level else stored_level (perm_map st) k)"
    using stored_level_set [OF vals] old by auto
  then have "level_of (perm_map st') h = level"
    using level by (simp add: level_of_def candidates_def)
  with permissions_get_ok [OF st'(2) h] st' stored show ?thesis by auto
qed

theorem permissions_set_then_get_witness:
  "\<exists>st st' st''. permissions_set True True st ''trusted.host'' 6000 = (st', Inr ()) \<and>
    permissions_get st' (Some ''trusted.host'') = (st'', Inr 6000)"
proof -
  let ?st = "perm_state_of empty_map"
  have ok: "perm_ok ?st" by (simp add: perm_ok_def perm_state_of_def empty_map_wf)
  have put: "put_room (perm_map ?st) ''trusted.host''"
    by (simp add: perm_state_of_def empty_map_put_room)
  have none: "hashmap_vals (perm_map ?st) ''trusted.host'' = []"
    by (simp add: perm_state_of_def empty_map_wf)
  have h: "c_str ''trusted.host''" "length ''trusted.host'' \<le> 126" by simp_all
  from permissions_set_then_get [OF ok put _ _ h, of 6000] none show ?thesis
    by (auto simp: stored_level_def)
qed

text \<open>
  level 0 is a trap. Once the oldest entry of a host has level 0, every later
  \<open>permissions_set\<close> of that host succeeds and changes the level of no host at all.
\<close>

lemma permissions_set_after_zero_has_no_effect:
  assumes ok: "perm_ok st" and put: "put_room (perm_map st) h"
    and zero: "hashmap_vals (perm_map st) h = 0 # vs"
  shows "\<exists>st' ws. permissions_set True True st h level = (st', Inr ()) \<and> perm_ok st' \<and>
    hashmap_vals (perm_map st') h = 0 # ws \<and> (\<forall>k. level_of (perm_map st') k = level_of (perm_map st) k)"
proof -
  have s0: "stored_level (perm_map st) h = 0" using zero by (simp add: stored_level_def)
  then obtain st' where st': "permissions_set True True st h level = (st', Inr ())" "perm_ok st'"
    and vals: "hashmap_vals (perm_map st') = (hashmap_vals (perm_map st))(h :=
      (if stored_level (perm_map st) h = 0 then hashmap_vals (perm_map st) h else []) @ [level])"
    using permissions_set_ok [OF ok put, of level] by blast
  have sl: "stored_level (perm_map st') k = stored_level (perm_map st) k" for k
    using stored_level_set [OF vals] s0 zero by auto
  have "level_of (perm_map st') k = level_of (perm_map st) k" for k
    by (simp add: level_of_def first_level_def sl split: list.split)
  moreover have "hashmap_vals (perm_map st') h = 0 # vs @ [level]"
    using vals s0 zero by simp
  ultimately show ?thesis using st' by blast
qed

text \<open>
  C32: a lookup for a host of more than 128 bytes, or for a null host (a sender without an at
  sign), ends with the mutex taken: the first returns 0, the second faults, and after either every
  call of \<open>permissions_get\<close> and \<open>permissions_set\<close> blocks for ever.
\<close>

theorem permissions_get_leaks_mutex:
  assumes free: "\<not> perm_locked st" and host: "\<forall>h. host = Some h \<longrightarrow> 128 < length h"
  shows "\<exists>st'. permissions_get st host = (st', if host = None then Inl Null_Pointer else Inr 0) \<and>
    (\<forall>g. permissions_get st' g = (st', Inl Blocked)) \<and>
    (\<forall>a b h level. permissions_set a b st' h level = (st', Inl Blocked))"
  using assms by (cases host) (auto simp: permissions_get_def permissions_set_def Let_def)

theorem permissions_get_leaks_mutex_witness:
  "\<exists>st st'. permissions_get st (Some (replicate 129 (CHR ''a''))) = (st', Inr 0) \<and>
    permissions_get st' (Some ''owner.host'') = (st', Inl Blocked)"
proof -
  have "\<not> perm_locked (perm_state_of empty_map)" by (simp add: perm_state_of_def)
  moreover have "\<forall>h. Some (replicate 129 (CHR ''a'')) = Some h \<longrightarrow> 128 < length h" by auto
  ultimately show ?thesis
    using permissions_get_leaks_mutex [of "perm_state_of empty_map" "Some (replicate 129 (CHR ''a''))"]
    by (simp del: replicate.simps) blast
qed

text \<open>
  C39: the length check of \<open>permissions_get\<close> lets hosts through that do not fit its 128-byte
  buffer: a host of 128 bytes overflows it in the copy, one of 127 bytes without an entry of its own
  in the search loop.
\<close>

theorem permissions_get_buffer_overflow:
  assumes ok: "perm_ok st" and h: "c_str h"
    and len: "length h = 128 \<or> length h = 127 \<and> stored_level (perm_map st) h = 0"
  shows "snd (permissions_get st (Some h)) = Inl Out_Of_Bounds"
proof (cases "length h = 128")
  case True
  then show ?thesis using ok by (simp add: permissions_get_def perm_ok_def Let_def arr_blit_def)
next
  case False
  with len have l: "length h = 127" and s0: "stored_level (perm_map st) h = 0" by auto
  have wf: "hashmap_wf (perm_map st)" and b: "length (pbuf st) = 128" and free: "\<not> perm_locked st"
    using ok by (auto simp: perm_ok_def)
  have blit: "arr_blit (pbuf st) 0 (h @ [NUL]) = Inr (h @ [NUL])"
    using b l by (simp add: arr_blit_ok)
  have "c_string_at (h @ [NUL]) 0 = Inr h" using h by (rule c_string_at_0)
  then have "permissions_scan (perm_map st) (h @ [NUL]) 127 = Inl Out_Of_Bounds"
    using s0 l by (simp add: scan_step [OF wf])
  with blit l free show ?thesis by (simp add: permissions_get_def Let_def)
qed

theorem permissions_get_buffer_overflow_witness:
  "snd (permissions_get (perm_state_of empty_map) (Some (replicate 127 (CHR ''a'')))) = Inl Out_Of_Bounds"
proof -
  have ok: "perm_ok (perm_state_of empty_map)" by (simp add: perm_ok_def perm_state_of_def empty_map_wf)
  have "c_str (replicate 127 (CHR ''a''))" by (simp add: c_str_def)
  from permissions_get_buffer_overflow [OF ok this] show ?thesis
    by (simp add: stored_level_def perm_state_of_def empty_map_wf)
qed

text \<open>
  after \<open>permissions_init\<close> the hosts that match the owner pattern have level 100000, above
  every other level of the program, and all others level 0; without an owner nobody has a level.
\<close>

lemma permissions_init_owner_only:
  "\<exists>st'. permissions_init True True True owner_host st = (st', Inr 0) \<and>
    (\<forall>h. level_of (perm_map st') h = (if owner_host \<in> Some ` set (candidates h) then 100000 else 0)) \<and>
    PERMS_OWNER < 100000 \<and> (\<not> perm_locked st \<longrightarrow> length (pbuf st) = 128 \<longrightarrow> perm_ok st')"
proof (cases owner_host)
  case None
  then show ?thesis
    by (auto simp: permissions_init_def empty_map_new level_of_def first_level_def stored_level_def
        empty_map_wf perms_defs perm_ok_def)
next
  case (Some ow)
  obtain m where m: "hashmap_put True True empty_map ow 100000 = Inr m" "hashmap_wf m"
      "hashmap_vals m = (\<lambda>_. [])(ow := [100000])"
    using one_entry [of ow 100000] by blast
  have "first_level m ks = (if ow \<in> set ks then 100000 else 0)" for ks
    by (induction ks) (auto simp: stored_level_def m(3))
  with m Some show ?thesis
    by (auto simp: permissions_init_def empty_map_new level_of_def perms_defs perm_ok_def)
qed

end
