(* ===== verification/Command_Tree.thy ===== *)
theory Command_Tree
  imports Bot_Prelude
begin

text \<open>
  The command table of \<^verbatim>\<open>src/modules.c\<close>: a 26-way tree of handlers indexed by the letters of a
  command name, its registration, removal and cleaning, and \<open>modules_check_cmd\<close>, which finds the
  command of a message and hands it to the thread pool. A handler is a value of any type \<open>'h\<close>.
  Both letter cases index the same child, so a table is a partial function of the name's letters;
  \<open>cmd_lookup\<close> is that function, and the locale \<open>command_table\<close> states what modules rely on when
  they register and unregister their commands.
\<close>

section \<open>Definitions of the source\<close>

datatype 'h command_tree =
  Command_Tree (handler: "'h option") (children: "'h command_tree option list")

definition new_node :: "'h command_tree" where
  "new_node = Command_Tree None (replicate 26 None)"

text \<open>
  The child index of a character: upper case is moved to lower case, everything else that is
  not a lower-case letter is invalid. (Bytes from 128 are negative as \<open>char\<close> and invalid too.)
\<close>

definition child_index :: "char \<Rightarrow> nat option" where
  "child_index c =
     (let real = (of_char c :: nat)
      in if real \<ge> 65 \<and> real \<le> 90 then Some (real + 32 - 97)
         else if real < 97 \<or> real > 122 then None
         else Some (real - 97))"

text \<open>\<open>mem\<close> bounds how many nodes \<open>calloc\<close> can still give; the result is the return code.\<close>

fun modules_register_cmd ::
    "nat \<Rightarrow> 'h command_tree \<Rightarrow> string \<Rightarrow> 'h \<Rightarrow> 'h command_tree \<times> int" where
  "modules_register_cmd mem (Command_Tree own ch) [] h = (Command_Tree (Some h) ch, 0)"
| "modules_register_cmd mem (Command_Tree own ch) (c # cmdname) h =
     (case child_index c of
        None \<Rightarrow> (Command_Tree own ch, -1)
      | Some real \<Rightarrow>
          (case ch ! real of
             Some ptr \<Rightarrow>
               (let (ptr', r) = modules_register_cmd mem ptr cmdname h
                in (Command_Tree own (ch[real := Some ptr']), r))
           | None \<Rightarrow>
               (case mem of
                  0 \<Rightarrow> (Command_Tree own ch, -2)
                | Suc mem' \<Rightarrow>
                    (let (ptr', r) = modules_register_cmd mem' new_node cmdname h
                     in (Command_Tree own (ch[real := Some ptr']), r)))))"

fun modules_unregister_cmd :: "'h command_tree \<Rightarrow> string \<Rightarrow> 'h command_tree \<times> int" where
  "modules_unregister_cmd (Command_Tree own ch) [] = (Command_Tree None ch, 0)"
| "modules_unregister_cmd (Command_Tree own ch) (c # cmdname) =
     (case child_index c of
        None \<Rightarrow> (Command_Tree own ch, -1)
      | Some real \<Rightarrow>
          (case ch ! real of
             None \<Rightarrow> (Command_Tree own ch, -3)
           | Some ptr \<Rightarrow>
               (let (ptr', r) = modules_unregister_cmd ptr cmdname
                in (Command_Tree own (ch[real := Some ptr']), r))))"

text \<open>
  \<open>modules_cmds_clean\<close> with the number of nodes it frees: every child is cleaned, freed and set to
  NULL; the handler of the root is left alone.
\<close>

lemma size_child [termination_simp]:
  "Some t \<in> set ch \<Longrightarrow> size t < Suc (size_list (size_option size) ch)"
proof (induction ch)
  case (Cons a ch)
  then show ?case by (cases "a = Some t") auto
qed simp

fun modules_cmds_clean :: "'h command_tree \<Rightarrow> 'h command_tree \<times> nat" where
  "modules_cmds_clean (Command_Tree own ch) =
     (Command_Tree own (map (\<lambda>_. None) ch),
      sum_list (map (\<lambda>c. case c of None \<Rightarrow> 0 | Some t \<Rightarrow> Suc (snd (modules_cmds_clean t))) ch))"

record 'h queued_cmd =
  q_handler :: 'h
  q_cmdname :: string
  q_from :: string
  q_where :: string
  q_args :: string

text \<open>
  The walk of \<open>modules_check_cmd\<close>: the handler found, the length of the command name, and the text
  that becomes the arguments (empty at the end of the message, else what follows the space).
\<close>

fun command_walk :: "'h command_tree option \<Rightarrow> string \<Rightarrow> nat \<Rightarrow> ('h \<times> nat \<times> string) option" where
  "command_walk None message n = None"
| "command_walk (Some ptr) [] n = map_option (\<lambda>h. (h, n, [])) (handler ptr)"
| "command_walk (Some ptr) (real # message) n =
     (if real = CHR '' '' then map_option (\<lambda>h. (h, n, message)) (handler ptr)
      else (case child_index real of
              None \<Rightarrow> None
            | Some i \<Rightarrow> command_walk (children ptr ! i) message (Suc n)))"

definition modules_check_cmd ::
    "string \<Rightarrow> 'h command_tree \<Rightarrow> string \<Rightarrow> string \<Rightarrow> string \<Rightarrow> 'h queued_cmd option" where
  "modules_check_cmd cmdprefix cmds from where' message =
     (let cmdprefix_len = length cmdprefix; message_len = length message; i = 0 in
      if cmdprefix_len + 1 > message_len then None
      else if \<not> strncmp_eq message cmdprefix then None
      else
        let message_orig = drop (i + 1) message in
        map_option
          (\<lambda>(h, n, args). \<lparr>q_handler = h, q_cmdname = take n message_orig, q_from = from,
                          q_where = where', q_args = args\<rparr>)
          (command_walk (Some cmds) message_orig 0))"

section \<open>A table as a partial function of names\<close>

fun name_path :: "string \<Rightarrow> nat list option" where
  "name_path [] = Some []"
| "name_path (c # cs) =
     (case child_index c of None \<Rightarrow> None | Some i \<Rightarrow> map_option (Cons i) (name_path cs))"

fun path_lookup :: "'h command_tree \<Rightarrow> nat list \<Rightarrow> 'h option" where
  "path_lookup t [] = handler t"
| "path_lookup t (i # p) = (case children t ! i of None \<Rightarrow> None | Some t' \<Rightarrow> path_lookup t' p)"

definition cmd_lookup :: "'h command_tree \<Rightarrow> string \<Rightarrow> 'h option" where
  "cmd_lookup t name = (case name_path name of None \<Rightarrow> None | Some p \<Rightarrow> path_lookup t p)"

text \<open>Every node has its 26 child pointers.\<close>

inductive tree_wf :: "'h command_tree \<Rightarrow> bool" where
  node: "length ch = 26 \<Longrightarrow> (\<And>t. Some t \<in> set ch \<Longrightarrow> tree_wf t) \<Longrightarrow> tree_wf (Command_Tree h ch)"

inductive_simps tree_wf_node: "tree_wf (Command_Tree h ch)"

lemma child_index_less: "child_index c = Some i \<Longrightarrow> i < 26"
  by (auto simp: child_index_def Let_def split: if_splits)

lemma name_path_less: "name_path name = Some p \<Longrightarrow> i \<in> set p \<Longrightarrow> i < 26"
  by (induction name arbitrary: p)
    (auto split: option.splits dest: child_index_less)

lemma tree_wf_new_node [simp]: "tree_wf new_node"
  unfolding new_node_def by (rule tree_wf.node) simp_all

lemma path_lookup_new_node:
  "(\<And>i. i \<in> set p \<Longrightarrow> i < 26) \<Longrightarrow> path_lookup new_node p = None"
  by (cases p) (simp_all add: new_node_def)

lemma tree_wf_child:
  "tree_wf (Command_Tree h ch) \<Longrightarrow> i < 26 \<Longrightarrow> ch ! i = Some t \<Longrightarrow> tree_wf t"
  unfolding tree_wf_node by (metis nth_mem)

lemma tree_wf_update:
  "tree_wf (Command_Tree h ch) \<Longrightarrow> tree_wf t \<Longrightarrow> tree_wf (Command_Tree h' (ch[i := Some t]))"
  unfolding tree_wf_node by (auto dest!: set_update_subset_insert [THEN subsetD])

lemma tree_wf_handler: "tree_wf (Command_Tree h ch) \<Longrightarrow> tree_wf (Command_Tree h' ch)"
  by (simp add: tree_wf_node)

section \<open>Registering and removing on paths\<close>

definition valid_path :: "nat list \<Rightarrow> bool" where
  "valid_path p \<longleftrightarrow> (\<forall>i \<in> set p. i < 26)"

lemma valid_path_simps [simp]:
  "valid_path []" "valid_path (i # p) \<longleftrightarrow> i < 26 \<and> valid_path p"
  by (auto simp: valid_path_def)

lemma name_path_valid: "name_path name = Some p \<Longrightarrow> valid_path p"
  unfolding valid_path_def by (blast dest: name_path_less)

lemma name_path_length: "name_path name = Some p \<Longrightarrow> length p = length name"
  by (induction name arbitrary: p) (auto split: option.splits)

lemma path_lookup_update:
  assumes "length ch = 26" and "valid_path q" and "i < 26"
  shows "path_lookup (Command_Tree own (ch[i := Some t])) q =
    (case q of [] \<Rightarrow> own | j # q' \<Rightarrow> if j = i then path_lookup t q' else path_lookup (Command_Tree own ch) q)"
  using assms by (cases q) auto

lemma path_lookup_new [simp]: "valid_path q \<Longrightarrow> path_lookup new_node q = None"
  by (rule path_lookup_new_node) (simp add: valid_path_def)

lemma cmd_lookup_new_node: "cmd_lookup new_node name = None"
  by (simp add: cmd_lookup_def name_path_valid split: option.split)

lemma register_path:
  assumes "tree_wf t" and "modules_register_cmd mem t name h = (t', r)"
  shows "tree_wf t'" and "valid_path q \<Longrightarrow>
    path_lookup t' q = (if r = 0 \<and> name_path name = Some q then Some h else path_lookup t q)"
proof -
  have "tree_wf t' \<and> (valid_path q \<longrightarrow>
    path_lookup t' q = (if r = 0 \<and> name_path name = Some q then Some h else path_lookup t q))"
    using assms
  proof (induction name arbitrary: mem t t' q)
    case Nil
    then obtain own ch where "t = Command_Tree own ch" by (cases t) auto
    with Nil show ?case by (auto intro: tree_wf_handler) (cases q; simp)+
  next
    case (Cons c name)
    then obtain own ch where t: "t = Command_Tree own ch" by (cases t) auto
    with Cons.prems have len: "length ch = 26" by (simp add: tree_wf_node)
    show ?case
    proof (cases "child_index c")
      case None
      with Cons.prems t show ?thesis by auto
    next
      case (Some i)
      then have i: "i < 26" by (rule child_index_less)
      define sub where "sub = (case ch ! i of Some s \<Rightarrow> s | None \<Rightarrow> new_node)"
      have sub: "tree_wf sub"
        using tree_wf_child [of own ch i] Cons.prems(1) t i by (auto simp: sub_def split: option.split)
      have old: "path_lookup (Command_Tree own ch) (i # p) = path_lookup sub p" if "valid_path p" for p
        using that by (auto simp: sub_def split: option.split)
      show ?thesis
      proof (cases "ch ! i = None \<and> mem = 0")
        case True
        with Cons.prems t Some show ?thesis by auto
      next
        case False
        with Cons.prems(2) t Some obtain m sub' where run:
            "modules_register_cmd m sub name h = (sub', r)" "t' = Command_Tree own (ch[i := Some sub'])"
          by (cases mem) (auto simp: sub_def split: option.splits prod.splits)
        note IH = Cons.IH [OF sub run(1)]
        have "tree_wf t'"
          unfolding run(2) using IH Cons.prems(1) t by (blast intro: tree_wf_update)
        moreover have "path_lookup t' q =
            (if r = 0 \<and> name_path (c # name) = Some q then Some h else path_lookup t q)" if "valid_path q"
          using that IH old Some
          by (auto simp: run(2) t path_lookup_update [OF len that i] split: list.splits)
        ultimately show ?thesis by blast
      qed
    qed
  qed
  then show "tree_wf t'" "valid_path q \<Longrightarrow>
    path_lookup t' q = (if r = 0 \<and> name_path name = Some q then Some h else path_lookup t q)"
    by blast+
qed

lemma register_result:
  assumes "modules_register_cmd mem t name h = (t', r)"
  shows "name_path name = None \<longrightarrow> r = -1 \<or> r = -2"
    and "name_path name \<noteq> None \<longrightarrow> r = 0 \<or> r = -2"
    and "length name \<le> mem \<longrightarrow> r \<noteq> -2"
  using assms
proof (induction mem t name h arbitrary: t' rule: modules_register_cmd.induct)
  case (2 mem own ch c cmdname h)
  {
    case 1 with 2 show ?case by (auto split: option.splits nat.splits prod.splits)
  next
    case 2 with "2.IH" show ?case by (auto split: option.splits nat.splits prod.splits)
  next
    case 3 with "2.IH" show ?case by (fastforce split: option.splits nat.splits prod.splits)
  }
qed auto

lemma unregister_path:
  assumes "tree_wf t" and "modules_unregister_cmd t name = (t', r)"
  shows "tree_wf t' \<and> (valid_path q \<longrightarrow>
    path_lookup t' q = (if name_path name = Some q then None else path_lookup t q))"
  using assms
proof (induction name arbitrary: t t' q)
  case Nil
  then obtain own ch where "t = Command_Tree own ch" by (cases t) auto
  with Nil show ?case by (auto intro: tree_wf_handler) (cases q; simp)+
next
  case (Cons c name)
  then obtain own ch where t: "t = Command_Tree own ch" by (cases t) auto
  with Cons.prems have len: "length ch = 26" by (simp add: tree_wf_node)
  show ?case
  proof (cases "child_index c")
    case None
    with Cons.prems t show ?thesis by auto
  next
    case (Some i)
    then have i: "i < 26" by (rule child_index_less)
    show ?thesis
    proof (cases "ch ! i")
      case None
      with Cons.prems t Some show ?thesis by auto
    next
      case ch: (Some sub)
      with Cons.prems(2) t Some obtain sub' where run:
          "modules_unregister_cmd sub name = (sub', r)" "t' = Command_Tree own (ch[i := Some sub'])"
        by (auto split: prod.splits)
      have "tree_wf sub" using tree_wf_child Cons.prems(1) t i ch by blast
      note IH = Cons.IH [OF this run(1)]
      have "tree_wf t'"
        unfolding run(2) using IH Cons.prems(1) t by (blast intro: tree_wf_update)
      moreover have "path_lookup t' q =
          (if name_path (c # name) = Some q then None else path_lookup t q)" if "valid_path q"
        using that IH ch Some
        by (auto simp: run(2) t path_lookup_update [OF len that i] split: list.splits)
      ultimately show ?thesis by blast
    qed
  qed
qed

section \<open>The interface to modules\<close>

text \<open>
  A module's \<open>module_init\<close> adds up the results of registering its commands, and its
  \<open>module_cleanup\<close> unregisters them; the handlers stand in the order of the source.
\<close>

fun register_list ::
    "('t \<Rightarrow> string \<Rightarrow> 'h \<Rightarrow> 't \<times> int) \<Rightarrow> 't \<Rightarrow> (string \<times> 'h) list \<Rightarrow> 't \<times> int" where
  "register_list register t [] = (t, 0)"
| "register_list register t ((name, h) # cmds) =
     (let (t1, r1) = register t name h; (t2, r2) = register_list register t1 cmds in (t2, r1 + r2))"

fun unregister_list :: "('t \<Rightarrow> string \<Rightarrow> 't \<times> int) \<Rightarrow> 't \<Rightarrow> string list \<Rightarrow> 't" where
  "unregister_list unregister t [] = t"
| "unregister_list unregister t (name # names) =
     unregister_list unregister (fst (unregister t name)) names"

text \<open>Two names denote the same command: valid names with the same letters in either case.\<close>

definition same_command :: "string \<Rightarrow> string \<Rightarrow> bool" where
  "same_command n m \<longleftrightarrow> name_path n \<noteq> None \<and> name_path n = name_path m"

text \<open>The handler that stays registered for a name after a list of registrations: the last one.\<close>

fun last_binding :: "(string \<Rightarrow> string \<Rightarrow> bool) \<Rightarrow> (string \<times> 'h) list \<Rightarrow> string \<Rightarrow> 'h option" where
  "last_binding same [] m = None"
| "last_binding same ((n, h) # cmds) m =
     (case last_binding same cmds m of
        Some h' \<Rightarrow> Some h'
      | None \<Rightarrow> if same n m then Some h else None)"

locale command_table =
  fixes register :: "'t \<Rightarrow> string \<Rightarrow> 'h \<Rightarrow> 't \<times> int"
    and unregister :: "'t \<Rightarrow> string \<Rightarrow> 't \<times> int"
    and lookup :: "'t \<Rightarrow> string \<Rightarrow> 'h option"
    and same :: "string \<Rightarrow> string \<Rightarrow> bool"
    and inv :: "'t \<Rightarrow> bool"
  assumes register_inv: "inv t \<Longrightarrow> register t n h = (t', r) \<Longrightarrow> inv t'"
    and register_lookup: "inv t \<Longrightarrow> register t n h = (t', r) \<Longrightarrow>
      lookup t' m = (if r = 0 \<and> same n m then Some h else lookup t m)"
    and register_nonpos: "register t n h = (t', r) \<Longrightarrow> r \<le> 0"
    and unregister_inv: "inv t \<Longrightarrow> unregister t n = (t', r) \<Longrightarrow> inv t'"
    and unregister_lookup: "inv t \<Longrightarrow> unregister t n = (t', r) \<Longrightarrow>
      lookup t' m = (if same n m then None else lookup t m)"
begin

lemma register_list_inv: "inv t \<Longrightarrow> register_list register t cmds = (t', r) \<Longrightarrow> inv t'"
proof (induction cmds arbitrary: t r)
  case (Cons c cmds)
  then show ?case by (cases c) (auto split: prod.splits dest: register_inv)
qed simp

lemma register_list_nonpos: "register_list register t cmds = (t', r) \<Longrightarrow> r \<le> 0"
  by (induction cmds arbitrary: t r) (fastforce split: prod.splits dest: register_nonpos)+

text \<open>If the sum of the results is 0, all commands were registered; the last one of a name wins.\<close>

lemma register_list_append:
  "register_list register t cs = (t1, 0) \<Longrightarrow> register_list register t (cs @ ds) = register_list register t1 ds"
proof (induction cs arbitrary: t)
  case (Cons c cs)
  obtain n h where c: "c = (n, h)" by (cases c)
  obtain t2 r2 where 2: "register t n h = (t2, r2)" by fastforce
  obtain t3 r3 where 3: "register_list register t2 cs = (t3, r3)" by fastforce
  with register_nonpos [OF 2] register_list_nonpos [OF 3] Cons.prems c 2 have "r2 = 0" "r3 = 0" "t3 = t1" by auto
  then show ?case using Cons.IH [of t2] c 2 3 by (simp split: prod.split)
qed simp

lemma register_list_lookup:
  assumes "inv t" and "register_list register t cmds = (t', 0)"
  shows "lookup t' m =
    (case last_binding same cmds m of Some h \<Rightarrow> Some h | None \<Rightarrow> lookup t m)"
  using assms
proof (induction cmds arbitrary: t)
  case (Cons c cmds)
  obtain name h where c: "c = (name, h)" by (cases c) auto
  obtain t1 r1 where 1: "register t name h = (t1, r1)" by fastforce
  obtain t2 r2 where 2: "register_list register t1 cmds = (t2, r2)" by fastforce
  from Cons.prems(2) c 1 2 have "r1 + r2 = 0" "t' = t2" by auto
  with register_nonpos [OF 1] register_list_nonpos [OF 2] have "r1 = 0" "r2 = 0" "t' = t2" by auto
  with Cons.IH register_inv [OF Cons.prems(1) 1] register_lookup [OF Cons.prems(1) 1, of m] 2 c
  show ?case by (auto split: option.splits)
qed simp

lemma unregister_list_lookup:
  "inv t \<Longrightarrow> inv (unregister_list unregister t names) \<and>
   lookup (unregister_list unregister t names) m =
     (if \<exists>n \<in> set names. same n m then None else lookup t m)"
proof (induction names arbitrary: t)
  case (Cons n names)
  obtain t1 r1 where 1: "unregister t n = (t1, r1)" by fastforce
  with Cons.IH unregister_inv [OF Cons.prems 1] unregister_lookup [OF Cons.prems 1, of m]
  show ?case by auto
qed simp

end

lemma cmd_lookup_register:
  assumes "tree_wf t" and "modules_register_cmd mem t n h = (t', r)"
  shows "cmd_lookup t' m = (if r = 0 \<and> same_command n m then Some h else cmd_lookup t m)"
  using register_path(2) [OF assms] name_path_valid [of m]
  by (auto simp: cmd_lookup_def same_command_def split: option.splits)

lemma cmd_lookup_unregister:
  assumes "tree_wf t" and "modules_unregister_cmd t n = (t', r)"
  shows "cmd_lookup t' m = (if same_command n m then None else cmd_lookup t m)"
  using unregister_path [OF assms] name_path_valid [of m]
  by (auto simp: cmd_lookup_def same_command_def split: option.splits)

interpretation ct: command_table "modules_register_cmd mem" modules_unregister_cmd
    cmd_lookup same_command tree_wf for mem
proof (unfold_locales, goal_cases)
  case (1 t n h t' r)
  then show ?case by (rule register_path(1))
next
  case (2 t n h t' r m)
  then show ?case by (rule cmd_lookup_register)
next
  case (3 t n h t' r)
  with register_result [OF this] show ?case by fastforce
next
  case (4 t n t' r)
  then show ?case using unregister_path by blast
next
  case (5 t n t' r m)
  then show ?case by (rule cmd_lookup_unregister)
qed

section \<open>Cleaning\<close>

fun tree_nodes :: "'h command_tree \<Rightarrow> nat" where
  "tree_nodes (Command_Tree own ch) =
     Suc (sum_list (map (\<lambda>c. case c of None \<Rightarrow> 0 | Some t \<Rightarrow> tree_nodes t) ch))"

lemma clean_frees: "tree_nodes t = Suc (snd (modules_cmds_clean t))"
proof (induction t rule: tree_nodes.induct)
  case (1 own ch)
  have "map (\<lambda>c. case c of None \<Rightarrow> 0 | Some t \<Rightarrow> tree_nodes t) ch =
      map (\<lambda>c. case c of None \<Rightarrow> 0 | Some t \<Rightarrow> Suc (snd (modules_cmds_clean t))) ch"
    using 1 by (auto split: option.splits)
  then show ?case by (simp only: tree_nodes.simps modules_cmds_clean.simps snd_conv)
qed

section \<open>The walk over a message\<close>

lemma command_walk_name:
  assumes "CHR '' '' \<notin> set name" and "rest = [] \<and> args = [] \<or> rest = CHR '' '' # args"
  shows "command_walk (Some t) (name @ rest) n =
    map_option (\<lambda>h. (h, n + length name, args)) (cmd_lookup t name)"
  using assms(1)
proof (induction name arbitrary: t n)
  case Nil
  with assms(2) show ?case by (auto simp: cmd_lookup_def)
next
  case (Cons c name)
  show ?case
  proof (cases "child_index c")
    case None
    with Cons.prems show ?thesis by (auto simp: cmd_lookup_def)
  next
    case (Some i)
    show ?thesis
    proof (cases "children t ! i")
      case None
      with Some Cons.prems show ?thesis by (auto simp: cmd_lookup_def split: option.split)
    next
      case (Some s)
      with Cons \<open>child_index c = Some i\<close> show ?thesis
        by (auto simp: cmd_lookup_def split: option.split)
    qed
  qed
qed

lemma check_cmd_resolves:
  assumes p: "length cmdprefix = 1" and name: "CHR '' '' \<notin> set name"
    and rest: "rest = [] \<and> args = [] \<or> rest = CHR '' '' # args"
  shows "modules_check_cmd cmdprefix t from where' (cmdprefix @ name @ rest) =
    (if name @ rest = [] then None
     else map_option (\<lambda>h. \<lparr>q_handler = h, q_cmdname = name, q_from = from, q_where = where', q_args = args\<rparr>)
            (cmd_lookup t name))"
proof -
  have drop: "drop 1 (cmdprefix @ name @ rest) = name @ rest" using p by simp
  show ?thesis
    unfolding modules_check_cmd_def Let_def
    using p command_walk_name [OF name rest, of t 0]
    by (simp add: strncmp_eq_append drop [simplified] option.map_comp o_def)
qed

section \<open>Properties of the command table\<close>

text \<open>
  registering a command returns 0, -1 or -2. On 0 the name, in any mix of cases, resolves to
  the handler; on an error no name resolves differently than before; every other name is
  untouched; with memory the call fails exactly on names with a character that is not a letter.
\<close>

lemma register_then_lookup:
  assumes wf: "tree_wf t" and run: "modules_register_cmd mem t n h = (t', r)"
  shows "tree_wf t' \<and> r \<in> {0, -1, -2} \<and>
    (\<forall>m. cmd_lookup t' m = (if r = 0 \<and> same_command n m then Some h else cmd_lookup t m)) \<and>
    (length n \<le> mem \<longrightarrow> (if name_path n = None then r = -1 else r = 0))"
  using register_path(1) [OF wf run] register_result [OF run] cmd_lookup_register [OF wf run] by auto

text \<open>
  unregistering a command returns 0, -1 or -3, and whatever it returns the name does not
  resolve any more, in any mix of cases, and every other name resolves as before.
\<close>

lemma unregister_then_lookup:
  assumes wf: "tree_wf t" and run: "modules_unregister_cmd t n = (t', r)"
  shows "tree_wf t' \<and> r \<in> {0, -1, -3} \<and> (name_path n = None \<longrightarrow> r \<noteq> 0) \<and>
    (\<forall>m. cmd_lookup t' m = (if same_command n m then None else cmd_lookup t m))"
proof -
  have "r \<in> {0, -1, -3} \<and> (name_path n = None \<longrightarrow> r \<noteq> 0)"
    using run
  proof (induction n arbitrary: t t')
    case Nil
    then show ?case by (cases t) auto
  next
    case (Cons c n)
    then show ?case by (cases t) (auto split: option.splits prod.splits)
  qed
  then show ?thesis
    using unregister_path [OF wf run] cmd_lookup_unregister [OF wf run] by auto
qed

text \<open>
  a module that is loaded and unloaded. When \<open>module_init\<close> reports 0 every command of the
  module resolves to its (last) handler and all other names are untouched; after \<open>module_cleanup\<close>
  none of them resolves and all other names are still untouched.
\<close>

lemma module_load_unload:
  assumes wf: "tree_wf t" and init: "register_list (modules_register_cmd mem) t cmds = (t1, 0)"
    and cleanup: "t2 = unregister_list modules_unregister_cmd t1 (map fst cmds)"
  shows "tree_wf t1 \<and> tree_wf t2 \<and>
    (\<forall>m. cmd_lookup t1 m = (case last_binding same_command cmds m of Some h \<Rightarrow> Some h | None \<Rightarrow> cmd_lookup t m)) \<and>
    (\<forall>m. cmd_lookup t2 m =
      (if \<exists>c \<in> set cmds. same_command (fst c) m then None else cmd_lookup t m))"
proof -
  have wf1: "tree_wf t1" using wf init by (rule ct.register_list_inv)
  have l1: "cmd_lookup t1 m =
      (case last_binding same_command cmds m of Some h \<Rightarrow> Some h | None \<Rightarrow> cmd_lookup t m)" for m
    using wf init by (rule ct.register_list_lookup)
  have none: "\<not> (\<exists>c \<in> set cmds. same_command (fst c) m) \<Longrightarrow> last_binding same_command cmds m = None" for m
    by (induction cmds) auto
  have "tree_wf t2 \<and> cmd_lookup t2 m =
      (if \<exists>n \<in> set (map fst cmds). same_command n m then None else cmd_lookup t1 m)" for m
    unfolding cleanup by (rule ct.unregister_list_lookup [OF wf1])
  with wf1 l1 none show ?thesis by auto
qed

text \<open>
  C7: with a command prefix of one character, a message of the prefix, a name and either nothing
  or a space and the arguments is handed to the thread pool exactly when the name resolves: with
  that handler, the name as typed, the sender and place unchanged, and everything behind the first
  space as arguments. The bare prefix is never a command.
\<close>

theorem check_cmd_dispatches:
  assumes p: "length cmdprefix = 1" and name: "CHR '' '' \<notin> set name"
    and rest: "rest = [] \<and> args = [] \<or> rest = CHR '' '' # args"
  shows "modules_check_cmd cmdprefix t from where' (cmdprefix @ name @ rest) =
    (if name @ rest = [] then None
     else map_option (\<lambda>h. \<lparr>q_handler = h, q_cmdname = name, q_from = from, q_where = where', q_args = args\<rparr>)
            (cmd_lookup t name))"
  using assms by (rule check_cmd_resolves)

theorem check_cmd_dispatches_witness:
  "\<exists>t. modules_check_cmd '','' t ''nick!user@host'' ''#chan'' '',Hug the bot'' =
     Some \<lparr>q_handler = 7 :: nat, q_cmdname = ''Hug'', q_from = ''nick!user@host'', q_where = ''#chan'',
           q_args = ''the bot''\<rparr>"
proof -
  obtain t r where run: "modules_register_cmd 26 new_node ''hug'' (7 :: nat) = (t, r)" by fastforce
  then have "r = 0" by (auto simp: child_index_def new_node_def numeral_eq_Suc split: prod.splits)
  moreover have "same_command ''hug'' ''Hug''" by (simp add: same_command_def child_index_def)
  ultimately have "cmd_lookup t ''Hug'' = Some 7"
    using cmd_lookup_register [OF tree_wf_new_node run] by simp
  moreover have "CHR '' '' \<notin> set ''Hug''" "length '','' = 1" by simp_all
  ultimately show ?thesis
    using check_cmd_dispatches [of "'',''" "''Hug''" "'' the bot''" "''the bot''" t]
    by (intro exI [of _ t]) simp
qed

text \<open>
  the prefix is checked in full but only one character of it is skipped. With a longer prefix
  whose second character is neither a letter nor a space no message ever runs a command, whatever
  is registered.
\<close>

lemma check_cmd_long_prefix_never_runs:
  assumes "2 \<le> length cmdprefix" and "child_index (cmdprefix ! 1) = None" and "cmdprefix ! 1 \<noteq> CHR '' ''"
  shows "modules_check_cmd cmdprefix t from where' message = None"
proof -
  obtain a b p where pre: "cmdprefix = a # b # p"
    using assms(1) by (metis Suc_le_length_iff numeral_2_eq_2)
  show ?thesis
  proof (cases "strncmp_eq message cmdprefix")
    case True
    then obtain q where "message = a # b # q"
      unfolding strncmp_eq_def pre by (metis append_Cons append_take_drop_id)
    with assms pre show ?thesis by (simp add: modules_check_cmd_def Let_def)
  qed (simp add: modules_check_cmd_def Let_def)
qed

text \<open>
  \<open>modules_cmds_clean\<close> frees every node of the tree except the root, and afterwards no command
  with a name resolves; the handler of the empty name survives.
\<close>

lemma cmds_clean_frees_all:
  assumes "tree_wf t"
  shows "snd (modules_cmds_clean t) + 1 = tree_nodes t \<and>
    (\<forall>name. cmd_lookup (fst (modules_cmds_clean t)) name = (if name = [] then handler t else None))"
proof -
  obtain own ch where t: "t = Command_Tree own ch" by (cases t) auto
  with assms have len: "length ch = 26" by (simp add: tree_wf_node)
  have "cmd_lookup (fst (modules_cmds_clean t)) (c # name) = None" for c name
    using len by (auto simp: t cmd_lookup_def split: option.split dest!: child_index_less)
  moreover have "cmd_lookup (fst (modules_cmds_clean t)) [] = handler t"
    by (simp add: t cmd_lookup_def)
  ultimately have "cmd_lookup (fst (modules_cmds_clean t)) name = (if name = [] then handler t else None)" for name
    by (cases name) auto
  with clean_frees [of t] show ?thesis by simp
qed

end
