(* ===== verification/Threadpool.thy ===== *)
theory Threadpool
  imports Command_Tree Irc_Output
begin

unbundle bit_operations_syntax

text \<open>
  The thread pool of \<^verbatim>\<open>src/threadpool.c\<close> for commands: the array of slots that grows by doubling, the
  flag that keeps threads from touching it meanwhile, and the single block of memory in which a
  command's strings travel to its thread. Slots are shown to be handed out only when they are free,
  the strings to arrive unchanged, and a failed growth to disable the pool.
\<close>

section \<open>Definitions of the source\<close>

text \<open>
  \<open>struct threadpool_cmd_args\<close> and the strings behind it in the same block: the pointers are offsets
  into the block. The first \<open>a\<close> cells stand for the struct itself.
\<close>

record 'h cmd_args =
  arg_n :: nat
  arg_handler :: 'h
  arg_cmdname :: nat
  arg_from :: nat
  arg_where :: nat
  arg_args :: nat
  arg_block :: "char list"

text \<open>
  How far a command thread is: not yet past \<open>permissions_get\<close>, about to call its handler with the
  sender it looked up, at \<open>execution_done\<close>, or never created.
\<close>

datatype 'h thread =
    Cmd_start "'h cmd_args"
  | Cmd_ready "'h cmd_args" command_sender
  | Cmd_done "'h cmd_args"
  | Cmd_orphan "'h cmd_args"

text \<open>The \<open>args\<close> pointers of the slots; \<open>pool_len\<close> is the length the code believes in.\<close>

record 'a threadpool =
  pool_slots :: "'a option list"
  pool_len :: nat
  pool_flags :: "8 word"

text \<open>
  \<open>threadpool_init\<close> with the static \<open>pool_len\<close> of 2, which allocates only while the static pointer is null, and
  \<open>threadpool_deinit\<close>, which frees the array.
\<close>

definition threadpool_init :: "bool \<Rightarrow> bool \<Rightarrow> 'a threadpool \<Rightarrow> 'a threadpool \<times> int" where
  "threadpool_init null_pool malloc_ok tp =
     (if null_pool \<and> \<not> malloc_ok then (tp, -1) else (tp\<lparr>pool_slots := replicate (pool_len tp) None\<rparr>, 0))"

function find_slot :: "'a option list \<Rightarrow> nat \<Rightarrow> nat \<Rightarrow> fault + nat" where
  "find_slot slots len n =
     (if n < len then
        and_then (arr_read slots (int n)) (\<lambda>a. if a = None then Inr n else find_slot slots len (n + 1))
      else Inr n)"
  by pat_completeness auto
termination
  by (relation "measure (\<lambda>(slots, len, n). len - n)") auto

declare find_slot.simps [simp del]

text \<open>
  \<open>realloc\<close> keeps the old cells; \<open>junk\<close> is what a new cell holds before the \<open>memset\<close> of the upper
  half. The result \<open>None\<close> is the return value -1.
\<close>

definition threadpool_queue_findspace ::
    "bool \<Rightarrow> 'a option \<Rightarrow> 'a threadpool \<Rightarrow> fault + 'a threadpool \<times> nat option" where
  "threadpool_queue_findspace realloc_ok junk tp =
     and_then (find_slot (pool_slots tp) (pool_len tp) 0)
       (\<lambda>n.
          if n \<ge> pool_len tp then
            (let tp = tp\<lparr>pool_flags := pool_flags tp OR 1, pool_len := pool_len tp * 2\<rparr> in
             if \<not> realloc_ok then Inr (tp, None)
             else
               (let cs = pool_slots tp @ replicate (pool_len tp - length (pool_slots tp)) junk;
                    tp = tp\<lparr>pool_flags := pool_flags tp XOR 1\<rparr>;
                    cs = take (pool_len tp div 2) cs @ replicate (pool_len tp div 2) None in
                Inr (tp\<lparr>pool_slots := cs\<rparr>, Some n)))
          else Inr (tp, Some n))"

text \<open>
  The block of a command: \<open>fresh\<close> gives the cells of a block \<open>malloc\<close> returns and \<open>a\<close> is the size of
  the struct.
\<close>

definition make_cmd_args ::
    "(nat \<Rightarrow> char list) \<Rightarrow> nat \<Rightarrow> nat \<Rightarrow> 'h \<Rightarrow> string \<Rightarrow> string \<Rightarrow> string \<Rightarrow> string \<Rightarrow> fault + 'h cmd_args" where
  "make_cmd_args fresh a n h cmdname from where' args =
     (let b = length cmdname + 1; c = length from + 1; d = length where' + 1; e = length args + 1 in
      and_then (arr_blit (fresh (a + b + c + d + e)) (int a) (cmdname @ [NUL]))
        (\<lambda>block. and_then (arr_blit block (int (a + b)) (from @ [NUL]))
           (\<lambda>block. and_then (arr_blit block (int (a + b + c)) (where' @ [NUL]))
              (\<lambda>block. and_then (arr_blit block (int (a + b + c + d)) (args @ [NUL]))
                 (\<lambda>block. Inr \<lparr>arg_n = n, arg_handler = h, arg_cmdname = a, arg_from = a + b, arg_where = a + b + c,
                                arg_args = a + b + c + d, arg_block = block\<rparr>)))))"

text \<open>
  When \<open>pthread_create\<close> fails the slot stays taken without a thread behind it.
\<close>

definition threadpool_queue_cmd ::
    "bool \<Rightarrow> bool \<Rightarrow> bool \<Rightarrow> 'h thread option \<Rightarrow> (nat \<Rightarrow> char list) \<Rightarrow> nat \<Rightarrow> 'h thread threadpool \<Rightarrow>
     'h \<Rightarrow> string \<Rightarrow> string \<Rightarrow> string \<Rightarrow> string \<Rightarrow> fault + 'h thread threadpool \<times> nat option" where
  "threadpool_queue_cmd realloc_ok malloc_ok create_ok junk fresh a tp h cmdname from where' args =
     and_then (threadpool_queue_findspace realloc_ok junk tp)
       (\<lambda>(tp, space).
          (case space of
             None \<Rightarrow> Inr (tp, None)
           | Some n \<Rightarrow>
               if \<not> malloc_ok then
                 and_then (arr_write (pool_slots tp) (int n) None) (\<lambda>cs. Inr (tp\<lparr>pool_slots := cs\<rparr>, None))
               else
                 and_then (make_cmd_args fresh a n h cmdname from where' args)
                   (\<lambda>arg. and_then (arr_write (pool_slots tp) (int n) (Some (if create_ok then Cmd_start arg else Cmd_orphan arg)))
                      (\<lambda>cs. Inr (tp\<lparr>pool_slots := cs\<rparr>, if create_ok then Some n else None)))))"

text \<open>The end of a thread: it waits while bit 0 of the flags is set, then gives its slot back.\<close>

definition thread_exit :: "'a threadpool \<Rightarrow> nat \<Rightarrow> 'a threadpool option" where
  "thread_exit tp n =
     (if pool_flags tp AND 1 \<noteq> 0 then None else Some (tp\<lparr>pool_slots := (pool_slots tp)[n := None]\<rparr>))"

text \<open>
  \<open>threadpool_waitall\<close>: the threads are created detached, so \<open>pthread_join\<close> gives an error at once and
  the loop only clears the slots.
\<close>

function waitall_loop :: "'a option list \<Rightarrow> nat \<Rightarrow> nat \<Rightarrow> fault + 'a option list" where
  "waitall_loop slots len n =
     (if n < len then
        and_then (arr_read slots (int n))
          (\<lambda>a. if a \<noteq> None then and_then (arr_write slots (int n) None) (\<lambda>slots. waitall_loop slots len (n + 1))
               else waitall_loop slots len (n + 1))
      else Inr slots)"
  by pat_completeness auto
termination
  by (relation "measure (\<lambda>(slots, len, n). len - n)") auto

declare waitall_loop.simps [simp del]

definition threadpool_waitall :: "'a threadpool \<Rightarrow> fault + 'a threadpool" where
  "threadpool_waitall tp =
     (let tp = tp\<lparr>pool_flags := pool_flags tp OR 1\<rparr> in
      and_then (waitall_loop (pool_slots tp) (pool_len tp) 0)
        (\<lambda>slots. Inr (tp\<lparr>pool_slots := slots, pool_flags := pool_flags tp XOR 1\<rparr>)))"

definition threadpool_deinit :: "'a threadpool \<Rightarrow> fault + 'a threadpool" where
  "threadpool_deinit tp =
     and_then (threadpool_waitall tp) (\<lambda>tp. Inr (tp\<lparr>pool_slots := [], pool_len := 8\<rparr>))"

section \<open>Free slots\<close>

definition pool_ok :: "'a threadpool \<Rightarrow> bool" where
  "pool_ok tp \<longleftrightarrow> length (pool_slots tp) = pool_len tp \<and> 0 < pool_len tp \<and> pool_flags tp = 0"

text \<open>Whatever the state of the pool, a search that succeeds and a growth that fails or succeeds bring no new entries.\<close>

lemma find_slot_past: "find_slot slots len n = Inr k \<Longrightarrow> n \<le> length slots \<Longrightarrow> len \<le> k \<Longrightarrow> len \<le> length slots"
proof (induction slots len n rule: find_slot.induct)
  case (1 slots len n)
  show ?case
  proof (cases "n < len \<and> n < length slots")
    case True
    then show ?thesis
      using "1.prems" "1.IH" by (subst (asm) find_slot.simps) (auto simp: arr_read_def split: if_splits)
  next
    case False
    then show ?thesis
      using "1.prems" by (subst (asm) find_slot.simps) (auto simp: arr_read_def split: if_splits)
  qed
qed

lemma findspace_members:
  assumes "threadpool_queue_findspace realloc_ok junk tp = Inr (tp', space)"
  shows "set (pool_slots tp') \<subseteq> insert None (set (pool_slots tp))"
proof -
  obtain k where k: "find_slot (pool_slots tp) (pool_len tp) 0 = Inr k"
    using assms by (auto simp: threadpool_queue_findspace_def and_then_Inr_iff)
  show ?thesis
  proof (cases "pool_len tp \<le> k \<and> realloc_ok")
    case True
    then have "pool_len tp \<le> length (pool_slots tp)" using find_slot_past [OF k] by simp
    then show ?thesis
      using assms k True by (auto simp: threadpool_queue_findspace_def Let_def dest: in_set_takeD)
  next
    case False
    then show ?thesis using assms k by (auto simp: threadpool_queue_findspace_def Let_def split: if_splits)
  qed
qed

lemma arr_write_members: "arr_write xs i v = Inr ys \<Longrightarrow> set ys \<subseteq> insert v (set xs)"
  using set_update_subset_insert [of xs "nat i" v] by (auto simp: arr_write_def split: if_splits)

lemma find_slot_ok:
  assumes "length slots = len" and "n \<le> len" and "\<forall>i < n. slots ! i \<noteq> None"
  shows "\<exists>k. find_slot slots len n = Inr k \<and> k \<le> len \<and> (\<forall>i < k. slots ! i \<noteq> None) \<and> (k < len \<longrightarrow> slots ! k = None)"
  using assms
proof (induction "len - n" arbitrary: n)
  case 0
  then show ?case by (subst find_slot.simps) simp
next
  case (Suc d)
  then have n: "n < len" by simp
  show ?case
  proof (cases "slots ! n")
    case None
    then show ?thesis using Suc.prems n by (subst find_slot.simps) simp
  next
    case (Some a)
    then have "\<forall>i < n + 1. slots ! i \<noteq> None" using Suc.prems(3) by (simp add: less_Suc_eq)
    with Suc n have "\<exists>k. find_slot slots len (n + 1) = Inr k \<and> k \<le> len \<and> (\<forall>i < k. slots ! i \<noteq> None) \<and>
        (k < len \<longrightarrow> slots ! k = None)" by simp
    moreover have "find_slot slots len n = find_slot slots len (n + 1)"
      using Some n Suc.prems(1) by (subst find_slot.simps) simp
    ultimately show ?thesis by simp
  qed
qed

lemma findspace_ok:
  assumes "pool_ok tp"
  shows "\<exists>tp' n. threadpool_queue_findspace True junk tp = Inr (tp', Some n) \<and> pool_ok tp' \<and>
    n < pool_len tp' \<and> pool_slots tp' ! n = None \<and> (\<forall>i < n. pool_slots tp' ! i \<noteq> None) \<and>
    (\<exists>k. pool_slots tp' = pool_slots tp @ replicate k None)"
proof -
  have len: "length (pool_slots tp) = pool_len tp" "0 < pool_len tp" "pool_flags tp = 0"
    using assms by (auto simp: pool_ok_def)
  from find_slot_ok [OF len(1), of 0] obtain k where
    k: "find_slot (pool_slots tp) (pool_len tp) 0 = Inr k" "k \<le> pool_len tp"
      "\<forall>i < k. pool_slots tp ! i \<noteq> None" "k < pool_len tp \<longrightarrow> pool_slots tp ! k = None" by auto
  show ?thesis
  proof (cases "k < pool_len tp")
    case True
    then show ?thesis using k assms by (auto simp: threadpool_queue_findspace_def intro: exI [of _ 0])
  next
    case False
    with k(2) have "k = pool_len tp" by simp
    with k(1,3) len show ?thesis
      by (auto simp: threadpool_queue_findspace_def Let_def pool_ok_def nth_append)
  qed
qed

section \<open>The block of a command\<close>

text \<open>What a thread reads through the pointers of its argument.\<close>

definition holds_command :: "'h cmd_args \<Rightarrow> 'h \<Rightarrow> string \<Rightarrow> string \<Rightarrow> string \<Rightarrow> string \<Rightarrow> bool" where
  "holds_command arg h cmdname from where' args \<longleftrightarrow>
     arg_handler arg = h \<and>
     c_string_at (arg_block arg) (arg_cmdname arg) = Inr cmdname \<and>
     c_string_at (arg_block arg) (arg_from arg) = Inr from \<and>
     c_string_at (arg_block arg) (arg_where arg) = Inr where' \<and>
     c_string_at (arg_block arg) (arg_args arg) = Inr args"

text \<open>\<open>memcpy\<close> of a string to the place where the next cells of a block begin.\<close>

lemma blit_next:
  assumes "length pre = pos" and "length rest = length s + k"
  shows "arr_blit (pre @ rest) (int pos) s = Inr (pre @ s @ drop (length s) rest) \<and> length (drop (length s) rest) = k"
  using assms by (auto simp: arr_blit_def)

lemma make_cmd_args_ok:
  assumes "\<forall>m. length (fresh m) = m" and "c_str cmdname" "c_str from" "c_str where'" "c_str args"
  shows "\<exists>arg. make_cmd_args fresh a n h cmdname from where' args = Inr arg \<and> arg_n arg = n \<and>
    holds_command arg h cmdname from where' args"
proof -
  let ?b = "length cmdname + 1" and ?c = "length from + 1" and ?d = "length where' + 1" and ?e = "length args + 1"
  define m where "m = a + ?b + ?c + ?d + ?e"
  define pre where "pre = take a (fresh m)"
  define r0 where "r0 = drop a (fresh m)"
  have f: "fresh m = pre @ r0" "length pre = a" "length r0 = ?b + ?c + ?d + ?e"
    using assms(1) by (simp_all add: pre_def r0_def m_def)
  let ?p1 = "pre @ cmdname @ [NUL]" let ?p2 = "?p1 @ from @ [NUL]" let ?p3 = "?p2 @ where' @ [NUL]"
  let ?r1 = "drop ?b r0" let ?r2 = "drop ?c ?r1" let ?r3 = "drop ?d ?r2"
  have 1: "arr_blit (fresh m) (int a) (cmdname @ [NUL]) = Inr (?p1 @ ?r1)"
    using blit_next [of pre a r0 "cmdname @ [NUL]" "?c + ?d + ?e"] f by simp
  have 2: "arr_blit (?p1 @ ?r1) (int (a + ?b)) (from @ [NUL]) = Inr (?p2 @ ?r2)"
    using blit_next [of ?p1 "a + ?b" ?r1 "from @ [NUL]" "?d + ?e"] f by simp
  have 3: "arr_blit (?p2 @ ?r2) (int (a + ?b + ?c)) (where' @ [NUL]) = Inr (?p3 @ ?r3)"
    using blit_next [of ?p2 "a + ?b + ?c" ?r2 "where' @ [NUL]" ?e] f by simp
  have 4: "arr_blit (?p3 @ ?r3) (int (a + ?b + ?c + ?d)) (args @ [NUL]) = Inr (?p3 @ args @ [NUL])"
    using blit_next [of ?p3 "a + ?b + ?c + ?d" ?r3 "args @ [NUL]" 0] f by simp
  let ?block = "?p3 @ args @ [NUL]"
  have "c_string_at ?block a = Inr cmdname" "c_string_at ?block (a + ?b) = Inr from"
    "c_string_at ?block (a + ?b + ?c) = Inr where'" "c_string_at ?block (a + ?b + ?c + ?d) = Inr args"
    using c_string_at_append [OF assms(2), of pre] c_string_at_append [OF assms(3), of ?p1]
      c_string_at_append [OF assms(4), of ?p2] c_string_at_append [OF assms(5), of ?p3 "[]"] f(2)
    by (simp_all add: add.assoc)
  then show ?thesis
    unfolding make_cmd_args_def Let_def holds_command_def m_def [symmetric] 1 and_then.simps 2 3 4 by simp
qed

text \<open>A command that is queued: a free slot gets a thread that holds it, and no other slot changes.\<close>

lemma queue_cmd_ok:
  assumes "pool_ok tp" and "\<forall>m. length (fresh m) = m" and "c_str cmdname" "c_str from" "c_str where'" "c_str args"
  shows "\<exists>tp' n arg k. threadpool_queue_cmd True True True junk fresh a tp h cmdname from where' args = Inr (tp', Some n) \<and>
    pool_ok tp' \<and> n < pool_len tp' \<and> holds_command arg h cmdname from where' args \<and> arg_n arg = n \<and>
    pool_slots tp' = (pool_slots tp @ replicate k None)[n := Some (Cmd_start arg)] \<and>
    (pool_slots tp @ replicate k None) ! n = None"
proof -
  obtain tp1 n k where s: "threadpool_queue_findspace True junk tp = Inr (tp1, Some n)" "pool_ok tp1"
    "n < pool_len tp1" "pool_slots tp1 ! n = None" "pool_slots tp1 = pool_slots tp @ replicate k None"
    using findspace_ok [OF assms(1), of junk] by blast
  obtain arg where arg: "make_cmd_args fresh a n h cmdname from where' args = Inr arg" "arg_n arg = n"
    "holds_command arg h cmdname from where' args"
    using make_cmd_args_ok [OF assms(2-6), of a n h] by blast
  have "n < length (pool_slots tp1)" using s(2,3) by (simp add: pool_ok_def)
  then show ?thesis
    using s arg by (auto simp: threadpool_queue_cmd_def pool_ok_def)
qed

section \<open>Growth without memory\<close>

lemma find_slot_full:
  assumes "\<forall>i < length slots. slots ! i \<noteq> None" and "length slots < len" and "n \<le> length slots"
  shows "find_slot slots len n = Inl Out_Of_Bounds"
  using assms(3)
proof (induction "length slots - n" arbitrary: n)
  case 0
  then show ?case using assms(2) by (subst find_slot.simps) (simp add: arr_read_def)
next
  case (Suc d)
  then have "n < length slots" by simp
  moreover from this assms(1) have "slots ! n \<noteq> None" by simp
  ultimately show ?case using Suc assms(2) by (subst find_slot.simps) simp
qed

lemma waitall_loop_ok:
  assumes "length slots = len" and "n \<le> len" and "\<forall>i < n. slots ! i = None"
  shows "waitall_loop slots len n = Inr (replicate len None)"
  using assms
proof (induction "len - n" arbitrary: n slots)
  case 0
  then have "slots = replicate len None" by (simp add: nth_equalityI)
  then show ?case using 0 by (subst waitall_loop.simps) simp
next
  case (Suc d)
  then have n: "n < len" by simp
  have "waitall_loop slots len n = waitall_loop (slots[n := None]) len (n + 1)"
  proof (cases "slots ! n")
    case None
    then have "slots[n := None] = slots" by (metis list_update_id)
    then show ?thesis using None n Suc.prems(1) by (subst waitall_loop.simps) simp
  qed (use n Suc.prems(1) in \<open>subst waitall_loop.simps, simp\<close>)
  moreover have "\<forall>i < n + 1. slots[n := None] ! i = None"
    using Suc.prems n by (auto simp: less_Suc_eq nth_list_update)
  ultimately show ?case using Suc by simp
qed

section \<open>Properties\<close>

text \<open>
  C13: A queued command reaches its thread as it was: the first free slot is found (the array grows
  when there is none), no other slot changes, and through the pointers of its argument the thread
  reads the name, the sender, the place and the arguments that were queued, each ended where it was,
  although all four share one block of exactly the memory that was asked for.
\<close>

theorem queue_cmd_hands_over:
  assumes "pool_ok tp" and "\<forall>m. length (fresh m) = m" and "c_str cmdname" "c_str from" "c_str where'" "c_str args"
  shows "\<exists>tp' n arg k. threadpool_queue_cmd True True True junk fresh a tp h cmdname from where' args = Inr (tp', Some n) \<and>
    pool_ok tp' \<and> holds_command arg h cmdname from where' args \<and>
    pool_slots tp' = (pool_slots tp @ replicate k None)[n := Some (Cmd_start arg)] \<and>
    (pool_slots tp @ replicate k None) ! n = None \<and> n < pool_len tp'"
  using queue_cmd_ok [OF assms, of junk a h] by blast

theorem queue_cmd_hands_over_witness:
  "\<exists>tp tp' n arg. pool_ok tp \<and>
    threadpool_queue_cmd True True True None (\<lambda>m. replicate m NUL) 64 tp (7 :: nat) ''hug'' ''joe!j@h'' ''#c'' ''the bot'' =
      Inr (tp', Some n) \<and> pool_slots tp' ! n = Some (Cmd_start arg) \<and> holds_command arg 7 ''hug'' ''joe!j@h'' ''#c'' ''the bot''"
proof -
  let ?tp = "\<lparr>pool_slots = [None, None], pool_len = 2, pool_flags = 0\<rparr> :: nat thread threadpool"
  have ok: "pool_ok ?tp" by (simp add: pool_ok_def)
  have f: "\<forall>m. length (replicate m NUL) = m" by simp
  have c: "c_str ''hug''" "c_str ''joe!j@h''" "c_str ''#c''" "c_str ''the bot''" by simp_all
  from queue_cmd_hands_over [OF ok f c, of None 64 7] obtain tp' n arg k where
    q: "threadpool_queue_cmd True True True None (\<lambda>m. replicate m NUL) 64 ?tp 7 ''hug'' ''joe!j@h'' ''#c'' ''the bot'' =
      Inr (tp', Some n)" "pool_ok tp'" "holds_command arg 7 ''hug'' ''joe!j@h'' ''#c'' ''the bot''"
      "pool_slots tp' = (pool_slots ?tp @ replicate k None)[n := Some (Cmd_start arg)]" "n < pool_len tp'" by blast
  have "length (pool_slots tp') = length (pool_slots ?tp @ replicate k None)"
    unfolding q(4) by (rule length_list_update)
  then have "n < length (pool_slots ?tp @ replicate k None)" using q(2,5) by (simp add: pool_ok_def)
  then have "pool_slots tp' ! n = Some (Cmd_start arg)" unfolding q(4) by (rule nth_list_update_eq)
  with ok q show ?thesis by blast
qed

text \<open>
  When all slots are taken and the array cannot grow, the command is dropped, and the pool is
  out of order from then on: the flag that asks threads to wait stays set, so no thread can ever give
  its slot back, and the next command makes the search run past the end of the array.
\<close>

lemma findspace_oom_disables_pool:
  assumes "pool_ok tp" and "\<forall>i < pool_len tp. pool_slots tp ! i \<noteq> None"
  shows "\<exists>tp'. threadpool_queue_findspace False junk tp = Inr (tp', None) \<and> pool_len tp' = 2 * length (pool_slots tp') \<and>
    (\<forall>n. thread_exit tp' n = None) \<and> (\<forall>ok. threadpool_queue_findspace ok junk tp' = Inl Out_Of_Bounds)"
proof -
  have len: "length (pool_slots tp) = pool_len tp" "0 < pool_len tp" "pool_flags tp = 0"
    using assms(1) by (auto simp: pool_ok_def)
  from find_slot_ok [OF len(1), of 0] assms(2) have "find_slot (pool_slots tp) (pool_len tp) 0 = Inr (pool_len tp)"
    using le_neq_implies_less by blast
  moreover have "find_slot (pool_slots tp) (pool_len tp * 2) 0 = Inl Out_Of_Bounds"
    using assms(2) len by (intro find_slot_full) auto
  ultimately show ?thesis
    using len by (simp add: threadpool_queue_findspace_def Let_def thread_exit_def)
qed

text \<open>
  \<open>threadpool_waitall\<close> leaves every slot free and the flag clear, so that threads can leave and
  commands be queued afterwards; it does not wait for anything the slots stand for.
\<close>

lemma waitall_frees_slots:
  assumes "pool_ok tp"
  shows "\<exists>tp'. threadpool_waitall tp = Inr tp' \<and> pool_ok tp' \<and> pool_slots tp' = replicate (pool_len tp) None \<and>
    pool_len tp' = pool_len tp"
  using assms waitall_loop_ok [of "pool_slots tp" "pool_len tp" 0]
  by (simp add: threadpool_waitall_def Let_def pool_ok_def)

end
