(* ===== verification/Module_Loader.thy ===== *)
theory Module_Loader
  imports Threadpool Command_Tree
begin

text \<open>
  The module loader of \<^verbatim>\<open>src/modules.c\<close> with the threads of \<^verbatim>\<open>src/threadpool.c\<close> that run \<open>module_init\<close> and
  \<open>module_cleanup\<close>: the array \<open>loaded\<close> of contexts, its count \<open>loaded_use\<close>, the contexts on the heap, the
  libraries that are open and the command tree. Loading and unloading only queue the work; a thread clears the slot
  through the pointer \<open>ctx_pos\<close> it was given. \<open>dlopen\<close>, \<open>dlsym\<close>, \<open>readdir\<close> and the outcome of allocations are arguments.
\<close>

section \<open>Definitions of the source\<close>

text \<open>The internal fields of \<open>struct core_ctx\<close>; its function pointers are the same in every context.\<close>

record core_ctx =
  ctx_dlsym :: nat
  ctx_fn :: string

text \<open>
  The code of a library: its \<open>module_init\<close> and \<open>module_cleanup\<close>, \<open>None\<close> where \<open>dlsym\<close> does not find the
  symbol. Their effect is the one on the command tree.
\<close>

record 'h module_code =
  code_init :: "('h command_tree \<Rightarrow> 'h command_tree \<times> int) option"
  code_cleanup :: "('h command_tree \<Rightarrow> 'h command_tree) option"

record 'h dl_env =
  dl_open :: "string \<Rightarrow> nat option"
  dl_code :: "nat \<Rightarrow> 'h module_code"

text \<open>
  \<open>struct threadpool_init_args\<close> and \<open>threadpool_deinit_args\<close>: the slot, the library the handler belongs to, the context, and
  \<open>ctx_pos\<close> as the block of the array it points into and the index there.
\<close>

record job_args =
  job_n :: nat
  job_handler :: nat
  job_ctx :: nat
  job_pos :: "nat \<times> nat"

text \<open>A thread: before its handler runs, and when all it has left to do is to give its slot back.\<close>

datatype loader_job =
    Init_job job_args
  | Deinit_job job_args
  | Done_job job_args

text \<open>
  \<open>loaded_block\<close> is the address of the array, which changes when the array grows. The threads are apart from the slots
  of the pool, since \<open>threadpool_waitall\<close> clears the slots and leaves the threads.
\<close>

record 'h loader =
  loaded :: "nat option list"
  loaded_block :: nat
  loaded_len :: nat
  loaded_use :: int
  array_mutex :: bool
  ctxs :: "nat \<Rightarrow> core_ctx option"
  handles :: "nat list"
  cmds :: "'h command_tree"
  job_pool :: "job_args threadpool"
  threads :: "loader_job list"

text \<open>
  The outcomes of the allocations of one call: the new block for the array, the block for the context, and those of the
  pool; \<open>path_cells\<close> is the uninitialised array \<open>local_file\<close>.
\<close>

record luck =
  array_block :: "nat option"
  ctx_block :: "nat option"
  slot_realloc :: bool
  slot_malloc :: bool
  thread_create :: bool
  slot_junk :: "job_args option"
  path_cells :: "char list"

definition PATH_MAX :: nat where "PATH_MAX = 4096"

definition local_path :: "char list \<Rightarrow> string \<Rightarrow> string \<Rightarrow> fault + string" where
  "local_path local_file mod_dir mod_file =
     and_then (arr_blit local_file 0 mod_dir)
       (\<lambda>f. and_then (arr_blit f (int (length mod_dir)) (mod_file @ [NUL])) (\<lambda>f. c_string_at f 0))"

text \<open>Access to a context, \<open>dlclose\<close> and \<open>free\<close>, and an assignment through \<open>ctx_pos\<close>.\<close>

definition ctx_at :: "'h loader \<Rightarrow> nat \<Rightarrow> fault + core_ctx" where
  "ctx_at st a = (case ctxs st a of None \<Rightarrow> Inl Out_Of_Bounds | Some c \<Rightarrow> Inr c)"

definition close_free :: "'h loader \<Rightarrow> nat \<Rightarrow> fault + 'h loader" where
  "close_free st a =
     and_then (ctx_at st a) (\<lambda>c. Inr (st\<lparr>handles := remove1 (ctx_dlsym c) (handles st), ctxs := (ctxs st)(a := None)\<rparr>))"

definition clear_pos :: "'h loader \<Rightarrow> nat \<times> nat \<Rightarrow> fault + 'h loader" where
  "clear_pos st pos =
     (if fst pos \<noteq> loaded_block st then Inl Out_Of_Bounds
      else and_then (arr_write (loaded st) (int (snd pos)) None) (\<lambda>l. Inr (st\<lparr>loaded := l\<rparr>)))"

text \<open>\<open>modules_ctx_new\<close>; the address is the one \<open>calloc\<close> returned.\<close>

definition modules_ctx_new :: "'h loader \<Rightarrow> nat option \<Rightarrow> nat \<Rightarrow> string \<Rightarrow> 'h loader \<times> nat option" where
  "modules_ctx_new st block dlsym fn =
     (case block of
        None \<Rightarrow> (st, None)
      | Some a \<Rightarrow> (st\<lparr>ctxs := (ctxs st)(a := Some \<lparr>ctx_dlsym = dlsym, ctx_fn = fn\<rparr>)\<rparr>, Some a))"

text \<open>
  The common part of \<open>threadpool_queue_init\<close> and \<open>threadpool_queue_deinit\<close>: a slot, the block with the arguments, a thread.
\<close>

definition queue_job :: "luck \<Rightarrow> (nat \<Rightarrow> job_args) \<Rightarrow> (job_args \<Rightarrow> loader_job) \<Rightarrow> 'h loader \<Rightarrow> fault + 'h loader" where
  "queue_job luck arg kind st =
     and_then (threadpool_queue_findspace (slot_realloc luck) (slot_junk luck) (job_pool st))
       (\<lambda>(tp, space).
          case space of
            None \<Rightarrow> Inr (st\<lparr>job_pool := tp\<rparr>)
          | Some n \<Rightarrow>
              and_then (arr_write (pool_slots tp) (int n) (if slot_malloc luck then Some (arg n) else None))
                (\<lambda>cs. Inr (st\<lparr>job_pool := tp\<lparr>pool_slots := cs\<rparr>,
                   threads := (if slot_malloc luck \<and> thread_create luck then kind (arg n) # threads st else threads st)\<rparr>)))"

definition threadpool_queue_init :: "luck \<Rightarrow> nat \<Rightarrow> nat \<Rightarrow> nat \<times> nat \<Rightarrow> 'h loader \<Rightarrow> fault + 'h loader" where
  "threadpool_queue_init luck ctx h ctx_pos st =
     queue_job luck (\<lambda>n. \<lparr>job_n = n, job_handler = h, job_ctx = ctx, job_pos = ctx_pos\<rparr>) Init_job st"

text \<open>With \<open>wait\<close> the call joins the thread, which gives an error at once because the threads are detached.\<close>

definition threadpool_queue_deinit :: "luck \<Rightarrow> nat \<Rightarrow> nat \<Rightarrow> nat \<times> nat \<Rightarrow> bool \<Rightarrow> 'h loader \<Rightarrow> fault + 'h loader" where
  "threadpool_queue_deinit luck h ctx ctx_pos wait st =
     queue_job luck (\<lambda>n. \<lparr>job_n = n, job_handler = h, job_ctx = ctx, job_pos = ctx_pos\<rparr>) Deinit_job st"

text \<open>Growing the array: the old cells are kept and the new half is cleared.\<close>

definition grow_loaded :: "luck \<Rightarrow> 'h loader \<Rightarrow> 'h loader option" where
  "grow_loaded luck st =
     (if loaded_use st + 1 \<ge> int (loaded_len st) then
        (case array_block luck of
           None \<Rightarrow> None
         | Some b \<Rightarrow> Some (st\<lparr>loaded := loaded st @ replicate (loaded_len st) None, loaded_block := b, loaded_len := loaded_len st * 2\<rparr>))
      else Some st)"

text \<open>From the first free slot on: the new context, its init thread, the count.\<close>

definition place_module :: "luck \<Rightarrow> nat \<Rightarrow> string \<Rightarrow> 'h loader \<Rightarrow> fault + 'h loader" where
  "place_module luck h mod_file st =
     and_then (find_slot (loaded st) (loaded_len st) 0)
       (\<lambda>i.
          if i = loaded_len st then Inl Process_Exit
          else
            (let (st, ctx) = modules_ctx_new st (ctx_block luck) h mod_file in
             and_then (arr_write (loaded st) (int i) ctx)
               (\<lambda>l. let st = st\<lparr>loaded := l\<rparr> in
                  case ctx of
                    None \<Rightarrow> Inr (st\<lparr>handles := remove1 h (handles st)\<rparr>)
                  | Some a \<Rightarrow>
                      and_then (threadpool_queue_init luck a h (loaded_block st, i) st)
                        (\<lambda>st. Inr (st\<lparr>loaded_use := loaded_use st + 1\<rparr>)))))"

definition modules_loadmod :: "'h dl_env \<Rightarrow> string \<Rightarrow> luck \<Rightarrow> string \<Rightarrow> 'h loader \<Rightarrow> fault + 'h loader" where
  "modules_loadmod dl mod_dir luck mod_file st =
     and_then (local_path (path_cells luck) mod_dir mod_file)
       (\<lambda>local_file.
          case dl_open dl local_file of
            None \<Rightarrow> Inr st
          | Some h \<Rightarrow>
              if code_init (dl_code dl h) = None then Inr st
              else if array_mutex st then Inl Blocked
              else
                (case grow_loaded luck (st\<lparr>handles := h # handles st\<rparr>) of
                   None \<Rightarrow> Inr st
                 | Some st \<Rightarrow> place_module luck h mod_file st))"

text \<open>Without \<open>module_cleanup\<close> the context is freed and the slot left as it is.\<close>

definition modules_unloadmod :: "'h dl_env \<Rightarrow> luck \<Rightarrow> nat \<Rightarrow> nat \<times> nat \<Rightarrow> bool \<Rightarrow> 'h loader \<Rightarrow> fault + 'h loader" where
  "modules_unloadmod dl luck ctx ctx_pos wait st =
     and_then (ctx_at st ctx)
       (\<lambda>c.
          if code_cleanup (dl_code dl (ctx_dlsym c)) = None then close_free st ctx
          else
            and_then (threadpool_queue_deinit luck (ctx_dlsym c) ctx ctx_pos wait st)
              (\<lambda>st. Inr (st\<lparr>loaded_use := loaded_use st - 1\<rparr>)))"

function unload_loop :: "'h dl_env \<Rightarrow> (nat \<Rightarrow> luck) \<Rightarrow> nat \<Rightarrow> nat \<Rightarrow> 'h loader \<Rightarrow> fault + 'h loader" where
  "unload_loop dl lucks len i st =
     (if i < len then
        and_then (arr_read (loaded st) (int i))
          (\<lambda>p. case p of
             None \<Rightarrow> unload_loop dl lucks len (i + 1) st
           | Some a \<Rightarrow>
               and_then (modules_unloadmod dl (lucks i) a (loaded_block st, i) False st)
                 (\<lambda>st. unload_loop dl lucks len (i + 1) st))
      else Inr st)"
  by pat_completeness auto
termination
  by (relation "measure (\<lambda>(dl, lucks, len, i, st). len - i)") auto

declare unload_loop.simps [simp del]

definition modules_unloadall :: "'h dl_env \<Rightarrow> (nat \<Rightarrow> luck) \<Rightarrow> 'h loader \<Rightarrow> fault + 'h loader" where
  "modules_unloadall dl lucks st =
     (if array_mutex st then Inl Blocked
      else
        and_then (threadpool_waitall (job_pool st))
          (\<lambda>tp. and_then (unload_loop dl lucks (loaded_len st) 0 (st\<lparr>job_pool := tp\<rparr>))
             (\<lambda>st. Inr (st\<lparr>cmds := fst (modules_cmds_clean (cmds st))\<rparr>))))"

text \<open>The test of a directory entry: the last dot is followed by the letters s and o.\<close>

definition is_module_file :: "string \<Rightarrow> bool" where
  "is_module_file name \<longleftrightarrow>
     (case strchr (rev name) (CHR ''.'') of
        None \<Rightarrow> False
      | Some k \<Rightarrow> (case drop (length name - k) name of a # b # rest \<Rightarrow> a = CHR ''s'' \<and> b = CHR ''o'' | _ \<Rightarrow> False))"

fun rescan_loop :: "'h dl_env \<Rightarrow> string \<Rightarrow> (string \<times> luck) list \<Rightarrow> 'h loader \<Rightarrow> fault + 'h loader" where
  "rescan_loop dl mod_dir [] st = Inr st"
| "rescan_loop dl mod_dir ((name, luck) # dir) st =
     (if strncmp_eq name ''.'' then rescan_loop dl mod_dir dir st
      else if is_module_file name then
        and_then (modules_loadmod dl mod_dir luck name st) (\<lambda>st. rescan_loop dl mod_dir dir st)
      else rescan_loop dl mod_dir dir st)"

text \<open>The entries of the directory are \<open>None\<close> where it cannot be opened. The unlock at the end is of a mutex that is not held.\<close>

definition modules_rescanall ::
    "'h dl_env \<Rightarrow> string \<Rightarrow> (nat \<Rightarrow> luck) \<Rightarrow> (string \<times> luck) list option \<Rightarrow> 'h loader \<Rightarrow> fault + 'h loader" where
  "modules_rescanall dl mod_dir lucks folder st =
     and_then (if loaded_use st > 0 then modules_unloadall dl lucks st else Inr st)
       (\<lambda>st.
          case folder of
            None \<Rightarrow> Inl Process_Exit
          | Some dir \<Rightarrow> and_then (rescan_loop dl mod_dir dir st) (\<lambda>st. Inr (st\<lparr>array_mutex := False\<rparr>)))"

text \<open>One event of the directory watcher: the search for the file, then unloading and loading.\<close>

function find_file :: "'h loader \<Rightarrow> string \<Rightarrow> nat \<Rightarrow> fault + (nat \<times> nat) option" where
  "find_file st name i =
     (if i < loaded_len st then
        and_then (arr_read (loaded st) (int i))
          (\<lambda>p. case p of
             None \<Rightarrow> find_file st name (i + 1)
           | Some a \<Rightarrow> and_then (ctx_at st a) (\<lambda>c. if ctx_fn c = name then Inr (Some (a, i)) else find_file st name (i + 1)))
      else Inr None)"
  by pat_completeness auto
termination
  by (relation "measure (\<lambda>(st, name, i). loaded_len st - i)") auto

declare find_file.simps [simp del]

definition watch_event ::
    "'h dl_env \<Rightarrow> string \<Rightarrow> luck \<Rightarrow> luck \<Rightarrow> string \<Rightarrow> bool \<Rightarrow> 'h loader \<Rightarrow> fault + 'h loader" where
  "watch_event dl mod_dir luck luck' name deleted st =
     (if array_mutex st then Inl Blocked
      else
        and_then (find_file st name 0)
          (\<lambda>found.
             and_then (case found of None \<Rightarrow> Inr st | Some (a, i) \<Rightarrow> modules_unloadmod dl luck a (loaded_block st, i) True st)
               (\<lambda>st. if deleted then Inr st else modules_loadmod dl mod_dir luck' name st)))"

text \<open>
  The watcher. A read gives the events that were waiting and fit \<open>in_buf\<close>, of which only the first is looked at; the loop waits when
  the reads are used up. The result has the descriptors the watcher leaves open.
\<close>

record watched =
  ev_name :: string
  ev_deleted :: bool
  ev_luck :: luck
  ev_luck' :: luck

datatype watch_read =
    Watch_error
  | Watch_events watched "watched list"

fun watch_loop :: "'h dl_env \<Rightarrow> string \<Rightarrow> watch_read list \<Rightarrow> 'h loader \<Rightarrow> fault + 'h loader \<times> bool" where
  "watch_loop dl mod_dir [] st = Inr (st, False)"
| "watch_loop dl mod_dir (Watch_error # reads) st = Inr (st, True)"
| "watch_loop dl mod_dir (Watch_events evt more_events # reads) st =
     and_then (watch_event dl mod_dir (ev_luck evt) (ev_luck' evt) (ev_name evt) (ev_deleted evt) st)
       (\<lambda>st. watch_loop dl mod_dir reads st)"

definition modules_watchdir ::
    "'h dl_env \<Rightarrow> string \<Rightarrow> int \<Rightarrow> int \<Rightarrow> watch_read list \<Rightarrow> 'h loader \<Rightarrow> fault + 'h loader \<times> int list" where
  "modules_watchdir dl mod_dir fd wd reads st =
     (if fd = -1 then Inr (st, [])
      else if wd = -1 then Inr (st, [fd])
      else and_then (watch_loop dl mod_dir reads st) (\<lambda>(st, ended). Inr (st, if ended then [] else [fd])))"

text \<open>
  The threads. A handler whose library has been closed faults. In the init thread a fault takes the same way as a
  result other than 0. A fault on that way itself - the write through \<open>ctx_pos\<close>, the call of \<open>dlclose\<close>, the access to the context -
  would, where the signal comes, jump back to \<open>execution_failed\<close> and do the same accesses again; here it is the value of the
  thread, which ends with it.
\<close>

definition threadpool_wrapper_init :: "'h dl_env \<Rightarrow> job_args \<Rightarrow> 'h loader \<Rightarrow> fault + 'h loader" where
  "threadpool_wrapper_init dl arg st =
     (let failed = (\<lambda>st. and_then (ctx_at st (job_ctx arg)) (\<lambda>c. and_then (clear_pos st (job_pos arg)) (\<lambda>st. close_free st (job_ctx arg)))) in
      if job_handler arg \<in> set (handles st) then
        (case code_init (dl_code dl (job_handler arg)) of
           None \<Rightarrow> failed st
         | Some f \<Rightarrow> (let (t, ret) = f (cmds st); st = st\<lparr>cmds := t\<rparr> in if ret = 0 then Inr st else failed st))
      else failed st)"

definition threadpool_wrapper_deinit :: "'h dl_env \<Rightarrow> job_args \<Rightarrow> 'h loader \<Rightarrow> fault + 'h loader" where
  "threadpool_wrapper_deinit dl arg st =
     (let st = (if job_handler arg \<in> set (handles st) then
                  (case code_cleanup (dl_code dl (job_handler arg)) of None \<Rightarrow> st | Some f \<Rightarrow> st\<lparr>cmds := f (cmds st)\<rparr>)
                else st) in
      and_then (clear_pos st (job_pos arg)) (\<lambda>st. close_free st (job_ctx arg)))"

text \<open>
  A thread runs up to the loop in which it waits to give its slot back, and then gives it back, which it does not survive
  if the pool has been freed.
\<close>

definition run_thread :: "'h dl_env \<Rightarrow> nat \<Rightarrow> 'h loader \<Rightarrow> fault + 'h loader" where
  "run_thread dl k st =
     and_then (arr_read (threads st) (int k))
       (\<lambda>job.
          case job of
            Init_job arg \<Rightarrow> threadpool_wrapper_init dl arg (st\<lparr>threads := (threads st)[k := Done_job arg]\<rparr>)
          | Deinit_job arg \<Rightarrow> threadpool_wrapper_deinit dl arg (st\<lparr>threads := (threads st)[k := Done_job arg]\<rparr>)
          | Done_job arg \<Rightarrow>
              if job_n arg \<ge> length (pool_slots (job_pool st)) then Inl Out_Of_Bounds
              else
                (case thread_exit (job_pool st) (job_n arg) of
                   None \<Rightarrow> Inr st
                 | Some tp \<Rightarrow> Inr (st\<lparr>job_pool := tp, threads := take k (threads st) @ drop (Suc k) (threads st)\<rparr>)))"

text \<open>\<open>modules_init\<close>: the initial array of 6 slots, and the defaults.\<close>

definition modules_init :: "nat option \<Rightarrow> bool \<Rightarrow> 'h loader \<Rightarrow> 'h loader \<times> int" where
  "modules_init block pool_malloc st =
     (case block of
        None \<Rightarrow> (st, -1)
      | Some b \<Rightarrow> (st\<lparr>loaded := replicate (loaded_len st) None, loaded_block := b,
                        job_pool := fst (threadpool_init True pool_malloc (job_pool st))\<rparr>, 0))"

definition module_dir :: "string option \<Rightarrow> string" where
  "module_dir env = (case env of None \<Rightarrow> ''modules/'' | Some d \<Rightarrow> d)"

definition command_prefix :: "string option \<Rightarrow> string" where
  "command_prefix env = (case env of None \<Rightarrow> '','' | Some p \<Rightarrow> p)"

definition modules_deinit :: "'h dl_env \<Rightarrow> (nat \<Rightarrow> luck) \<Rightarrow> 'h loader \<Rightarrow> fault + 'h loader" where
  "modules_deinit dl lucks st =
     and_then (modules_unloadall dl lucks st)
       (\<lambda>st. and_then (threadpool_deinit (job_pool st)) (\<lambda>tp. Inr (st\<lparr>job_pool := tp\<rparr>)))"

section \<open>Steps that succeed\<close>

text \<open>
  \<open>loaded_use\<close> counts at least the slots that are taken and stays below the length, and every slot that is taken has a context of its
  own on the heap.
\<close>

definition used :: "'a option list \<Rightarrow> nat" where
  "used xs = length (filter (\<lambda>x. x \<noteq> None) xs)"

definition slots_live :: "nat option list \<Rightarrow> (nat \<Rightarrow> core_ctx option) \<Rightarrow> bool" where
  "slots_live xs cs \<longleftrightarrow>
     (\<forall>i < length xs. \<forall>a. xs ! i = Some a \<longrightarrow> cs a \<noteq> None \<and> (\<forall>j < length xs. xs ! j = Some a \<longrightarrow> j = i))"

definition loader_ok :: "'h loader \<Rightarrow> bool" where
  "loader_ok st \<longleftrightarrow> length (loaded st) = loaded_len st \<and> \<not> array_mutex st \<and> pool_ok (job_pool st) \<and>
     int (used (loaded st)) \<le> loaded_use st \<and> loaded_use st < int (loaded_len st) \<and> slots_live (loaded st) (ctxs st)"

definition module_loaded :: "'h loader \<Rightarrow> string \<Rightarrow> bool" where
  "module_loaded st name \<longleftrightarrow>
     (\<exists>i < loaded_len st. \<exists>a c. loaded st ! i = Some a \<and> ctxs st a = Some c \<and> ctx_fn c = name)"

text \<open>The file name fits \<open>local_file\<close>.\<close>

definition path_ok :: "luck \<Rightarrow> string \<Rightarrow> string \<Rightarrow> bool" where
  "path_ok luck mod_dir mod_file \<longleftrightarrow> length (path_cells luck) = PATH_MAX \<and> c_str mod_dir \<and> c_str mod_file \<and>
     length mod_dir + length mod_file < PATH_MAX"

lemma local_path_ok:
  assumes "path_ok luck mod_dir mod_file"
  shows "local_path (path_cells luck) mod_dir mod_file = Inr (mod_dir @ mod_file)"
proof -
  have len: "length (path_cells luck) = 4096" "length mod_dir + length mod_file < 4096" "c_str mod_dir" "c_str mod_file"
    using assms by (auto simp: path_ok_def PATH_MAX_def)
  let ?d = "length mod_dir" let ?f = "length mod_file"
  have 1: "arr_blit (path_cells luck) 0 mod_dir = Inr (mod_dir @ drop ?d (path_cells luck))"
    using len by (cases "mod_dir = []") (simp_all add: arr_blit_def)
  have 2: "arr_blit (mod_dir @ drop ?d (path_cells luck)) (int ?d) (mod_file @ [NUL]) =
      Inr ((mod_dir @ mod_file) @ NUL # drop (?d + ?f + 1) (path_cells luck))"
    using len by (simp add: arr_blit_def add.commute)
  have "c_string_at ((mod_dir @ mod_file) @ NUL # drop (?d + ?f + 1) (path_cells luck)) 0 = Inr (mod_dir @ mod_file)"
    using len(3,4) by (intro c_string_at_0) simp
  with 1 2 show ?thesis by (simp add: local_path_def)
qed

lemma used_full: "\<forall>i < length xs. xs ! i \<noteq> None \<Longrightarrow> used xs = length xs"
  unfolding used_def by (rule arg_cong [where f = length], rule filter_True) (auto simp: in_set_conv_nth)

lemma used_append_free: "used (xs @ replicate n None) = used xs"
  by (simp add: used_def)

lemma used_split:
  assumes "i < length xs"
  shows "used (xs[i := x]) = used (take i xs) + used [x] + used (drop (Suc i) xs)"
    and "used xs = used (take i xs) + used [xs ! i] + used (drop (Suc i) xs)"
  using arg_cong [OF id_take_nth_drop [OF assms], of used] assms
  by (simp_all add: used_def upd_conv_take_nth_drop)

lemma used_take: "i < length xs \<Longrightarrow> xs ! i = None \<Longrightarrow> used (xs[i := Some a]) = used xs + 1"
  using used_split(1) [of i xs "Some a"] used_split(2) [of i xs] by (simp add: used_def)

lemma used_clear: "used (xs[i := None]) \<le> used xs"
proof (cases "i < length xs")
  case True
  then show ?thesis using used_split(1) [of i xs None] used_split(2) [of i xs] by (simp add: used_def)
qed (simp add: list_update_beyond)

lemma free_slot:
  assumes "length xs = len" and "int (used xs) < int len"
  obtains k where "find_slot xs len 0 = Inr k" and "k < len" and "xs ! k = None"
proof -
  from find_slot_ok [OF assms(1), of 0] obtain k where
    k: "find_slot xs len 0 = Inr k" "k \<le> len" "\<forall>i < k. xs ! i \<noteq> None" "k < len \<longrightarrow> xs ! k = None" by auto
  have "k \<noteq> len" using k(3) used_full [of xs] assms by auto
  with k that show ?thesis by auto
qed

lemma queue_job_ok:
  assumes "pool_ok (job_pool st)" and "slot_realloc luck"
  obtains tp n where "queue_job luck arg kind st = Inr (st\<lparr>job_pool := tp,
      threads := (if slot_malloc luck \<and> thread_create luck then kind (arg n) # threads st else threads st)\<rparr>)"
    and "pool_ok tp" and "n < pool_len tp"
proof -
  obtain tp n where s: "threadpool_queue_findspace True (slot_junk luck) (job_pool st) = Inr (tp, Some n)" "pool_ok tp" "n < pool_len tp"
    using findspace_ok [OF assms(1)] by blast
  define cs where "cs = (pool_slots tp)[n := (if slot_malloc luck then Some (arg n) else None)]"
  have "pool_ok (tp\<lparr>pool_slots := cs\<rparr>)" using s(2) by (simp add: pool_ok_def cs_def)
  moreover have "n < pool_len (tp\<lparr>pool_slots := cs\<rparr>)" using s(3) by simp
  moreover have "arr_write (pool_slots tp) (int n) (if slot_malloc luck then Some (arg n) else None) = Inr cs"
    using s(2,3) by (simp add: cs_def pool_ok_def)
  ultimately show ?thesis using s(1) assms(2) that by (simp add: queue_job_def)
qed

text \<open>Placing a module in the first free slot.\<close>

lemma place_module_ok:
  assumes "length (loaded st) = loaded_len st" and "pool_ok (job_pool st)" and "used (loaded st) < loaded_len st"
    and "slot_realloc luck"
  obtains k where "k < loaded_len st" and "loaded st ! k = None"
    and "ctx_block luck = None \<longrightarrow> place_module luck h mod_file st = Inr (st\<lparr>handles := remove1 h (handles st)\<rparr>)"
    and "\<forall>a. ctx_block luck = Some a \<longrightarrow> (\<exists>tp n. pool_ok tp \<and> n < pool_len tp \<and> place_module luck h mod_file st =
      Inr (st\<lparr>ctxs := (ctxs st)(a := Some \<lparr>ctx_dlsym = h, ctx_fn = mod_file\<rparr>), loaded := (loaded st)[k := Some a], job_pool := tp,
        threads := (if slot_malloc luck \<and> thread_create luck
          then Init_job \<lparr>job_n = n, job_handler = h, job_ctx = a, job_pos = (loaded_block st, k)\<rparr> # threads st else threads st),
        loaded_use := loaded_use st + 1\<rparr>))"
proof -
  note len = assms(1,3)
  obtain k where k: "find_slot (loaded st) (loaded_len st) 0 = Inr k" "k < loaded_len st" "loaded st ! k = None"
    using free_slot [OF len(1)] len(2) by auto
  have same: "(loaded st)[k := None] = loaded st" using k(3) by (metis list_update_id)
  show ?thesis
  proof (rule that [OF k(2,3)], intro impI, goal_cases)
    case 1
    then show "place_module luck h mod_file st = Inr (st\<lparr>handles := remove1 h (handles st)\<rparr>)"
      using k len(1) same by (simp add: place_module_def modules_ctx_new_def)
  next
    case 2
    show ?case
    proof (intro allI impI)
    fix a assume a: "ctx_block luck = Some a"
    let ?st = "st\<lparr>ctxs := (ctxs st)(a := Some \<lparr>ctx_dlsym = h, ctx_fn = mod_file\<rparr>), loaded := (loaded st)[k := Some a]\<rparr>"
    have pool: "pool_ok (job_pool ?st)" using assms(2) by simp
    obtain tp n where q: "threadpool_queue_init luck a h (loaded_block ?st, k) ?st = Inr (?st\<lparr>job_pool := tp,
        threads := (if slot_malloc luck \<and> thread_create luck
          then Init_job \<lparr>job_n = n, job_handler = h, job_ctx = a, job_pos = (loaded_block ?st, k)\<rparr> # threads ?st else threads ?st)\<rparr>)"
      "pool_ok tp" "n < pool_len tp"
      unfolding threadpool_queue_init_def using pool assms(4) by (rule queue_job_ok)
    then show "\<exists>tp n. pool_ok tp \<and> n < pool_len tp \<and> place_module luck h mod_file st =
      Inr (st\<lparr>ctxs := (ctxs st)(a := Some \<lparr>ctx_dlsym = h, ctx_fn = mod_file\<rparr>), loaded := (loaded st)[k := Some a], job_pool := tp,
        threads := (if slot_malloc luck \<and> thread_create luck
          then Init_job \<lparr>job_n = n, job_handler = h, job_ctx = a, job_pos = (loaded_block st, k)\<rparr> # threads st else threads st),
        loaded_use := loaded_use st + 1\<rparr>)"
      using k len(1) a by (intro exI [of _ tp] exI [of _ n]) (simp add: place_module_def modules_ctx_new_def Let_def)
    qed
  qed
qed

lemma place_module_some:
  assumes "length (loaded st) = loaded_len st" and "pool_ok (job_pool st)" and "used (loaded st) < loaded_len st"
    and "slot_realloc luck" and "ctx_block luck = Some a"
  obtains k tp n ths where "k < loaded_len st" and "loaded st ! k = None" and "pool_ok tp" and "n < pool_len tp"
    and "place_module luck h mod_file st = Inr (st\<lparr>ctxs := (ctxs st)(a := Some \<lparr>ctx_dlsym = h, ctx_fn = mod_file\<rparr>),
      loaded := (loaded st)[k := Some a], job_pool := tp, threads := ths, loaded_use := loaded_use st + 1\<rparr>)"
    and "ths = (if slot_malloc luck \<and> thread_create luck
      then Init_job \<lparr>job_n = n, job_handler = h, job_ctx = a, job_pos = (loaded_block st, k)\<rparr> # threads st else threads st)"
proof -
  obtain k where k: "k < loaded_len st" "loaded st ! k = None" and some: "\<forall>a. ctx_block luck = Some a \<longrightarrow>
    (\<exists>tp n. pool_ok tp \<and> n < pool_len tp \<and> place_module luck h mod_file st =
      Inr (st\<lparr>ctxs := (ctxs st)(a := Some \<lparr>ctx_dlsym = h, ctx_fn = mod_file\<rparr>), loaded := (loaded st)[k := Some a], job_pool := tp,
        threads := (if slot_malloc luck \<and> thread_create luck
          then Init_job \<lparr>job_n = n, job_handler = h, job_ctx = a, job_pos = (loaded_block st, k)\<rparr> # threads st else threads st),
        loaded_use := loaded_use st + 1\<rparr>))"
    using place_module_ok [OF assms(1-4), where h = h and mod_file = mod_file] by blast
  from some [rule_format, OF assms(5)] that [OF k _ _ _ refl] show ?thesis by blast
qed

lemma slots_liveD:
  assumes "slots_live xs cs" and "i < length xs" and "xs ! i = Some a"
  shows "cs a \<noteq> None" and "j < length xs \<Longrightarrow> xs ! j = Some a \<Longrightarrow> j = i"
  using assms unfolding slots_live_def by blast+

lemma slots_live_grow:
  assumes "slots_live xs cs"
  shows "slots_live (xs @ replicate n None) cs"
  unfolding slots_live_def
proof (intro allI impI)
  fix i a assume i: "i < length (xs @ replicate n None)" and a: "(xs @ replicate n None) ! i = Some a"
  have old: "j < length xs \<and> xs ! j = Some b"
    if "j < length (xs @ replicate n None)" and "(xs @ replicate n None) ! j = Some b" for j b
    using that by (cases "j < length xs") (simp_all add: nth_append)
  from old [OF i a] assms have "cs a \<noteq> None" and uniq: "\<forall>j < length xs. xs ! j = Some a \<longrightarrow> j = i"
    by (auto simp: slots_live_def)
  then show "cs a \<noteq> None \<and> (\<forall>j < length (xs @ replicate n None). (xs @ replicate n None) ! j = Some a \<longrightarrow> j = i)"
    using old by blast
qed

lemma slots_live_put:
  assumes "slots_live xs cs" and "cs a = None"
  shows "slots_live (xs[k := Some a]) (cs(a := Some c))"
  unfolding slots_live_def length_list_update
proof (intro allI impI)
  fix i b assume i: "i < length xs" and b: "xs[k := Some a] ! i = Some b"
  have other: "xs ! j \<noteq> Some a" if "j < length xs" for j
    using slots_liveD(1) [OF assms(1) that, of a] assms(2) by blast
  show "(cs(a := Some c)) b \<noteq> None \<and> (\<forall>j < length xs. xs[k := Some a] ! j = Some b \<longrightarrow> j = i)"
  proof (cases "i = k")
    case True
    then have "b = a" using i b by simp
    moreover have "j = i" if "j < length xs" and "xs[k := Some a] ! j = Some a" for j
      using that other [of j] True by (cases "j = k") simp_all
    ultimately show ?thesis by auto
  next
    case False
    then have xb: "xs ! i = Some b" using b by simp
    then have "b \<noteq> a" and "cs b \<noteq> None" using other [OF i] slots_liveD(1) [OF assms(1) i xb] by auto
    moreover have "j = i" if "j < length xs" and "xs[k := Some a] ! j = Some b" for j
    proof -
      have "xs ! j = Some b" using that \<open>b \<noteq> a\<close> by (cases "j = k") simp_all
      then show ?thesis by (rule slots_liveD(2) [OF assms(1) i xb that(1)])
    qed
    ultimately show ?thesis by auto
  qed
qed

lemma slots_live_drop:
  assumes "slots_live xs cs" and "k < length xs" and "xs ! k = Some a"
  shows "slots_live (xs[k := None]) (cs(a := None))"
  unfolding slots_live_def length_list_update
proof (intro allI impI)
  fix i b assume i: "i < length xs" and b: "xs[k := None] ! i = Some b"
  have old: "j \<noteq> k \<and> xs ! j = Some d" if "j < length xs" and "xs[k := None] ! j = Some d" for j d
    using that by (cases "j = k") simp_all
  have ik: "i \<noteq> k" and xb: "xs ! i = Some b" using old [OF i b] by simp_all
  have "b \<noteq> a"
  proof
    assume "b = a"
    then have "xs ! i = Some a" using xb by simp
    from slots_liveD(2) [OF assms i this] show False using ik by simp
  qed
  moreover have "cs b \<noteq> None" and "\<forall>j < length xs. xs ! j = Some b \<longrightarrow> j = i"
    using slots_liveD [OF assms(1) i xb] by blast+
  ultimately show "(cs(a := None)) b \<noteq> None \<and> (\<forall>j < length xs. xs[k := None] ! j = Some b \<longrightarrow> j = i)"
    using old by simp
qed

lemma grow_loaded_ok:
  assumes "loader_ok st" and "grow_loaded luck st = Some st'"
  shows "loader_ok st' \<and> loaded_use st' + 1 < int (loaded_len st') \<and> loaded_use st' = loaded_use st \<and> ctxs st' = ctxs st \<and>
    handles st' = handles st \<and> (\<exists>n. loaded st' = loaded st @ replicate n None)"
  using assms
  by (auto simp: grow_loaded_def loader_ok_def used_append_free slots_live_grow split: if_splits option.splits
      intro: exI [of _ 0])

lemma loader_ok_handles [simp]: "loader_ok (st\<lparr>handles := hs\<rparr>) = loader_ok st"
  by (simp add: loader_ok_def)

text \<open>
  Loading keeps the invariant and, in particular, never ends the process. Modules that are in the array stay there, and a file
  that \<open>dlopen\<close> takes and that has \<open>module_init\<close> gets a slot when there is memory.
\<close>

definition loadable :: "'h dl_env \<Rightarrow> string \<Rightarrow> luck \<Rightarrow> string \<Rightarrow> bool" where
  "loadable dl mod_dir luck name \<longleftrightarrow>
     (case dl_open dl (mod_dir @ name) of None \<Rightarrow> False | Some h \<Rightarrow> code_init (dl_code dl h) \<noteq> None) \<and>
     array_block luck \<noteq> None \<and> ctx_block luck \<noteq> None"

lemma module_loaded_put:
  assumes "length (loaded st) = loaded_len st" and "k < loaded_len st" and "loaded st ! k = None" and "ctxs st a = None"
    and "loaded st' = (loaded st)[k := Some a]" and "ctxs st' = (ctxs st)(a := Some \<lparr>ctx_dlsym = h, ctx_fn = f\<rparr>)"
    and "loaded_len st' = loaded_len st"
  shows "module_loaded st' f" and "module_loaded st name \<Longrightarrow> module_loaded st' name"
proof -
  have "loaded st' ! k = Some a" and "ctxs st' a = Some \<lparr>ctx_dlsym = h, ctx_fn = f\<rparr>" using assms by simp_all
  then show "module_loaded st' f" using assms(2,7) unfolding module_loaded_def by force
next
  assume "module_loaded st name"
  then obtain i b c where b: "i < loaded_len st" "loaded st ! i = Some b" "ctxs st b = Some c" "ctx_fn c = name"
    unfolding module_loaded_def by blast
  then have "i \<noteq> k" and "b \<noteq> a" using assms(3,4) by auto
  then have "loaded st' ! i = Some b" and "ctxs st' b = Some c" using b assms(5,6) by simp_all
  then show "module_loaded st' name" using b assms(7) unfolding module_loaded_def by auto
qed

lemma module_loaded_grow:
  assumes "grow_loaded luck st = Some st'" and "length (loaded st) = loaded_len st" and "module_loaded st name"
  shows "module_loaded st' name"
proof -
  obtain i b c where b: "i < loaded_len st" "loaded st ! i = Some b" "ctxs st b = Some c" "ctx_fn c = name"
    using assms(3) unfolding module_loaded_def by blast
  have "loaded st' ! i = Some b \<and> ctxs st' = ctxs st \<and> loaded_len st \<le> loaded_len st'"
    using assms(1,2) b by (auto simp: grow_loaded_def nth_append split: if_splits option.splits)
  then show ?thesis using b unfolding module_loaded_def by (auto intro: exI [of _ i])
qed

lemma loadmod_ok:
  assumes "loader_ok st" and "slot_realloc luck" and "path_ok luck mod_dir mod_file"
    and fresh: "\<And>a. ctx_block luck = Some a \<Longrightarrow> ctxs st a = None"
  obtains st' where "modules_loadmod dl mod_dir luck mod_file st = Inr st'" and "loader_ok st'"
    and "\<forall>a. ctxs st' a \<noteq> None \<longrightarrow> ctxs st a \<noteq> None \<or> ctx_block luck = Some a"
    and "\<forall>name. module_loaded st name \<longrightarrow> module_loaded st' name"
    and "loadable dl mod_dir luck mod_file \<longrightarrow> module_loaded st' mod_file"
proof -
  have free: "\<not> array_mutex st" using assms(1) by (simp add: loader_ok_def)
  consider (none) "modules_loadmod dl mod_dir luck mod_file st = Inr st" "\<not> loadable dl mod_dir luck mod_file"
    | (place) h st1 where "modules_loadmod dl mod_dir luck mod_file st = place_module luck h mod_file st1"
        "grow_loaded luck (st\<lparr>handles := h # handles st\<rparr>) = Some st1"
  proof (cases "dl_open dl (mod_dir @ mod_file)")
    case None
    then show ?thesis using none local_path_ok [OF assms(3)] by (simp add: modules_loadmod_def loadable_def)
  next
    case (Some h)
    show ?thesis
    proof (cases "code_init (dl_code dl h) = None \<or> grow_loaded luck (st\<lparr>handles := h # handles st\<rparr>) = None")
      case True
      then have "\<not> loadable dl mod_dir luck mod_file"
        using Some by (auto simp: loadable_def grow_loaded_def split: if_splits option.splits)
      with True show ?thesis using none local_path_ok [OF assms(3)] free Some by (auto simp: modules_loadmod_def)
    next
      case False
      then obtain st1 where g: "grow_loaded luck (st\<lparr>handles := h # handles st\<rparr>) = Some st1" by auto
      have "modules_loadmod dl mod_dir luck mod_file st = place_module luck h mod_file st1"
        using False g local_path_ok [OF assms(3)] free Some by (auto simp: modules_loadmod_def)
      then show ?thesis using g by (rule place)
    qed
  qed
  then show ?thesis
  proof cases
    case none
    with assms(1) that [of st] show ?thesis by blast
  next
    case place
    have ok: "loader_ok (st\<lparr>handles := h # handles st\<rparr>)" using assms(1) by simp
    from grow_loaded_ok [OF ok place(2)] have st1: "loader_ok st1" "loaded_use st1 + 1 < int (loaded_len st1)" "ctxs st1 = ctxs st"
      by auto
    have keep: "module_loaded st name \<Longrightarrow> module_loaded st1 name" for name
      using module_loaded_grow [OF place(2), of name] assms(1) by (simp add: loader_ok_def module_loaded_def)
    have pre: "length (loaded st1) = loaded_len st1" "pool_ok (job_pool st1)" "used (loaded st1) < loaded_len st1"
      using st1(1) by (auto simp: loader_ok_def)
    obtain k where k: "k < loaded_len st1" "loaded st1 ! k = None"
      "ctx_block luck = None \<longrightarrow> place_module luck h mod_file st1 = Inr (st1\<lparr>handles := remove1 h (handles st1)\<rparr>)"
      "\<forall>a. ctx_block luck = Some a \<longrightarrow> (\<exists>tp n. pool_ok tp \<and> n < pool_len tp \<and> place_module luck h mod_file st1 =
        Inr (st1\<lparr>ctxs := (ctxs st1)(a := Some \<lparr>ctx_dlsym = h, ctx_fn = mod_file\<rparr>), loaded := (loaded st1)[k := Some a], job_pool := tp,
          threads := (if slot_malloc luck \<and> thread_create luck
            then Init_job \<lparr>job_n = n, job_handler = h, job_ctx = a, job_pos = (loaded_block st1, k)\<rparr> # threads st1 else threads st1),
          loaded_use := loaded_use st1 + 1\<rparr>))"
      using place_module_ok [OF pre assms(2), where h = h and mod_file = mod_file] by blast
    show ?thesis
    proof (cases "ctx_block luck")
      case None
      let ?st = "st1\<lparr>handles := remove1 h (handles st1)\<rparr>"
      show ?thesis
      proof (rule that [of ?st])
        show "modules_loadmod dl mod_dir luck mod_file st = Inr ?st" using None k(3) place(1) by simp
        show "\<forall>name. module_loaded st name \<longrightarrow> module_loaded ?st name" using keep by (simp add: module_loaded_def)
      qed (use st1 None in \<open>simp_all add: loadable_def\<close>)
    next
      case (Some a)
      from k(4) [rule_format, OF this] obtain tp ths where tp: "pool_ok tp" and run: "modules_loadmod dl mod_dir luck mod_file st =
        Inr (st1\<lparr>ctxs := (ctxs st1)(a := Some \<lparr>ctx_dlsym = h, ctx_fn = mod_file\<rparr>), loaded := (loaded st1)[k := Some a], job_pool := tp,
          threads := ths, loaded_use := loaded_use st1 + 1\<rparr>)" (is "_ = Inr ?st") using place(1) by auto
      have len: "length (loaded st1) = loaded_len st1" and fr: "ctxs st1 a = None"
        using st1 fresh [OF Some] by (simp_all add: loader_ok_def)
      have "used ((loaded st1)[k := Some a]) = used (loaded st1) + 1" using len k(1,2) by (intro used_take) auto
      then have "loader_ok ?st" using st1 tp fresh [OF Some] by (simp add: loader_ok_def slots_live_put)
      moreover have "module_loaded ?st mod_file" and "module_loaded st1 name \<Longrightarrow> module_loaded ?st name" for name
        by (rule module_loaded_put [OF len k(1,2) fr, where h = h and f = mod_file]; simp)+
      ultimately show ?thesis using run st1(3) Some keep by (intro that [of ?st]) auto
    qed
  qed
qed

text \<open>The init thread keeps the invariant too, as long as the array has not moved under it.\<close>

lemma init_thread_ok:
  assumes "loader_ok st" and "k < length (threads st)" and "threads st ! k = Init_job arg"
    and "job_pos arg = (loaded_block st, i)" and "i < loaded_len st" and "loaded st ! i = Some (job_ctx arg)"
  shows "\<exists>st'. run_thread dl k st = Inr st' \<and> loader_ok st'"
proof -
  let ?st = "st\<lparr>threads := (threads st)[k := Done_job arg]\<rparr>"
  have len: "length (loaded st) = loaded_len st" "slots_live (loaded st) (ctxs st)" using assms(1) by (auto simp: loader_ok_def)
  then obtain c where c: "ctxs st (job_ctx arg) = Some c"
    using slots_liveD(1) [OF len(2), of i] assms(5,6) by auto
  have fail: "\<exists>st'. and_then (ctx_at (?st\<lparr>cmds := t\<rparr>) (job_ctx arg))
      (\<lambda>c. and_then (clear_pos (?st\<lparr>cmds := t\<rparr>) (job_pos arg)) (\<lambda>st. close_free st (job_ctx arg))) = Inr st' \<and> loader_ok st'" for t
    using assms(1,4-6) len c used_clear [of "loaded st" i] slots_live_drop [OF len(2), of i]
    by (auto simp: ctx_at_def clear_pos_def close_free_def loader_ok_def)
  have keep: "?st\<lparr>cmds := cmds st\<rparr> = ?st" by simp
  have "loader_ok (?st\<lparr>cmds := t\<rparr>)" for t using assms(1) by (simp add: loader_ok_def)
  then show ?thesis
    using assms(2,3) fail [of "cmds st", unfolded keep] fail
    by (auto simp: run_thread_def threadpool_wrapper_init_def Let_def split: option.splits prod.splits)
qed


section \<open>Scanning the directory\<close>

text \<open>The entries that are handed to \<open>modules_loadmod\<close>, and what the memory gives for them.\<close>

definition wanted :: "string \<Rightarrow> bool" where
  "wanted name \<longleftrightarrow> \<not> strncmp_eq name ''.'' \<and> is_module_file name"

definition entries_ok :: "string \<Rightarrow> (nat \<Rightarrow> core_ctx option) \<Rightarrow> (string \<times> luck) list \<Rightarrow> bool" where
  "entries_ok mod_dir cs dir \<longleftrightarrow>
     (\<forall>e \<in> set dir. slot_realloc (snd e) \<and> path_ok (snd e) mod_dir (fst e) \<and>
        (case ctx_block (snd e) of None \<Rightarrow> True | Some a \<Rightarrow> cs a = None)) \<and>
     distinct (List.map_filter (\<lambda>e. ctx_block (snd e)) dir)"

lemma map_filter_Cons_Some: "f e = Some b \<Longrightarrow> List.map_filter f (e # es) = b # List.map_filter f es"
  by (simp add: List.map_filter_simps)

lemma in_map_filter: "e \<in> set es \<Longrightarrow> f e = Some b \<Longrightarrow> b \<in> set (List.map_filter f es)"
  by (induction es) (auto simp: List.map_filter_simps split: option.splits)

lemma entries_ok_Cons:
  assumes "entries_ok mod_dir cs ((name, luck) # dir)"
  shows "slot_realloc luck" and "path_ok luck mod_dir name" and "ctx_block luck = Some a \<Longrightarrow> cs a = None"
    and "\<forall>a. cs' a \<noteq> None \<longrightarrow> cs a \<noteq> None \<or> ctx_block luck = Some a \<Longrightarrow> entries_ok mod_dir cs' dir"
proof -
  assume new: "\<forall>a. cs' a \<noteq> None \<longrightarrow> cs a \<noteq> None \<or> ctx_block luck = Some a"
  have "cs' b = None" if "e \<in> set dir" and "ctx_block (snd e) = Some b" for e b
  proof -
    have "cs b = None" using assms that by (auto simp: entries_ok_def)
    moreover have "ctx_block luck \<noteq> Some b"
    proof
      assume "ctx_block luck = Some b"
      then have "b \<notin> set (List.map_filter (\<lambda>e. ctx_block (snd e)) dir)"
        using assms map_filter_Cons_Some [of "\<lambda>e. ctx_block (snd e)" "(name, luck)" b dir] by (simp add: entries_ok_def)
      with in_map_filter [OF that(1), of "\<lambda>e. ctx_block (snd e)", OF that(2)] show False by blast
    qed
    ultimately show ?thesis using new by blast
  qed
  moreover have "distinct (List.map_filter (\<lambda>e. ctx_block (snd e)) dir)"
    using assms by (auto simp: entries_ok_def List.map_filter_simps split: option.splits)
  ultimately show "entries_ok mod_dir cs' dir"
    using assms by (auto simp: entries_ok_def split: option.splits)
qed (use assms in \<open>auto simp: entries_ok_def\<close>)

lemma rescan_loop_ok:
  assumes "loader_ok st" and "entries_ok mod_dir (ctxs st) dir"
  shows "\<exists>st'. rescan_loop dl mod_dir dir st = Inr st' \<and> loader_ok st' \<and>
    (\<forall>name. module_loaded st name \<longrightarrow> module_loaded st' name) \<and>
    (\<forall>(name, luck) \<in> set dir. wanted name \<longrightarrow> loadable dl mod_dir luck name \<longrightarrow> module_loaded st' name)"
  using assms
proof (induction dir arbitrary: st)
  case Nil
  then show ?case by simp
next
  case (Cons e dir)
  obtain name luck where e: "e = (name, luck)" by (cases e)
  note entry = entries_ok_Cons [OF Cons.prems(2) [unfolded e]]
  show ?case
  proof (cases "wanted name")
    case False
    then have "rescan_loop dl mod_dir (e # dir) st = rescan_loop dl mod_dir dir st" by (auto simp: e wanted_def)
    moreover have "entries_ok mod_dir (ctxs st) dir" by (rule entry(4)) simp
    ultimately show ?thesis using Cons.IH [OF Cons.prems(1)] False by (simp add: e)
  next
    case True
    obtain st1 where st1: "modules_loadmod dl mod_dir luck name st = Inr st1" "loader_ok st1"
      "\<forall>a. ctxs st1 a \<noteq> None \<longrightarrow> ctxs st a \<noteq> None \<or> ctx_block luck = Some a"
      "\<forall>name. module_loaded st name \<longrightarrow> module_loaded st1 name"
      "loadable dl mod_dir luck name \<longrightarrow> module_loaded st1 name"
      by (rule loadmod_ok [OF Cons.prems(1) entry(1,2,3), where dl = dl])
    have "rescan_loop dl mod_dir (e # dir) st = rescan_loop dl mod_dir dir st1" using True st1(1) by (simp add: e wanted_def)
    moreover have "entries_ok mod_dir (ctxs st1) dir" by (rule entry(4) [OF st1(3)])
    ultimately show ?thesis using Cons.IH [OF st1(2)] st1(4,5) by (auto simp: e)
  qed
qed

text \<open>
  the scan at the start of the program, from \<open>modules_init\<close> on. Whatever the libraries do and whichever allocations of
  the array, the contexts and the threads fail, the scan comes to its end with the array in good order and \<open>__code_error\<close> is
  not reached; each file of the directory that is a module and for which there was memory has a slot.
\<close>

lemma rescan_never_exits:
  assumes "loaded_len st = 6" and "loaded_use st = 0" and "\<not> array_mutex st" and "pool_len (job_pool st) = 2"
    and "pool_flags (job_pool st) = 0" and "entries_ok mod_dir (ctxs st) dir"
  shows "\<exists>st'. modules_rescanall dl mod_dir lucks (Some dir) (fst (modules_init (Some b) True st)) = Inr st' \<and> loader_ok st' \<and>
    (\<forall>(name, luck) \<in> set dir. wanted name \<longrightarrow> loadable dl mod_dir luck name \<longrightarrow> module_loaded st' name)"
proof -
  let ?st = "fst (modules_init (Some b) True st)"
  have "loader_ok ?st" and "loaded_use ?st = 0" and "ctxs ?st = ctxs st"
    using assms(1-5) by (simp_all add: modules_init_def loader_ok_def threadpool_init_def pool_ok_def used_def slots_live_def)
  moreover from rescan_loop_ok [OF this(1), of mod_dir dir dl] assms(6) this(3) obtain st' where
    "rescan_loop dl mod_dir dir ?st = Inr st'" and "loader_ok st'"
    and "\<forall>(name, luck) \<in> set dir. wanted name \<longrightarrow> loadable dl mod_dir luck name \<longrightarrow> module_loaded st' name" by auto
  moreover have "st'\<lparr>array_mutex := False\<rparr> = st'" using calculation by (simp add: loader_ok_def)
  ultimately show ?thesis by (simp add: modules_rescanall_def)
qed

section \<open>Reloading\<close>

lemma ex_from: "(\<exists>i \<ge> n. P i) \<longleftrightarrow> P n \<or> (\<exists>i \<ge> Suc n. P i)"
  by (metis Suc_leD Suc_leI le_refl nat_less_le)

lemma find_file_ok:
  assumes "\<And>i a. i < loaded_len st \<Longrightarrow> loaded st ! i = Some a \<Longrightarrow> ctxs st a \<noteq> None" and "length (loaded st) = loaded_len st"
  shows "(if \<exists>i \<ge> n. i < loaded_len st \<and> (\<exists>a c. loaded st ! i = Some a \<and> ctxs st a = Some c \<and> ctx_fn c = name)
    then \<exists>a i c. find_file st name n = Inr (Some (a, i)) \<and> i < loaded_len st \<and> loaded st ! i = Some a \<and> ctxs st a = Some c \<and> ctx_fn c = name
    else find_file st name n = Inr None)"
  (is "if ?found n then ?some n else ?none n")
proof (induction "loaded_len st - n" arbitrary: n)
  case 0
  then have "\<not> ?found n" and "?none n" by (auto simp: find_file.simps [of st name n])
  then show ?case by simp
next
  case (Suc d)
  then have n: "n < loaded_len st" and d: "d = loaded_len st - (n + 1)" by simp_all
  have step: "find_file st name n = (case loaded st ! n of None \<Rightarrow> find_file st name (n + 1)
      | Some a \<Rightarrow> and_then (ctx_at st a) (\<lambda>c. if ctx_fn c = name then Inr (Some (a, n)) else find_file st name (n + 1)))"
    using n assms(2) by (subst find_file.simps) (simp split: option.split)
  have found: "?found n \<longleftrightarrow> (\<exists>a c. loaded st ! n = Some a \<and> ctxs st a = Some c \<and> ctx_fn c = name) \<or> ?found (n + 1)"
    using n by (subst ex_from) simp
  show ?case
  proof (cases "\<exists>a c. loaded st ! n = Some a \<and> ctxs st a = Some c \<and> ctx_fn c = name")
    case True
    then have "?some n" using n by (auto simp: step ctx_at_def)
    with True found show ?thesis by simp
  next
    case False
    then have "find_file st name n = find_file st name (n + 1)"
      using assms(1) [OF n] by (cases "loaded st ! n") (auto simp: step ctx_at_def)
    then show ?thesis using Suc(1) [OF d] by (simp only: found False simp_thms)
  qed
qed

lemma find_file_loaded:
  assumes len: "length (loaded st) = loaded_len st" and live: "slots_live (loaded st) (ctxs st)"
  shows "module_loaded st name \<Longrightarrow>
      \<exists>a i c. find_file st name 0 = Inr (Some (a, i)) \<and> i < loaded_len st \<and> loaded st ! i = Some a \<and> ctxs st a = Some c \<and> ctx_fn c = name"
    and "\<not> module_loaded st name \<Longrightarrow> find_file st name 0 = Inr None"
proof -
  have slots: "ctxs st a \<noteq> None" if "i < loaded_len st" and "loaded st ! i = Some a" for i a
    using slots_liveD(1) [OF live, of i a] that len by simp
  note find = find_file_ok [where st = st and n = 0 and name = name, OF slots len]
  show "module_loaded st name \<Longrightarrow>
      \<exists>a i c. find_file st name 0 = Inr (Some (a, i)) \<and> i < loaded_len st \<and> loaded st ! i = Some a \<and> ctxs st a = Some c \<and> ctx_fn c = name"
    and "\<not> module_loaded st name \<Longrightarrow> find_file st name 0 = Inr None"
    using find by (auto simp: module_loaded_def split: if_splits)
qed

lemma unloadmod_ok:
  assumes "pool_ok (job_pool st)" and "slot_realloc luck" and "ctxs st a = Some c"
    and "code_cleanup (dl_code dl (ctx_dlsym c)) \<noteq> None"
  obtains tp n where "modules_unloadmod dl luck a pos wait st = Inr (st\<lparr>job_pool := tp,
      threads := (if slot_malloc luck \<and> thread_create luck
        then Deinit_job \<lparr>job_n = n, job_handler = ctx_dlsym c, job_ctx = a, job_pos = pos\<rparr> # threads st else threads st),
      loaded_use := loaded_use st - 1\<rparr>)"
    and "pool_ok tp" and "n < pool_len tp"
proof -
  from queue_job_ok [OF assms(1,2)] obtain tp n where
    "threadpool_queue_deinit luck (ctx_dlsym c) a pos wait st = Inr (st\<lparr>job_pool := tp,
      threads := (if slot_malloc luck \<and> thread_create luck
        then Deinit_job \<lparr>job_n = n, job_handler = ctx_dlsym c, job_ctx = a, job_pos = pos\<rparr> # threads st else threads st)\<rparr>)"
    "pool_ok tp" "n < pool_len tp" unfolding threadpool_queue_deinit_def by blast
  then show ?thesis using assms(3,4) by (intro that) (auto simp: modules_unloadmod_def ctx_at_def)
qed

lemma find_slot_taken:
  assumes "length xs = len" and "used xs = len"
  shows "find_slot xs len 0 = Inr len"
proof -
  from find_slot_ok [OF assms(1), of 0] obtain k where
    k: "find_slot xs len 0 = Inr k" "k \<le> len" "k < len \<longrightarrow> xs ! k = None" by auto
  have "xs ! k \<noteq> None" if "k < len"
    using length_filter_less [of "xs ! k" xs "\<lambda>x. x \<noteq> None"] that assms nth_mem [of k xs] by (auto simp: used_def)
  with k show ?thesis by (cases "k = len") auto
qed

text \<open>The last step of a reload, with room in the array and without.\<close>

lemma loadmod_no_growth:
  assumes "path_ok luck mod_dir name" and "dl_open dl (mod_dir @ name) = Some h" and "code_init (dl_code dl h) \<noteq> None"
    and "\<not> array_mutex st" and "loaded_use st + 1 < int (loaded_len st)"
  shows "modules_loadmod dl mod_dir luck name st = place_module luck h name (st\<lparr>handles := h # handles st\<rparr>)"
  using assms(2-5) local_path_ok [OF assms(1)] by (auto simp: modules_loadmod_def grow_loaded_def)

lemma reload_without_room:
  assumes "length (loaded st) = loaded_len st" and "slots_live (loaded st) (ctxs st)" and "pool_ok (job_pool st)" and "\<not> array_mutex st"
    and full: "used (loaded st) = loaded_len st" and use: "loaded_use st < int (loaded_len st)"
    and name: "module_loaded st name" and "\<And>h. code_cleanup (dl_code dl h) \<noteq> None"
    and "dl_open dl (mod_dir @ name) = Some h" and "code_init (dl_code dl h) \<noteq> None"
    and "slot_realloc luck" and "path_ok luck' mod_dir name"
  shows "watch_event dl mod_dir luck luck' name False st = Inl Process_Exit"
proof -
  obtain a i c where found: "find_file st name 0 = Inr (Some (a, i))" "ctxs st a = Some c"
    using find_file_loaded(1) [OF assms(1,2) name] by blast
  obtain tp n where "modules_unloadmod dl luck a (loaded_block st, i) True st = Inr (st\<lparr>job_pool := tp,
      threads := (if slot_malloc luck \<and> thread_create luck
        then Deinit_job \<lparr>job_n = n, job_handler = ctx_dlsym c, job_ctx = a, job_pos = (loaded_block st, i)\<rparr> # threads st else threads st),
      loaded_use := loaded_use st - 1\<rparr>)" (is "_ = Inr ?st")
    using unloadmod_ok [OF assms(3,11) found(2) assms(8)] by blast
  moreover have "modules_loadmod dl mod_dir luck' name ?st = place_module luck' h name (?st\<lparr>handles := h # handles ?st\<rparr>)"
    using assms(4) use by (intro loadmod_no_growth assms(9,10,12)) simp_all
  moreover have "place_module luck' h name (?st\<lparr>handles := h # handles ?st\<rparr>) = Inl Process_Exit"
    using find_slot_taken [OF assms(1) full] by (simp add: place_module_def)
  ultimately show ?thesis using found(1) assms(4) by (simp add: watch_event_def)
qed

text \<open>
  C28: two reloads while the array is full but for one slot. A reload counts the module out at once but its slot stays taken until
  the cleanup thread has run, and the join that should wait for the thread fails on a detached thread. So when two files change
  before a cleanup thread has run, the second load finds neither a reason to grow the array nor a free slot, and ends the process.
\<close>

theorem hot_reload_exits:
  assumes ok: "loader_ok st" and "loaded_use st = int (used (loaded st))" and "used (loaded st) + 1 = loaded_len st"
    and files: "module_loaded st f" "module_loaded st g" and cleanup: "\<And>h. code_cleanup (dl_code dl h) \<noteq> None"
    and f: "dl_open dl (mod_dir @ f) = Some hf" "code_init (dl_code dl hf) \<noteq> None" "path_ok luck2 mod_dir f"
    and g: "dl_open dl (mod_dir @ g) = Some hg" "code_init (dl_code dl hg) \<noteq> None" "path_ok luck4 mod_dir g"
    and luck: "slot_realloc luck1" "slot_realloc luck2" "slot_realloc luck3" "ctx_block luck2 = Some x" "ctxs st x = None"
  shows "and_then (watch_event dl mod_dir luck1 luck2 f False st) (\<lambda>st. watch_event dl mod_dir luck3 luck4 g False st) = Inl Process_Exit"
proof -
  have len: "length (loaded st) = loaded_len st" and live: "slots_live (loaded st) (ctxs st)" and "pool_ok (job_pool st)" "\<not> array_mutex st"
    using ok by (simp_all add: loader_ok_def)
  obtain a i c where found: "find_file st f 0 = Inr (Some (a, i))" "ctxs st a = Some c"
    using find_file_loaded(1) [OF len live files(1)] by blast
  obtain tp ths where unload: "modules_unloadmod dl luck1 a (loaded_block st, i) True st =
      Inr (st\<lparr>job_pool := tp, threads := ths, loaded_use := loaded_use st - 1\<rparr>)" (is "_ = Inr ?st1") "pool_ok tp"
    using unloadmod_ok [OF \<open>pool_ok (job_pool st)\<close> luck(1) found(2) cleanup] by metis
  let ?st2 = "?st1\<lparr>handles := hf # handles ?st1\<rparr>"
  have load: "modules_loadmod dl mod_dir luck2 f ?st1 = place_module luck2 hf f ?st2"
    using assms(2,3) \<open>\<not> array_mutex st\<close> by (intro loadmod_no_growth f) simp_all
  have room: "length (loaded ?st2) = loaded_len ?st2" "pool_ok (job_pool ?st2)" "used (loaded ?st2) < loaded_len ?st2"
    using len unload(2) assms(3) by simp_all
  obtain k tp' ths' where "k < loaded_len ?st2" "loaded ?st2 ! k = None" and "pool_ok tp'" and "place_module luck2 hf f ?st2 =
      Inr (?st2\<lparr>ctxs := (ctxs ?st2)(x := Some \<lparr>ctx_dlsym = hf, ctx_fn = f\<rparr>), loaded := (loaded ?st2)[k := Some x], job_pool := tp',
        threads := ths', loaded_use := loaded_use ?st2 + 1\<rparr>)" (is "_ = Inr ?st3")
    by (rule place_module_some [OF room luck(2,4), where h = hf and mod_file = f]) blast
  then have k: "k < loaded_len st" "loaded st ! k = None" "pool_ok tp'" and "place_module luck2 hf f ?st2 = Inr ?st3" by simp_all
  then have "watch_event dl mod_dir luck1 luck2 f False st = Inr ?st3"
    using found(1) unload(1) load \<open>\<not> array_mutex st\<close> by (simp add: watch_event_def)
  moreover have "watch_event dl mod_dir luck3 luck4 g False ?st3 = Inl Process_Exit"
  proof (rule reload_without_room [OF _ _ _ _ _ _ _ cleanup g(1,2) luck(3) g(3)])
    show "slots_live (loaded ?st3) (ctxs ?st3)" using live luck(5) by (simp add: slots_live_put)
    show "used (loaded ?st3) = loaded_len ?st3" using used_take [of k "loaded st" x] k len assms(3) by simp
    show "module_loaded ?st3 g"
      by (rule module_loaded_put(2) [OF len k(1,2) luck(5), where h = hf and f = f]) (use files(2) in simp_all)
  qed (use len k assms(2,3) \<open>\<not> array_mutex st\<close> in simp_all)
  ultimately show ?thesis by simp
qed

theorem hot_reload_exits_witness:
  "\<exists>st (dl :: nat dl_env) luck. loaded_len st = 6 \<and> loaded_use st = 5 \<and>
    and_then (watch_event dl ''m/'' luck luck ''a.so'' False st) (\<lambda>st. watch_event dl ''m/'' luck luck ''b.so'' False st) = Inl Process_Exit"
proof -
  let ?dl = "\<lparr>dl_open = \<lambda>_. Some 9, dl_code = (\<lambda>h. \<lparr>code_init = Some (\<lambda>t. (t, 0)), code_cleanup = Some (\<lambda>t. t)\<rparr>)\<rparr> :: nat dl_env"
  let ?luck = "\<lparr>array_block = Some 2, ctx_block = Some 9, slot_realloc = True, slot_malloc = True, thread_create = True,
    slot_junk = None, path_cells = replicate 4096 NUL\<rparr> :: luck"
  let ?xs = "[Some 0, Some 1, Some 2, Some 3, Some 4, None] :: nat option list"
  let ?st = "\<lparr>loaded = ?xs, loaded_block = 0, loaded_len = 6, loaded_use = 5, array_mutex = False,
    ctxs = (\<lambda>a. if a < 5 then Some \<lparr>ctx_dlsym = a, ctx_fn = [''a.so'', ''b.so'', ''c.so'', ''d.so'', ''e.so''] ! a\<rparr> else None),
    handles = [0, 1, 2, 3, 4], cmds = new_node :: nat command_tree,
    job_pool = \<lparr>pool_slots = [None, None], pool_len = 2, pool_flags = 0\<rparr>, threads = []\<rparr>"
  have xs: "i < 6 \<Longrightarrow> ?xs ! i = Some a \<Longrightarrow> a = i \<and> i < 5" for i a
    by (auto simp: less_Suc_eq numeral_eq_Suc)
  have "slots_live ?xs (ctxs ?st)"
    unfolding slots_live_def
  proof (intro allI impI)
    fix i a assume "i < length ?xs" and a: "?xs ! i = Some a"
    then have i: "i < 6" by simp
    show "ctxs ?st a \<noteq> None \<and> (\<forall>j < length ?xs. ?xs ! j = Some a \<longrightarrow> j = i)"
    proof (intro conjI allI impI)
      show "ctxs ?st a \<noteq> None" using xs [OF i a] by simp
      fix j assume "j < length ?xs" and b: "?xs ! j = Some a"
      then have "j < 6" by simp
      from xs [OF this b] xs [OF i a] show "j = i" by simp
    qed
  qed
  then have ok: "loader_ok ?st" by (simp add: loader_ok_def pool_ok_def used_def)
  have files: "module_loaded ?st ''a.so''" "module_loaded ?st ''b.so''"
    unfolding module_loaded_def by (rule exI [of _ 0], simp) (rule exI [of _ 1], simp)
  have path: "path_ok ?luck ''m/'' ''a.so''" "path_ok ?luck ''m/'' ''b.so''" by (simp_all add: path_ok_def PATH_MAX_def)
  have "and_then (watch_event ?dl ''m/'' ?luck ?luck ''a.so'' False ?st) (\<lambda>st. watch_event ?dl ''m/'' ?luck ?luck ''b.so'' False st)
    = Inl Process_Exit"
    by (rule hot_reload_exits [OF ok _ _ files, where hf = 9 and hg = 9 and x = 9]) (use path in \<open>simp_all add: used_def\<close>)
  moreover have "loaded_len ?st = 6" and "loaded_use ?st = 5" by simp_all
  ultimately show ?thesis by blast
qed

section \<open>A module from its load to its unload\<close>

text \<open>The newest thread from its start to its end.\<close>

definition run_newest :: "'h dl_env \<Rightarrow> 'h loader \<Rightarrow> fault + 'h loader" where
  "run_newest dl st = and_then (run_thread dl 0 st) (run_thread dl 0)"

lemma run_done:
  assumes "pool_ok (job_pool st)" and "threads st = Done_job arg # ts" and "job_n arg < pool_len (job_pool st)"
  shows "\<exists>tp. pool_ok tp \<and> run_thread dl 0 st = Inr (st\<lparr>job_pool := tp, threads := ts\<rparr>)"
  using assms by (intro exI [of _ "(job_pool st)\<lparr>pool_slots := (pool_slots (job_pool st))[job_n arg := None]\<rparr>"])
    (auto simp: run_thread_def thread_exit_def pool_ok_def)

lemma run_newest_init:
  assumes "pool_ok (job_pool st)" and "threads st = Init_job arg # ts" and "job_n arg < pool_len (job_pool st)"
    and "job_handler arg \<in> set (handles st)" and "code_init (dl_code dl (job_handler arg)) = Some f" and "f (cmds st) = (t, 0)"
  shows "\<exists>tp. pool_ok tp \<and> run_newest dl st = Inr (st\<lparr>job_pool := tp, threads := ts, cmds := t\<rparr>)"
proof -
  let ?st = "st\<lparr>threads := Done_job arg # ts, cmds := t\<rparr>"
  have "run_thread dl 0 st = Inr ?st"
    using assms by (simp add: run_thread_def threadpool_wrapper_init_def)
  moreover obtain tp where "pool_ok tp" "run_thread dl 0 ?st = Inr (?st\<lparr>job_pool := tp, threads := ts\<rparr>)"
    using run_done [of ?st arg ts] assms by auto
  ultimately show ?thesis by (auto simp: run_newest_def)
qed

lemma run_newest_deinit:
  assumes "pool_ok (job_pool st)" and "threads st = Deinit_job arg # ts" and "job_n arg < pool_len (job_pool st)"
    and "job_handler arg \<in> set (handles st)" and "code_cleanup (dl_code dl (job_handler arg)) = Some f"
    and "job_pos arg = (loaded_block st, k)" and "k < length (loaded st)" and "ctxs st (job_ctx arg) = Some c"
  shows "\<exists>tp. pool_ok tp \<and> run_newest dl st = Inr (st\<lparr>job_pool := tp, threads := ts, cmds := f (cmds st),
    loaded := (loaded st)[k := None], handles := remove1 (ctx_dlsym c) (handles st), ctxs := (ctxs st)(job_ctx arg := None)\<rparr>)"
proof -
  let ?st = "st\<lparr>threads := Done_job arg # ts, cmds := f (cmds st), loaded := (loaded st)[k := None],
    handles := remove1 (ctx_dlsym c) (handles st), ctxs := (ctxs st)(job_ctx arg := None)\<rparr>"
  have "run_thread dl 0 st = Inr ?st"
    using assms by (simp add: run_thread_def threadpool_wrapper_deinit_def clear_pos_def close_free_def ctx_at_def)
  moreover obtain tp where "pool_ok tp" "run_thread dl 0 ?st = Inr (?st\<lparr>job_pool := tp, threads := ts\<rparr>)"
    using run_done [of ?st arg ts] assms by auto
  ultimately show ?thesis by (auto simp: run_newest_def)
qed

text \<open>One event that loads a new module and one that unloads it, each with its thread.\<close>

lemma load_event:
  assumes ok: "loader_ok st" and room: "loaded_use st + 1 < int (loaded_len st)" and new: "\<not> module_loaded st name"
    and opens: "dl_open dl (mod_dir @ name) = Some h" "path_ok luck mod_dir name"
    and init: "code_init (dl_code dl h) = Some f" "f (cmds st) = (t1, 0)"
    and luck: "slot_realloc luck" "slot_malloc luck" "thread_create luck" "ctx_block luck = Some a" "ctxs st a = None"
  obtains k tp where "and_then (watch_event dl mod_dir luck0 luck name False st) (run_newest dl) =
      Inr (st\<lparr>handles := h # handles st, ctxs := (ctxs st)(a := Some \<lparr>ctx_dlsym = h, ctx_fn = name\<rparr>),
        loaded := (loaded st)[k := Some a], job_pool := tp, loaded_use := loaded_use st + 1, cmds := t1\<rparr>)"
    and "k < loaded_len st" and "loaded st ! k = None" and "pool_ok tp"
proof -
  have len: "length (loaded st) = loaded_len st" and live: "slots_live (loaded st) (ctxs st)" and pool: "pool_ok (job_pool st)"
    and free: "\<not> array_mutex st" and used: "used (loaded st) < loaded_len st"
    using ok by (auto simp: loader_ok_def)
  let ?c = "\<lparr>ctx_dlsym = h, ctx_fn = name\<rparr>"
  let ?st0 = "st\<lparr>handles := h # handles st\<rparr>"
  have load: "modules_loadmod dl mod_dir luck name st = place_module luck h name ?st0"
    using free room init by (intro loadmod_no_growth opens) simp_all
  obtain k tp n ths where k: "k < loaded_len ?st0" "loaded ?st0 ! k = None" and tp: "pool_ok tp" "n < pool_len tp"
    and place: "place_module luck h name ?st0 = Inr (?st0\<lparr>ctxs := (ctxs ?st0)(a := Some ?c), loaded := (loaded ?st0)[k := Some a],
      job_pool := tp, threads := ths, loaded_use := loaded_use ?st0 + 1\<rparr>)" (is "_ = Inr ?st1")
    and ths: "ths = (if slot_malloc luck \<and> thread_create luck
      then Init_job \<lparr>job_n = n, job_handler = h, job_ctx = a, job_pos = (loaded_block ?st0, k)\<rparr> # threads ?st0 else threads ?st0)"
    by (rule place_module_some [where st = ?st0 and h = h and mod_file = name, OF _ _ _ luck(1,4)])
      (use len pool used in simp_all)
  have "watch_event dl mod_dir luck0 luck name False st = Inr ?st1"
    using find_file_loaded(2) [OF len live new] load place free by (simp add: watch_event_def)
  moreover obtain tp1 where "pool_ok tp1" "run_newest dl ?st1 = Inr (?st1\<lparr>job_pool := tp1, threads := threads st, cmds := t1\<rparr>)"
    using run_newest_init [of ?st1 "\<lparr>job_n = n, job_handler = h, job_ctx = a, job_pos = (loaded_block st, k)\<rparr>" "threads st" dl _ t1]
      tp ths luck init by auto
  ultimately show ?thesis using k by (intro that) simp_all
qed

lemma unload_event:
  assumes "find_file st name 0 = Inr (Some (a, k))" and "ctxs st a = Some c" and "k < length (loaded st)"
    and "pool_ok (job_pool st)" and "\<not> array_mutex st" and "ctx_dlsym c \<in> set (handles st)"
    and "code_cleanup (dl_code dl (ctx_dlsym c)) = Some g" and "slot_realloc luck" "slot_malloc luck" "thread_create luck"
  obtains tp where "and_then (watch_event dl mod_dir luck luck1 name True st) (run_newest dl) =
      Inr (st\<lparr>job_pool := tp, cmds := g (cmds st), loaded := (loaded st)[k := None],
        handles := remove1 (ctx_dlsym c) (handles st), ctxs := (ctxs st)(a := None), loaded_use := loaded_use st - 1\<rparr>)"
    and "pool_ok tp"
proof -
  obtain tp n where unload: "modules_unloadmod dl luck a (loaded_block st, k) True st = Inr (st\<lparr>job_pool := tp,
      threads := (if slot_malloc luck \<and> thread_create luck
        then Deinit_job \<lparr>job_n = n, job_handler = ctx_dlsym c, job_ctx = a, job_pos = (loaded_block st, k)\<rparr> # threads st else threads st),
      loaded_use := loaded_use st - 1\<rparr>)" (is "_ = Inr ?st3") and tp: "pool_ok tp" "n < pool_len tp"
    by (rule unloadmod_ok [of st luck a c dl]) (use assms in simp_all)
  then have "watch_event dl mod_dir luck luck1 name True st = Inr ?st3"
    using assms(1,5) by (simp add: watch_event_def)
  moreover obtain tp3 where "pool_ok tp3" "run_newest dl ?st3 = Inr (?st3\<lparr>job_pool := tp3, threads := threads st,
      cmds := g (cmds ?st3), loaded := (loaded ?st3)[k := None], handles := remove1 (ctx_dlsym c) (handles ?st3), ctxs := (ctxs ?st3)(a := None)\<rparr>)"
    using run_newest_deinit [of ?st3 "\<lparr>job_n = n, job_handler = ctx_dlsym c, job_ctx = a, job_pos = (loaded_block st, k)\<rparr>" "threads st"
        dl g k c] tp assms by auto
  ultimately show ?thesis by (intro that [of tp3]) simp_all
qed

text \<open>After the load the search finds the new module and no other.\<close>

lemma find_placed:
  assumes ok: "loader_ok st" and new: "\<not> module_loaded st name" and k: "k < loaded_len st" "loaded st ! k = None" and a: "ctxs st a = None"
    and st': "loaded st' = (loaded st)[k := Some a]" "ctxs st' = (ctxs st)(a := Some \<lparr>ctx_dlsym = h, ctx_fn = name\<rparr>)"
      "loaded_len st' = loaded_len st"
  shows "find_file st' name 0 = Inr (Some (a, k))" and "module_loaded st' name"
proof -
  have len: "length (loaded st) = loaded_len st" and live: "slots_live (loaded st) (ctxs st)" using ok by (auto simp: loader_ok_def)
  show there: "module_loaded st' name" using len k a st' by (rule module_loaded_put(1))
  have "length (loaded st') = loaded_len st'" using len st' by simp
  moreover have "slots_live (loaded st') (ctxs st')" unfolding st' using live a by (rule slots_live_put)
  ultimately obtain b i c where b: "find_file st' name 0 = Inr (Some (b, i))" "i < loaded_len st"
    "(loaded st)[k := Some a] ! i = Some b" "((ctxs st)(a := Some \<lparr>ctx_dlsym = h, ctx_fn = name\<rparr>)) b = Some c" "ctx_fn c = name"
    using find_file_loaded(1) [of st' name] there unfolding st' by blast
  have "i = k"
  proof (rule ccontr)
    assume "i \<noteq> k"
    then have old: "loaded st ! i = Some b" using b(3) by simp
    then have "b \<noteq> a" using slots_liveD(1) [OF live, of i b] b(2) len a by auto
    then show False using new old b(2,4,5) unfolding module_loaded_def by auto
  qed
  then show "find_file st' name 0 = Inr (Some (a, k))" using b(1-3) len by simp
qed

text \<open>
  The contract of a module: when its \<open>module_init\<close> reports 0 it has registered a list of commands, and its
  \<open>module_cleanup\<close> removes their names.
\<close>

locale command_module =
  fixes init :: "'h command_tree \<Rightarrow> 'h command_tree \<times> int"
    and cleanup :: "'h command_tree \<Rightarrow> 'h command_tree"
    and cs :: "(string \<times> 'h) list"
    and mem :: nat
  assumes init_registers: "init t = (t', 0) \<Longrightarrow> register_list (modules_register_cmd mem) t cs = (t', 0)"
    and cleanup_unregisters: "cleanup t = unregister_list modules_unregister_cmd t (map fst cs)"
begin

lemma init_lookup:
  assumes "tree_wf t" and "init t = (t', 0)"
  shows "tree_wf t'"
    and "cmd_lookup t' m = (case last_binding same_command cs m of Some h \<Rightarrow> Some h | None \<Rightarrow> cmd_lookup t m)"
  using ct.register_list_inv [OF assms(1) init_registers [OF assms(2)]]
    ct.register_list_lookup [OF assms(1) init_registers [OF assms(2)]] by auto

lemma cleanup_lookup:
  "tree_wf t \<Longrightarrow> cmd_lookup (cleanup t) m = (if \<exists>c \<in> set cs. same_command (fst c) m then None else cmd_lookup t m)"
  using ct.unregister_list_lookup [of t "map fst cs" m] by (auto simp: cleanup_unregisters)

text \<open>A file with such a module that appears and disappears again.\<close>

lemma file_lifecycle:
  assumes ok: "loader_ok st" and room: "loaded_use st + 1 < int (loaded_len st)" and new: "\<not> module_loaded st name"
    and opens: "dl_open dl (mod_dir @ name) = Some h" "path_ok luck1 mod_dir name"
    and code: "code_init (dl_code dl h) = Some init" "code_cleanup (dl_code dl h) = Some cleanup"
    and tree: "tree_wf (cmds st)" "init (cmds st) = (t1, 0)"
    and luck1: "slot_realloc luck1" "slot_malloc luck1" "thread_create luck1" "ctx_block luck1 = Some a" "ctxs st a = None"
    and luck2: "slot_realloc luck2" "slot_malloc luck2" "thread_create luck2"
  shows "\<exists>st1 st2. and_then (watch_event dl mod_dir luck0 luck1 name False st) (run_newest dl) = Inr st1 \<and>
    and_then (watch_event dl mod_dir luck2 luck3 name True st1) (run_newest dl) = Inr st2 \<and> module_loaded st1 name \<and>
    (\<forall>m. cmd_lookup (cmds st1) m = (case last_binding same_command cs m of Some h \<Rightarrow> Some h | None \<Rightarrow> cmd_lookup (cmds st) m)) \<and>
    (\<forall>m. cmd_lookup (cmds st2) m = (if \<exists>c \<in> set cs. same_command (fst c) m then None else cmd_lookup (cmds st1) m)) \<and>
    loaded st2 = loaded st \<and> ctxs st2 = ctxs st \<and> handles st2 = handles st \<and> loaded_use st2 = loaded_use st \<and>
    threads st2 = threads st \<and> loader_ok st2"
proof -
  obtain k tp where first: "and_then (watch_event dl mod_dir luck0 luck1 name False st) (run_newest dl) =
      Inr (st\<lparr>handles := h # handles st, ctxs := (ctxs st)(a := Some \<lparr>ctx_dlsym = h, ctx_fn = name\<rparr>),
        loaded := (loaded st)[k := Some a], job_pool := tp, loaded_use := loaded_use st + 1, cmds := t1\<rparr>)" (is "_ = Inr ?st1")
    and k: "k < loaded_len st" "loaded st ! k = None" and tp: "pool_ok tp"
    by (rule load_event [OF ok room new opens code(1) tree(2) luck1])
  note placed = find_placed [OF ok new k luck1(5), of ?st1 h]
  obtain tp2 where second: "and_then (watch_event dl mod_dir luck2 luck3 name True ?st1) (run_newest dl) =
      Inr (?st1\<lparr>job_pool := tp2, cmds := cleanup (cmds ?st1), loaded := (loaded ?st1)[k := None],
        handles := remove1 (ctx_dlsym \<lparr>ctx_dlsym = h, ctx_fn = name\<rparr>) (handles ?st1), ctxs := (ctxs ?st1)(a := None),
        loaded_use := loaded_use ?st1 - 1\<rparr>)" (is "_ = Inr ?st2") and tp2: "pool_ok tp2"
    by (rule unload_event [of ?st1 name a k "\<lparr>ctx_dlsym = h, ctx_fn = name\<rparr>" dl cleanup luck2 mod_dir luck3])
      (use placed(1) ok k(1) tp code luck2 in \<open>simp_all add: loader_ok_def\<close>)
  have "(loaded st)[k := None] = loaded st" using k(2) list_update_id [of "loaded st" k] by simp
  then have restored: "loaded ?st2 = loaded st" "ctxs ?st2 = ctxs st" "handles ?st2 = handles st" "loaded_use ?st2 = loaded_use st"
    "threads ?st2 = threads st" using luck1(5) by (simp_all add: fun_upd_idem)
  then have "loader_ok ?st2" using ok tp2 by (simp add: loader_ok_def)
  then show ?thesis
    using restored first second placed(2) init_lookup [OF tree] cleanup_lookup [OF init_lookup(1) [OF tree]]
    by (intro exI [of _ ?st1] exI [of _ ?st2]) simp
qed

end

interpretation listed: command_module "\<lambda>t. register_list (modules_register_cmd mem) t cs"
    "\<lambda>t. unregister_list modules_unregister_cmd t (map fst cs)" cs mem for mem cs
  by unfold_locales auto

section \<open>Properties\<close>

text \<open>
  C21: a module file that is written and deleted again, with the threads running in between. The watcher loads it, its commands
  resolve once the init thread has run, and after the deletion and the cleanup thread the array, the contexts, the open libraries
  and the count are what they were and none of its commands resolves.
\<close>

theorem module_file_lifecycle:
  assumes ok: "loader_ok st" and room: "loaded_use st + 1 < int (loaded_len st)" and new: "\<not> module_loaded st name"
    and opens: "dl_open dl (mod_dir @ name) = Some h" "path_ok luck1 mod_dir name"
    and init: "code_init (dl_code dl h) = Some (\<lambda>t. register_list (modules_register_cmd mem) t cs)"
    and cleanup: "code_cleanup (dl_code dl h) = Some (\<lambda>t. unregister_list modules_unregister_cmd t (map fst cs))"
    and tree: "tree_wf (cmds st)" "register_list (modules_register_cmd mem) (cmds st) cs = (t1, 0)"
    and luck1: "slot_realloc luck1" "slot_malloc luck1" "thread_create luck1" "ctx_block luck1 = Some a" "ctxs st a = None"
    and luck2: "slot_realloc luck2" "slot_malloc luck2" "thread_create luck2"
  shows "\<exists>st1 st2. and_then (watch_event dl mod_dir luck0 luck1 name False st) (run_newest dl) = Inr st1 \<and>
    and_then (watch_event dl mod_dir luck2 luck3 name True st1) (run_newest dl) = Inr st2 \<and> module_loaded st1 name \<and>
    (\<forall>m. cmd_lookup (cmds st1) m = (case last_binding same_command cs m of Some h \<Rightarrow> Some h | None \<Rightarrow> cmd_lookup (cmds st) m)) \<and>
    (\<forall>m. cmd_lookup (cmds st2) m = (if \<exists>c \<in> set cs. same_command (fst c) m then None else cmd_lookup (cmds st1) m)) \<and>
    loaded st2 = loaded st \<and> ctxs st2 = ctxs st \<and> handles st2 = handles st \<and> loaded_use st2 = loaded_use st \<and>
    threads st2 = threads st \<and> loader_ok st2"
  by (rule listed.file_lifecycle [OF assms])

theorem module_file_lifecycle_witness:
  "\<exists>(dl :: nat dl_env) luck st st1 st2. and_then (watch_event dl ''m/'' luck luck ''op.so'' False st) (run_newest dl) = Inr st1 \<and>
    and_then (watch_event dl ''m/'' luck luck ''op.so'' True st1) (run_newest dl) = Inr st2 \<and>
    cmd_lookup (cmds st1) ''op'' = Some 1 \<and> cmd_lookup (cmds st2) ''op'' = None \<and> loaded st2 = loaded st"
proof -
  let ?cs = "[(''op'', 1 :: nat)]"
  let ?dl = "\<lparr>dl_open = \<lambda>_. Some 9, dl_code = (\<lambda>h. \<lparr>code_init = Some (\<lambda>t. register_list (modules_register_cmd 26) t ?cs),
    code_cleanup = Some (\<lambda>t. unregister_list modules_unregister_cmd t (map fst ?cs))\<rparr>)\<rparr> :: nat dl_env"
  let ?luck = "\<lparr>array_block = Some 2, ctx_block = Some 9, slot_realloc = True, slot_malloc = True, thread_create = True,
    slot_junk = None, path_cells = replicate 4096 NUL\<rparr> :: luck"
  let ?st = "\<lparr>loaded = replicate 6 None, loaded_block = 0, loaded_len = 6, loaded_use = 0, array_mutex = False, ctxs = (\<lambda>_. None),
    handles = [], cmds = new_node :: nat command_tree, job_pool = \<lparr>pool_slots = [None, None], pool_len = 2, pool_flags = 0\<rparr>, threads = []\<rparr>"
  have ok: "loader_ok ?st" by (simp add: loader_ok_def pool_ok_def used_def slots_live_def)
  have new: "\<not> module_loaded ?st ''op.so''" by (simp add: module_loaded_def)
  obtain t1 r where run: "register_list (modules_register_cmd 26) (cmds ?st) ?cs = (t1, r)" by fastforce
  then have "r = 0" by (auto simp: child_index_def new_node_def numeral_eq_Suc split: prod.splits)
  with run have run: "register_list (modules_register_cmd 26) (cmds ?st) ?cs = (t1, 0)" by simp
  have tree: "tree_wf (cmds ?st)" using tree_wf_new_node by simp
  have path: "path_ok ?luck ''m/'' ''op.so''" by (simp add: path_ok_def PATH_MAX_def)
  have same: "same_command ''op'' ''op''" by (simp add: same_command_def child_index_def)
  have "\<exists>st1 st2. and_then (watch_event ?dl ''m/'' ?luck ?luck ''op.so'' False ?st) (run_newest ?dl) = Inr st1 \<and>
    and_then (watch_event ?dl ''m/'' ?luck ?luck ''op.so'' True st1) (run_newest ?dl) = Inr st2 \<and> module_loaded st1 ''op.so'' \<and>
    (\<forall>m. cmd_lookup (cmds st1) m = (case last_binding same_command ?cs m of Some h \<Rightarrow> Some h | None \<Rightarrow> cmd_lookup (cmds ?st) m)) \<and>
    (\<forall>m. cmd_lookup (cmds st2) m = (if \<exists>c \<in> set ?cs. same_command (fst c) m then None else cmd_lookup (cmds st1) m)) \<and>
    loaded st2 = loaded ?st \<and> ctxs st2 = ctxs ?st \<and> handles st2 = handles ?st \<and> loaded_use st2 = loaded_use ?st \<and>
    threads st2 = threads ?st \<and> loader_ok st2"
    by (rule module_file_lifecycle [where h = 9 and mem = 26 and cs = ?cs and a = 9 and ?t1.0 = t1, OF ok _ new _ path _ _ tree run]) simp_all
  then obtain st1 st2 where "and_then (watch_event ?dl ''m/'' ?luck ?luck ''op.so'' False ?st) (run_newest ?dl) = Inr st1"
    "and_then (watch_event ?dl ''m/'' ?luck ?luck ''op.so'' True st1) (run_newest ?dl) = Inr st2" "loaded st2 = loaded ?st"
    "\<forall>m. cmd_lookup (cmds st1) m = (case last_binding same_command ?cs m of Some h \<Rightarrow> Some h | None \<Rightarrow> cmd_lookup (cmds ?st) m)"
    "\<forall>m. cmd_lookup (cmds st2) m = (if \<exists>c \<in> set ?cs. same_command (fst c) m then None else cmd_lookup (cmds st1) m)" by blast
  moreover from this(4,5) same have "cmd_lookup (cmds st1) ''op'' = Some 1" and "cmd_lookup (cmds st2) ''op'' = None" by simp_all
  ultimately show ?thesis by blast
qed

text \<open>
  An init thread that fails after the array has grown writes through a pointer into the block that \<open>realloc\<close> freed.
\<close>

lemma init_fails_after_growth:
  assumes "threads st = Init_job arg # ts" and "job_handler arg \<in> set (handles st)"
    and "code_init (dl_code dl (job_handler arg)) = Some f" and "snd (f (cmds st)) \<noteq> 0" and "ctxs st (job_ctx arg) \<noteq> None"
    and "fst (job_pos arg) = loaded_block st" and "loaded_use st + 1 \<ge> int (loaded_len st)"
    and "array_block luck = Some b" and "b \<noteq> loaded_block st"
  shows "\<exists>st'. grow_loaded luck st = Some st' \<and> run_thread dl 0 st' = Inl Out_Of_Bounds"
  using assms by (auto simp: grow_loaded_def run_thread_def threadpool_wrapper_init_def clear_pos_def ctx_at_def split: prod.splits)

text \<open>
  Unloading everything queues one cleanup thread for each context and then frees the commands; the slots stay taken.
\<close>

definition held :: "nat option list \<Rightarrow> nat list" where
  "held xs = map the (filter (\<lambda>x. x \<noteq> None) xs)"

lemma held_drop:
  "i < length xs \<Longrightarrow> held (drop i xs) = (case xs ! i of None \<Rightarrow> held (drop (Suc i) xs) | Some a \<Rightarrow> a # held (drop (Suc i) xs))"
  by (auto simp: held_def Cons_nth_drop_Suc [symmetric] split: option.split)

lemma unload_loop_ok:
  assumes "length (loaded st) = len" and "pool_ok (job_pool st)"
    and "\<And>a. a \<in> set (held (drop i (loaded st))) \<Longrightarrow> \<exists>c. ctxs st a = Some c \<and> code_cleanup (dl_code dl (ctx_dlsym c)) \<noteq> None"
    and "\<And>i. slot_realloc (lucks i) \<and> slot_malloc (lucks i) \<and> thread_create (lucks i)" and "i \<le> len"
  shows "\<exists>st' js. unload_loop dl lucks len i st = Inr st' \<and> pool_ok (job_pool st') \<and> cmds st' = cmds st \<and>
    threads st' = map Deinit_job (rev js) @ threads st \<and> map job_ctx js = held (drop i (loaded st)) \<and>
    loaded st' = loaded st \<and> ctxs st' = ctxs st \<and> loaded_block st' = loaded_block st \<and>
    (\<forall>j \<in> set js. fst (job_pos j) = loaded_block st \<and> snd (job_pos j) < len)"
  using assms(1-3,5)
proof (induction "len - i" arbitrary: i st)
  case 0
  then have "held (drop i (loaded st)) = []" by (simp add: held_def)
  with 0 show ?case by (intro exI [of _ st] exI [of _ "[]"]) (simp add: unload_loop.simps)
next
  case (Suc d)
  then have i: "i < len" and d: "d = len - (i + 1)" by simp_all
  have held: "held (drop i (loaded st)) =
      (case loaded st ! i of None \<Rightarrow> held (drop (Suc i) (loaded st)) | Some a \<Rightarrow> a # held (drop (Suc i) (loaded st)))"
    using held_drop [of i "loaded st"] i Suc.prems(1) by simp
  show ?case
  proof (cases "loaded st ! i")
    case None
    then have "unload_loop dl lucks len i st = unload_loop dl lucks len (i + 1) st"
      using i Suc.prems(1) by (subst unload_loop.simps) simp
    then show ?thesis using Suc.hyps(1) [OF d Suc.prems(1,2)] Suc.prems(3) held None i by simp
  next
    case (Some a)
    then obtain c where c: "ctxs st a = Some c" "code_cleanup (dl_code dl (ctx_dlsym c)) \<noteq> None"
      using Suc.prems(3) [of a] held by auto
    obtain tp n where u: "modules_unloadmod dl (lucks i) a (loaded_block st, i) False st = Inr (st\<lparr>job_pool := tp,
      threads := (if slot_malloc (lucks i) \<and> thread_create (lucks i)
        then Deinit_job \<lparr>job_n = n, job_handler = ctx_dlsym c, job_ctx = a, job_pos = (loaded_block st, i)\<rparr> # threads st else threads st),
      loaded_use := loaded_use st - 1\<rparr>)" (is "_ = Inr ?st") and tp: "pool_ok tp"
      using unloadmod_ok [OF Suc.prems(2) _ c] assms(4) by metis
    let ?job = "\<lparr>job_n = n, job_handler = ctx_dlsym c, job_ctx = a, job_pos = (loaded_block st, i)\<rparr>"
    have step: "unload_loop dl lucks len i st = unload_loop dl lucks len (i + 1) ?st"
      using i Suc.prems(1) Some u by (subst unload_loop.simps) simp
    have "\<exists>st' js. unload_loop dl lucks len (i + 1) ?st = Inr st' \<and> pool_ok (job_pool st') \<and> cmds st' = cmds ?st \<and>
      threads st' = map Deinit_job (rev js) @ threads ?st \<and> map job_ctx js = held (drop (i + 1) (loaded ?st)) \<and>
      loaded st' = loaded ?st \<and> ctxs st' = ctxs ?st \<and> loaded_block st' = loaded_block ?st \<and>
      (\<forall>j \<in> set js. fst (job_pos j) = loaded_block ?st \<and> snd (job_pos j) < len)"
      by (rule Suc.hyps(1) [OF d]) (use Suc.prems(1,3) tp held Some i in simp_all)
    then obtain st' js where "unload_loop dl lucks len (i + 1) ?st = Inr st'" "pool_ok (job_pool st')" "cmds st' = cmds st"
      "threads st' = map Deinit_job (rev js) @ threads ?st" "map job_ctx js = held (drop (i + 1) (loaded st))"
      "loaded st' = loaded st" "ctxs st' = ctxs st" "loaded_block st' = loaded_block st"
      "\<forall>j \<in> set js. fst (job_pos j) = loaded_block st \<and> snd (job_pos j) < len" by auto
    then show ?thesis using step held Some assms(4) i by (intro exI [of _ st'] exI [of _ "?job # js"]) simp
  qed
qed

lemma modules_unloadall_ok:
  assumes "length (loaded st) = loaded_len st" and "\<not> array_mutex st" and "pool_ok (job_pool st)"
    and "\<And>a. a \<in> set (held (loaded st)) \<Longrightarrow> \<exists>c. ctxs st a = Some c \<and> code_cleanup (dl_code dl (ctx_dlsym c)) \<noteq> None"
    and "\<And>i. slot_realloc (lucks i) \<and> slot_malloc (lucks i) \<and> thread_create (lucks i)"
  obtains st' js where "modules_unloadall dl lucks st = Inr st'" and "cmds st' = fst (modules_cmds_clean (cmds st))"
    and "threads st' = map Deinit_job (rev js) @ threads st" and "map job_ctx js = held (loaded st)"
    and "pool_ok (job_pool st')" and "loaded st' = loaded st" and "ctxs st' = ctxs st"
    and "\<forall>j \<in> set js. fst (job_pos j) = loaded_block st' \<and> snd (job_pos j) < length (loaded st)"
proof -
  obtain tp where tp: "threadpool_waitall (job_pool st) = Inr tp" "pool_ok tp"
    using waitall_frees_slots [OF assms(3)] by blast
  let ?st = "st\<lparr>job_pool := tp\<rparr>"
  have "\<exists>st' js. unload_loop dl lucks (loaded_len st) 0 ?st = Inr st' \<and> pool_ok (job_pool st') \<and> cmds st' = cmds ?st \<and>
    threads st' = map Deinit_job (rev js) @ threads ?st \<and> map job_ctx js = held (drop 0 (loaded ?st)) \<and>
    loaded st' = loaded ?st \<and> ctxs st' = ctxs ?st \<and> loaded_block st' = loaded_block ?st \<and>
    (\<forall>j \<in> set js. fst (job_pos j) = loaded_block ?st \<and> snd (job_pos j) < loaded_len st)"
    by (rule unload_loop_ok) (use assms(1,4,5) tp(2) in simp_all)
  then obtain st1 js where l: "unload_loop dl lucks (loaded_len st) 0 ?st = Inr st1" "pool_ok (job_pool st1)" "cmds st1 = cmds st"
    "threads st1 = map Deinit_job (rev js) @ threads st" "map job_ctx js = held (loaded st)" "loaded st1 = loaded st"
    "ctxs st1 = ctxs st" "loaded_block st1 = loaded_block st"
    "\<forall>j \<in> set js. fst (job_pos j) = loaded_block st \<and> snd (job_pos j) < loaded_len st" by auto
  let ?st' = "st1\<lparr>cmds := fst (modules_cmds_clean (cmds st1))\<rparr>"
  have "modules_unloadall dl lucks st = Inr ?st'"
    using tp(1) l(1) assms(2) by (simp add: modules_unloadall_def)
  then show ?thesis by (rule that) (use l assms(1) in simp_all)
qed

lemma threadpool_deinit_ok:
  assumes "pool_ok tp"
  obtains tp' where "threadpool_deinit tp = Inr tp'" and "pool_slots tp' = []"
  using waitall_frees_slots [OF assms] by (auto simp: threadpool_deinit_def)

section \<open>Cleanup threads in any order\<close>

fun run_threads :: "'h dl_env \<Rightarrow> nat list \<Rightarrow> 'h loader \<Rightarrow> fault + 'h loader" where
  "run_threads dl [] st = Inr st"
| "run_threads dl (k # ks) st = and_then (run_thread dl k st) (run_threads dl ks)"

text \<open>A cleanup thread at place \<open>k\<close> that has not run: its slot of the array and its context are there.\<close>

definition will_clean :: "'h loader \<Rightarrow> nat \<Rightarrow> job_args \<Rightarrow> bool" where
  "will_clean st k arg \<longleftrightarrow> k < length (threads st) \<and> threads st ! k = Deinit_job arg \<and> fst (job_pos arg) = loaded_block st \<and>
     snd (job_pos arg) < length (loaded st) \<and> ctxs st (job_ctx arg) \<noteq> None"

lemma run_cleanup:
  assumes "will_clean st k arg"
  shows "\<exists>st'. run_thread dl k st = Inr st' \<and> threads st' = (threads st)[k := Done_job arg] \<and>
    ctxs st' = (ctxs st)(job_ctx arg := None) \<and> loaded_block st' = loaded_block st \<and>
    length (loaded st') = length (loaded st) \<and> job_pool st' = job_pool st"
proof -
  have k: "k < length (threads st)" "threads st ! k = Deinit_job arg" "fst (job_pos arg) = loaded_block st"
    "snd (job_pos arg) < length (loaded st)" and "ctxs st (job_ctx arg) \<noteq> None"
    using assms by (simp_all add: will_clean_def)
  then obtain c where c: "ctxs st (job_ctx arg) = Some c" by blast
  define st1 where "st1 = st\<lparr>threads := (threads st)[k := Done_job arg], cmds := cmds (if job_handler arg \<in> set (handles st) then
    (case code_cleanup (dl_code dl (job_handler arg)) of None \<Rightarrow> st | Some f \<Rightarrow> st\<lparr>cmds := f (cmds st)\<rparr>) else st)\<rparr>"
  have "run_thread dl k st = and_then (clear_pos st1 (job_pos arg)) (\<lambda>st. close_free st (job_ctx arg))"
    using k(1,2) by (auto simp: run_thread_def threadpool_wrapper_deinit_def Let_def st1_def split: option.split)
  also have "\<dots> = Inr (st1\<lparr>loaded := (loaded st)[snd (job_pos arg) := None], handles := remove1 (ctx_dlsym c) (handles st),
      ctxs := (ctxs st)(job_ctx arg := None)\<rparr>)"
    using k(3,4) c by (simp add: st1_def clear_pos_def close_free_def ctx_at_def)
  finally show ?thesis by (simp add: st1_def)
qed

lemma run_cleanups:
  assumes "distinct ks" and "\<forall>k \<in> set ks. will_clean st k (arg k)" and "inj_on (\<lambda>k. job_ctx (arg k)) (set ks)"
  shows "\<exists>st'. run_threads dl ks st = Inr st' \<and> length (threads st') = length (threads st) \<and>
    (\<forall>k. threads st' ! k = (if k \<in> set ks then Done_job (arg k) else threads st ! k)) \<and>
    (\<forall>a. ctxs st' a = (if a \<in> (\<lambda>k. job_ctx (arg k)) ` set ks then None else ctxs st a)) \<and>
    loaded_block st' = loaded_block st \<and> length (loaded st') = length (loaded st) \<and> job_pool st' = job_pool st"
  using assms
proof (induction ks arbitrary: st)
  case Nil
  then show ?case by simp
next
  case (Cons k ks)
  have k: "will_clean st k (arg k)" using Cons.prems(2) by simp
  then obtain st1 where st1: "run_thread dl k st = Inr st1" "threads st1 = (threads st)[k := Done_job (arg k)]"
    "ctxs st1 = (ctxs st)(job_ctx (arg k) := None)" "loaded_block st1 = loaded_block st"
    "length (loaded st1) = length (loaded st)" "job_pool st1 = job_pool st"
    using run_cleanup by blast
  have "will_clean st1 l (arg l)" if "l \<in> set ks" for l
  proof -
    have "l \<noteq> k" and "will_clean st l (arg l)" and "job_ctx (arg l) \<noteq> job_ctx (arg k)"
      using that Cons.prems by (auto simp: inj_on_def)
    then show ?thesis by (simp add: will_clean_def st1)
  qed
  then obtain st' where st': "run_threads dl ks st1 = Inr st'" "length (threads st') = length (threads st1)"
    "\<forall>l. threads st' ! l = (if l \<in> set ks then Done_job (arg l) else threads st1 ! l)"
    "\<forall>a. ctxs st' a = (if a \<in> (\<lambda>k. job_ctx (arg k)) ` set ks then None else ctxs st1 a)"
    "loaded_block st' = loaded_block st1" "length (loaded st') = length (loaded st1)" "job_pool st' = job_pool st1"
    using Cons.IH [of st1] Cons.prems(1,3) by (auto simp: inj_on_def)
  moreover have "k < length (threads st)" using k by (simp add: will_clean_def)
  ultimately show ?case
    using st1 by (intro exI [of _ st']) (simp add: nth_list_update)
qed

text \<open>
  Whenever the pool is freed - behind some of the cleanup threads, before the others - each of them unloads its module and
  each faults where it gives its slot back.
\<close>

lemma cleanups_outlive_pool:
  assumes th: "threads st = map Deinit_job args @ ts" and pos: "\<forall>j \<in> set args. fst (job_pos j) = loaded_block st \<and>
      snd (job_pos j) < length (loaded st) \<and> ctxs st (job_ctx j) \<noteq> None" and dist: "distinct (map job_ctx args)"
    and pool: "pool_ok (job_pool st)" and ks: "distinct (ks0 @ ks1)" "set (ks0 @ ks1) \<subseteq> {..<length args}"
  shows "\<exists>st1 tp st2. run_threads dl ks0 st = Inr st1 \<and> threadpool_deinit (job_pool st1) = Inr tp \<and>
    run_threads dl ks1 (st1\<lparr>job_pool := tp\<rparr>) = Inr st2 \<and>
    (\<forall>k \<in> set (ks0 @ ks1). ctxs st2 (job_ctx (args ! k)) = None \<and> run_thread dl k st2 = Inl Out_Of_Bounds)"
proof -
  have inj: "inj_on (\<lambda>k. job_ctx (args ! k)) (set (ks0 @ ks1))"
    using dist ks(2) by (auto simp: inj_on_def distinct_conv_nth)
  have will: "will_clean st k (args ! k)" if "k \<in> set (ks0 @ ks1)" for k
    using that ks(2) th pos by (auto simp: will_clean_def nth_append)
  obtain st1 where st1: "run_threads dl ks0 st = Inr st1" "length (threads st1) = length (threads st)"
    "\<forall>k. threads st1 ! k = (if k \<in> set ks0 then Done_job (args ! k) else threads st ! k)"
    "\<forall>a. ctxs st1 a = (if a \<in> (\<lambda>k. job_ctx (args ! k)) ` set ks0 then None else ctxs st a)"
    "loaded_block st1 = loaded_block st" "length (loaded st1) = length (loaded st)" "job_pool st1 = job_pool st"
    using run_cleanups [of ks0 st "\<lambda>k. args ! k" dl] ks(1) will inj by (auto simp: inj_on_def)
  obtain tp where tp: "threadpool_deinit (job_pool st1) = Inr tp" "pool_slots tp = []"
    using threadpool_deinit_ok pool st1(7) by metis
  have "will_clean (st1\<lparr>job_pool := tp\<rparr>) k (args ! k)" if "k \<in> set ks1" for k
  proof -
    have "k \<notin> set ks0" and "job_ctx (args ! k) \<notin> (\<lambda>k. job_ctx (args ! k)) ` set ks0"
      using that ks(1) inj by (auto simp: inj_on_def)
    then show ?thesis using will [of k] that st1 by (simp add: will_clean_def)
  qed
  then obtain st2 where st2: "run_threads dl ks1 (st1\<lparr>job_pool := tp\<rparr>) = Inr st2" "length (threads st2) = length (threads st)"
    "\<forall>k. threads st2 ! k = (if k \<in> set ks1 then Done_job (args ! k) else threads st1 ! k)"
    "\<forall>a. ctxs st2 a = (if a \<in> (\<lambda>k. job_ctx (args ! k)) ` set ks1 then None else ctxs st1 a)" "job_pool st2 = tp"
    using run_cleanups [of ks1 "st1\<lparr>job_pool := tp\<rparr>" "\<lambda>k. args ! k" dl] ks(1) inj st1(2) by (auto simp: inj_on_def)
  have "ctxs st2 (job_ctx (args ! k)) = None \<and> run_thread dl k st2 = Inl Out_Of_Bounds" if "k \<in> set (ks0 @ ks1)" for k
  proof
    show "ctxs st2 (job_ctx (args ! k)) = None" using that st1(4) st2(4) by auto
    have "threads st2 ! k = Done_job (args ! k)" using that st1(3) st2(3) by auto
    moreover have "k < length (threads st2)" using that ks(2) th st2(2) by auto
    ultimately show "run_thread dl k st2 = Inl Out_Of_Bounds" using st2(5) tp(2) by (simp add: run_thread_def)
  qed
  then show ?thesis using st1(1) tp(1) st2(1) by blast
qed

lemma held_distinct: "slots_live xs cs \<Longrightarrow> distinct (held xs)"
proof -
  assume live: "slots_live xs cs"
  have "distinct (held (drop (length xs - n) xs))" if "n \<le> length xs" for n
    using that
  proof (induction n)
    case (Suc n)
    let ?i = "length xs - Suc n"
    have i: "?i < length xs" "Suc ?i = length xs - n" using Suc.prems by simp_all
    have "a \<notin> set (held (drop (Suc ?i) xs))" if a: "xs ! ?i = Some a" for a
    proof
      assume "a \<in> set (held (drop (Suc ?i) xs))"
      then have "Some a \<in> set (drop (Suc ?i) xs)" by (auto simp: held_def)
      then obtain m where m: "m < length xs - Suc ?i" "xs ! (Suc ?i + m) = Some a" by (auto simp: in_set_conv_nth)
      then have "Suc ?i + m < length xs" by linarith
      then have "Suc ?i + m = ?i" by (rule slots_liveD(2) [OF live i(1) a _ m(2)])
      then show False by linarith
    qed
    then show ?case using Suc i held_drop [OF i(1)] by (cases "xs ! ?i") simp_all
  qed (simp add: held_def)
  from this [of "length xs"] show ?thesis by simp
qed

end
