(* ===== verification/Main_Loop.thy ===== *)
theory Main_Loop
  imports Network Irc_Login Permissions Module_Loader
begin

text \<open>
  \<open>main\<close> of \<^verbatim>\<open>src/main.c\<close>: the configuration from the environment, the start of the components, the loop that connects,
  logs in, joins the channels and reads, and the end after a signal. One turn of the loop meets one \<open>attempt\<close>: the results of the
  network, the bytes that arrive, and whether \<open>done\<close> is set when the turn begins.
\<close>

section \<open>Definitions of the source\<close>

record environ =
  env_nick :: "string option"
  env_user :: "string option"
  env_name :: "string option"
  env_verbosity :: "string option"
  env_host :: "string option"
  env_port :: "string option"
  env_ssl :: "string option"
  env_password :: "string option"
  env_prefix :: "string option"
  env_modules_dir :: "string option"
  env_owner_host :: "string option"

record config =
  cfg_nick :: string
  cfg_user :: string
  cfg_name :: string
  cfg_verbosity :: int
  cfg_use_ssl :: int
  cfg_netpw :: "string option"
  cfg_channels :: "string list"

text \<open>The settings with their defaults; \<open>None\<close> where nick, host or port is missing.\<close>

definition or_default :: "string option \<Rightarrow> string \<Rightarrow> string" where
  "or_default x d = (case x of None \<Rightarrow> d | Some s \<Rightarrow> s)"

definition main_config :: "environ \<Rightarrow> string list \<Rightarrow> config option" where
  "main_config env argv =
     (case (env_nick env, env_host env, env_port env) of
        (Some nick, Some host, Some port) \<Rightarrow>
          (let use_ssl = atoi (or_default (env_ssl env) ''0'');
               use_ssl = (if use_ssl \<noteq> 1 then 0 else use_ssl);
               verbosity = atoi (or_default (env_verbosity env) ''1'');
               verbosity = (if verbosity > 3 \<or> verbosity < 0 then 1 else verbosity) in
           Some \<lparr>cfg_nick = nick, cfg_user = or_default (env_user env) nick, cfg_name = or_default (env_name env) nick,
             cfg_verbosity = verbosity, cfg_use_ssl = use_ssl, cfg_netpw = env_password env, cfg_channels = argv\<rparr>)
      | _ \<Rightarrow> None)"

text \<open>
  The start of the components up to the signal handlers; the integer is the result of a return. The scan queues the init threads, which
  stay in \<open>threads\<close> and run when \<open>run_thread\<close> takes them, so here all of them run behind the scan. In the program they may
  start while it goes on; that order is a sequence of \<open>Load\<close> and \<open>Thread\<close> steps of \<open>Loader_Steps\<close>.
\<close>

record 'h main_state =
  main_perms :: perm_state
  main_loader :: "'h loader"

record start_luck =
  perm_calloc :: bool
  perm_realloc :: bool
  perm_strdup :: bool
  loaded_malloc :: "nat option"
  pool_malloc :: bool

definition main_start ::
    "'h dl_env \<Rightarrow> start_luck \<Rightarrow> (nat \<Rightarrow> luck) \<Rightarrow> (string \<times> luck) list option \<Rightarrow> environ \<Rightarrow> 'h main_state \<Rightarrow> fault + 'h main_state \<times> int option" where
  "main_start dl luck lucks folder env st =
     (let (perms, r) = permissions_init (perm_calloc luck) (perm_realloc luck) (perm_strdup luck) (env_owner_host env) (main_perms st) in
      and_then r
        (\<lambda>r. let st = st\<lparr>main_perms := perms\<rparr> in
           if r \<noteq> 0 then Inr (st, Some (-54))
           else
             (let (ld, r) = modules_init (loaded_malloc luck) (pool_malloc luck) (main_loader st); st = st\<lparr>main_loader := ld\<rparr> in
              if r \<noteq> 0 then Inr (st, Some (-55))
              else
                and_then (modules_rescanall dl (module_dir (env_modules_dir env)) lucks folder ld)
                  (\<lambda>ld. Inr (st\<lparr>main_loader := ld\<rparr>, None)))))"

text \<open>
  One turn. \<open>at_fresh\<close>, \<open>at_buf\<close> and \<open>at_cells\<close> are the uninitialised memory of \<open>irc_login\<close> and \<open>irc_loop\<close>, \<open>at_reads\<close> what
  arrives during the login and \<open>at_inputs\<close> what arrives behind it.
\<close>

record attempt =
  at_done :: bool
  at_lib :: net_lib
  at_malloc :: bool
  at_buf :: "char list"
  at_fresh :: "nat \<Rightarrow> char list"
  at_reads :: "string list"
  at_cells :: "char list"
  at_inputs :: "loop_input list"

datatype main_event =
    Waited
  | Wire string
  | Reader irc_event
  | Disconnected

text \<open>From the login to the return of \<open>irc_loop\<close>; the second component says whether it has come to its end.\<close>

definition main_session :: "config \<Rightarrow> attempt \<Rightarrow> fault + main_event list \<times> bool" where
  "main_session cfg a =
     and_then (irc_login (at_malloc a) (at_buf a) (at_fresh a) (cfg_user cfg) (cfg_name cfg) (cfg_nick cfg) (cfg_netpw cfg) (at_reads a))
       (\<lambda>(out, r).
          case r of
            None \<Rightarrow> Inr (map Wire out, False)
          | Some False \<Rightarrow> Inr (map Wire out, True)
          | Some True \<Rightarrow>
              (let joins = map irc_join (cfg_channels cfg) in
               and_then (irc_loop \<lparr>line_buf = at_cells a, line_pos = -1\<rparr> (at_inputs a))
                 (\<lambda>(evs, ended). Inr (map Wire (out @ joins) @ map Reader evs, ended))))"

text \<open>
  The loop at \<open>loop_retry\<close>. \<open>again\<close> is \<open>fst > 0\<close>. It ends at a turn that finds \<open>done\<close> set; the last component is \<open>False\<close> while
  it waits for the network or its attempts are used up.
\<close>

fun main_loop :: "config \<Rightarrow> bool \<Rightarrow> net_state \<Rightarrow> attempt list \<Rightarrow> fault + main_event list \<times> net_state \<times> bool" where
  "main_loop cfg again st [] = Inr ([], st, False)"
| "main_loop cfg again st (a # as) =
     (if at_done a then Inr ([], st, True)
      else
        (let wait = (if again then [Waited] else []) in
         case net_connect (at_lib a) (cfg_use_ssl cfg \<noteq> 0) st of
           None \<Rightarrow> Inr (wait, st, False)
         | Some (st, ret) \<Rightarrow>
             if ret \<noteq> 0 then
               and_then (main_loop cfg True st as) (\<lambda>(evs, r). Inr (wait @ evs, r))
             else
               and_then (main_session cfg a)
                 (\<lambda>(out, ended).
                    if ended then
                      and_then (main_loop cfg True (net_disconnect st) as) (\<lambda>(evs, r). Inr (wait @ out @ Disconnected # evs, r))
                    else Inr (wait @ out, st, False))))"

text \<open>
  The end of the program: the modules are unloaded, the permissions are freed and the result is 0.
\<close>

definition permissions_cleanup :: "perm_state \<Rightarrow> fault + perm_state" where
  "permissions_cleanup st = and_then (hashmap_destroy (perm_map st)) (\<lambda>m. Inr (st\<lparr>perm_map := m\<rparr>))"

definition main_exit :: "'h dl_env \<Rightarrow> (nat \<Rightarrow> luck) \<Rightarrow> 'h main_state \<Rightarrow> fault + 'h main_state \<times> int" where
  "main_exit dl lucks st =
     and_then (modules_deinit dl lucks (main_loader st))
       (\<lambda>ld. and_then (permissions_cleanup (main_perms st))
          (\<lambda>perms. Inr (st\<lparr>main_loader := ld, main_perms := perms\<rparr>, 0)))"

section \<open>A turn that comes to its end\<close>

text \<open>
  The server closes the connection or is silent in time: the handshake does not go on for ever, the login meets an error or a
  closed connection if it does not succeed before, and behind it come lines of at most 510 characters until the connection is
  closed or \<open>done\<close> is set.
\<close>

definition closing :: "loop_input \<Rightarrow> bool" where
  "closing e \<longleftrightarrow> e = Done \<or> e = Closed"

definition attempt_closes :: "attempt \<Rightarrow> bool" where
  "attempt_closes a \<longleftrightarrow>
     (\<exists>n. \<not> wants_more (at_lib a) n) \<and> (\<forall>m. length (at_fresh a m) = m) \<and> length (at_buf a) = 513 \<and> length (at_cells a) = 513 \<and>
     (\<forall>bs \<in> set (at_reads a). length bs \<le> 512) \<and> (\<exists>bs \<in> set (at_reads a). length bs \<le> 2) \<and>
     (\<exists>batches e. at_inputs a = map Bytes (map wire batches) @ [e] \<and> closing e \<and>
        (\<forall>lines \<in> set batches. \<forall>line \<in> set lines. whole_line line))"

lemma irc_loop_closing:
  assumes "irc_loop st (map Bytes reads) = Inr (evs, False)" and "closing e"
  shows "irc_loop st (map Bytes reads @ [e]) = Inr (evs @ [Sent (irc_raw ''QUIT :Gone fishing.'')], True)"
  using assms(1)
proof (induction reads arbitrary: st evs)
  case Nil
  then show ?case using assms(2) by (auto simp: closing_def)
next
  case (Cons bs reads)
  then show ?case by (auto simp: and_then_Inr_iff)
qed

lemma irc_loop_batches:
  assumes "length chars = 513" and "\<forall>lines \<in> set batches. \<forall>line \<in> set lines. whole_line line" and "closing e"
  shows "irc_loop (irc_start chars) (map Bytes (map wire batches) @ [e]) =
    Inr (concat (map line_events (concat batches)) @ [Sent (irc_raw ''QUIT :Gone fishing.'')], True)"
proof (rule irc_loop_closing [OF _ assms(3)])
  have "\<forall>bs \<in> set (map wire batches). c_str bs" using assms(2) wire_c_str by auto
  then show "irc_loop (irc_start chars) (map Bytes (map wire batches)) = Inr (concat (map line_events (concat batches)), False)"
    using irc_loop_reads [OF holds_line_start [OF assms(1)], of "map wire batches"] split_reads_wire [OF assms(2)] by simp
qed

text \<open>What a session sends and reads.\<close>

lemma main_session_ends:
  assumes "attempt_closes a" and "c_str (cfg_nick cfg)"
  shows "\<exists>out. main_session cfg a = Inr (out, True)"
proof -
  have a: "\<forall>m. length (at_fresh a m) = m" "length (at_buf a) = 513" "length (at_cells a) = 513"
    "\<forall>bs \<in> set (at_reads a). length bs \<le> 512" "\<exists>bs \<in> set (at_reads a). length bs \<le> 2"
    using assms(1) by (auto simp: attempt_closes_def)
  obtain batches e where b: "at_inputs a = map Bytes (map wire batches) @ [e]" "closing e"
    "\<forall>lines \<in> set batches. \<forall>line \<in> set lines. whole_line line"
    using assms(1) unfolding attempt_closes_def by blast
  obtain out r where login: "irc_login (at_malloc a) (at_buf a) (at_fresh a) (cfg_user cfg) (cfg_name cfg) (cfg_nick cfg)
      (cfg_netpw cfg) (at_reads a) = Inr (out, Some r)"
    using irc_login_returns [OF a(1) assms(2) a(2,4,5)] by blast
  show ?thesis
  proof (cases r)
    case True
    then show ?thesis using login irc_loop_batches [OF a(3) b(3,2)] b(1) by (simp add: main_session_def irc_start_def)
  next
    case False
    then show ?thesis using login by (simp add: main_session_def)
  qed
qed

lemma main_session_events:
  assumes "main_session cfg a = Inr (out, ended)"
  shows "Waited \<notin> set out \<and> Disconnected \<notin> set out"
proof -
  obtain sent r where "irc_login (at_malloc a) (at_buf a) (at_fresh a) (cfg_user cfg) (cfg_name cfg) (cfg_nick cfg) (cfg_netpw cfg)
      (at_reads a) = Inr (sent, r)"
    using assms by (auto simp: main_session_def and_then_Inr_iff)
  then have "\<exists>xs evs. out = map Wire xs @ map Reader evs"
    using assms
    by (cases r; cases "irc_loop \<lparr>line_buf = at_cells a, line_pos = -1\<rparr> (at_inputs a)")
      (auto simp: main_session_def Let_def map_append [symmetric] simp del: map_append split: if_splits bool.splits)
  then show ?thesis by auto
qed

text \<open>
  The loop over turns that end: how often it waits and disconnects, and what it leaves open.
\<close>

definition failures :: "bool \<Rightarrow> attempt list \<Rightarrow> nat" where
  "failures ssl as = length (filter (\<lambda>a. \<not> connects (at_lib a) ssl) as)"

definition leaks :: "bool \<Rightarrow> attempt list \<Rightarrow> nat" where
  "leaks ssl as = length (filter (\<lambda>a. attempt_socket (at_lib a) ssl \<and> \<not> connects (at_lib a) ssl) as)"

lemma failures_Cons: "failures ssl (a # as) = (if connects (at_lib a) ssl then 0 else 1) + failures ssl as"
  by (simp add: failures_def)

lemma leaks_Cons: "leaks ssl (a # as) = (if attempt_socket (at_lib a) ssl \<and> \<not> connects (at_lib a) ssl then 1 else 0) + leaks ssl as"
  by (simp add: leaks_def)

lemma failures_le: "failures ssl as \<le> length as"
  by (simp add: failures_def)

lemma main_loop_ends:
  fixes cfg :: config
  defines "ssl \<equiv> cfg_use_ssl cfg \<noteq> 0"
  assumes "\<forall>a \<in> set as. attempt_closes a \<and> \<not> at_done a \<and> errno_ret (at_lib a) \<noteq> 0" and "c_str (cfg_nick cfg)" and "at_done stop"
  shows "\<exists>evs st'. main_loop cfg again st (as @ stop # rest) = Inr (evs, st', True) \<and>
    count_list evs Waited = length as - (if again then 0 else 1) \<and>
    count_list evs Disconnected + failures ssl as = length as \<and>
    length (open_fds st') = length (open_fds st) + leaks ssl as \<and>
    tls_sets st' = tls_sets st + (if ssl then failures ssl as else 0)"
  using assms(2)
proof (induction as arbitrary: again st)
  case Nil
  then show ?case using assms(4) by (simp add: failures_def leaks_def)
next
  case (Cons a as)
  have a: "attempt_closes a" "\<not> at_done a" "errno_ret (at_lib a) \<noteq> 0" using Cons.prems by simp_all
  obtain n where "\<not> wants_more (at_lib a) n" using a(1) by (auto simp: attempt_closes_def)
  then obtain st1 ret where c: "net_connect (at_lib a) ssl st = Some (st1, ret)"
    using net_connect_returns [of "at_lib a" n ssl st] by auto
  note eff = net_connect_effect [OF c] and ok = net_connect_connects [OF c a(3)]
  obtain out where s: "main_session cfg a = Inr (out, True)" using main_session_ends [OF a(1) assms(3)] by blast
  have quiet: "count_list out Waited = 0" "count_list out Disconnected = 0"
    using main_session_events [OF s] by (simp_all add: count_list_0_iff)
  define st2 where "st2 = (if ret = 0 then net_disconnect st1 else st1)"
  obtain evs st' where rest: "main_loop cfg True st2 (as @ stop # rest) = Inr (evs, st', True)"
    "count_list evs Waited = length as" "count_list evs Disconnected + failures ssl as = length as"
    "length (open_fds st') = length (open_fds st2) + leaks ssl as"
    "tls_sets st' = tls_sets st2 + (if ssl then failures ssl as else 0)"
    using Cons.IH [of True st2] Cons.prems by auto
  show ?case
  proof (cases "ret = 0")
    case True
    note given = disconnect_after_connect [OF c [unfolded True] a(3)]
    show ?thesis
      using c [unfolded ssl_def] s rest quiet a(2) True ok given by (auto simp: st2_def failures_Cons leaks_Cons)
  next
    case False
    show ?thesis
      using c [unfolded ssl_def] rest a(2) False ok eff by (auto simp: st2_def failures_Cons leaks_Cons)
  qed
qed

section \<open>The settings\<close>

lemma main_config_settings:
  assumes "env_nick env = Some nick" and "env_host env = Some host" and "env_port env = Some port"
  shows "\<exists>cfg. main_config env argv = Some cfg \<and> cfg_nick cfg = nick \<and> cfg_netpw cfg = env_password env \<and> cfg_channels cfg = argv \<and>
    cfg_user cfg = (case env_user env of None \<Rightarrow> nick | Some u \<Rightarrow> u) \<and>
    cfg_name cfg = (case env_name env of None \<Rightarrow> nick | Some r \<Rightarrow> r) \<and>
    (cfg_use_ssl cfg \<noteq> 0 \<longleftrightarrow> (\<exists>s. env_ssl env = Some s \<and> atoi s = 1)) \<and>
    cfg_verbosity cfg = (case env_verbosity env of None \<Rightarrow> 1 | Some s \<Rightarrow> if atoi s \<in> {0..3} then atoi s else 1)"
proof -
  have digits: "atoi ''0'' = 0" "atoi ''1'' = 1" by code_simp+
  show ?thesis
    using assms by (simp add: main_config_def or_default_def Let_def digits split: option.split)
qed

section \<open>Properties\<close>

text \<open>
  C22: the start of the program with memory for the tables, up to the end of the scan, while the init threads it has queued have not
  run yet. Whatever the module libraries do, \<open>main\<close> reaches its loop with the loader
  in good order; each module file of the directory for which there was memory has a slot, and exactly the hosts that match
  the owner entry have a level, which is above all others.
\<close>

theorem main_start_brings_up:
  assumes "perm_calloc luck" and "perm_realloc luck" and "perm_strdup luck" and "loaded_malloc luck = Some b" and "pool_malloc luck"
    and "loaded_len (main_loader st) = 6" and "loaded_use (main_loader st) = 0" and "\<not> array_mutex (main_loader st)"
    and "pool_len (job_pool (main_loader st)) = 2" and "pool_flags (job_pool (main_loader st)) = 0"
    and "entries_ok (module_dir (env_modules_dir env)) (ctxs (main_loader st)) dir"
  shows "\<exists>st'. main_start dl luck lucks (Some dir) env st = Inr (st', None) \<and> loader_ok (main_loader st') \<and>
    (\<forall>(name, l) \<in> set dir. wanted name \<longrightarrow> loadable dl (module_dir (env_modules_dir env)) l name \<longrightarrow>
       module_loaded (main_loader st') name) \<and>
    (\<forall>h. level_of (perm_map (main_perms st')) h = (if env_owner_host env \<in> Some ` set (candidates h) then 100000 else 0))"
proof -
  obtain perms where p: "permissions_init True True True (env_owner_host env) (main_perms st) = (perms, Inr 0)"
    "\<forall>h. level_of (perm_map perms) h = (if env_owner_host env \<in> Some ` set (candidates h) then 100000 else 0)"
    using permissions_init_owner_only by blast
  have init: "snd (modules_init (Some b) True (main_loader st)) = 0" by (simp add: modules_init_def)
  obtain ld where "modules_rescanall dl (module_dir (env_modules_dir env)) lucks (Some dir)
      (fst (modules_init (Some b) True (main_loader st))) = Inr ld" "loader_ok ld"
    "\<forall>(name, l) \<in> set dir. wanted name \<longrightarrow> loadable dl (module_dir (env_modules_dir env)) l name \<longrightarrow> module_loaded ld name"
    using rescan_never_exits [OF assms(6-11), of dl lucks b] by blast
  with p init assms(1-5) show ?thesis by (simp add: main_start_def split_beta)
qed

theorem main_start_brings_up_witness:
  "\<exists>dl luck lucks l env st st'. main_start (dl :: nat dl_env) luck lucks (Some [(''a.so'', l)]) env st = Inr (st', None) \<and>
    module_loaded (main_loader st') ''a.so'' \<and> level_of (perm_map (main_perms st')) ''joe'' = 100000"
proof -
  let ?dl = "\<lparr>dl_open = (\<lambda>f. if f = ''modules/a.so'' then Some 7 else None),
    dl_code = (\<lambda>h. \<lparr>code_init = Some (\<lambda>t. (t, 0)), code_cleanup = Some (\<lambda>t. t)\<rparr>)\<rparr> :: nat dl_env"
  let ?l = "\<lparr>array_block = Some 2, ctx_block = Some 3, slot_realloc = True, slot_malloc = True, thread_create = True,
    slot_junk = None, path_cells = replicate 4096 NUL\<rparr> :: luck"
  let ?luck = "\<lparr>perm_calloc = True, perm_realloc = True, perm_strdup = True, loaded_malloc = Some 1, pool_malloc = True\<rparr>"
  let ?env = "\<lparr>env_nick = None, env_user = None, env_name = None, env_verbosity = None, env_host = None, env_port = None, env_ssl = None,
    env_password = None, env_prefix = None, env_modules_dir = None, env_owner_host = Some ''joe''\<rparr>"
  let ?st = "\<lparr>main_perms = undefined, main_loader = \<lparr>loaded = [], loaded_block = 0, loaded_len = 6, loaded_use = 0, array_mutex = False,
    ctxs = \<lambda>_. None, handles = [], cmds = new_node :: nat command_tree, job_pool = \<lparr>pool_slots = [], pool_len = 2, pool_flags = 0\<rparr>,
    threads = []\<rparr>\<rparr>"
  have entries: "entries_ok (module_dir (env_modules_dir ?env)) (ctxs (main_loader ?st)) [(''a.so'', ?l)]"
    by (simp add: entries_ok_def path_ok_def PATH_MAX_def List.map_filter_simps module_dir_def)
  have entry: "wanted ''a.so''" "loadable ?dl (module_dir (env_modules_dir ?env)) ?l ''a.so''"
    by (simp_all add: wanted_def loadable_def is_module_file_def strncmp_eq_def module_dir_def)
  have owner: "env_owner_host ?env \<in> Some ` set (candidates ''joe'')" by (simp add: candidates_def)
  have "\<exists>st'. main_start ?dl ?luck (\<lambda>_. ?l) (Some [(''a.so'', ?l)]) ?env ?st = Inr (st', None) \<and> loader_ok (main_loader st') \<and>
    (\<forall>(name, l) \<in> set [(''a.so'', ?l)]. wanted name \<longrightarrow> loadable ?dl (module_dir (env_modules_dir ?env)) l name \<longrightarrow>
       module_loaded (main_loader st') name) \<and>
    (\<forall>h. level_of (perm_map (main_perms st')) h = (if env_owner_host ?env \<in> Some ` set (candidates h) then 100000 else 0))"
    by (rule main_start_brings_up [where b = 1]) (use entries in simp_all)
  with entry owner show ?thesis by fastforce
qed

text \<open>
  C30: the end of the program. With the cleanup code of every module there, \<open>main\<close> returns 0; one cleanup thread has been queued
  for each module that was loaded, and no command resolves. But the slots of the threads are in the pool that is
  freed and the permission table is gone as well: a command that still asks for a level reads freed memory, and
  however the cleanup threads are scheduled - those of \<open>ks0\<close> before the pool is freed and those of \<open>ks1\<close> behind it, in any
  order - each of them unloads its module, and each that has not given back its slot when the pool is freed then
  writes through the old pointer.
\<close>

theorem main_exit_frees_pool_first:
  assumes "loader_ok (main_loader st)" and "tree_wf (cmds (main_loader st))" and "hashmap_wf (perm_map (main_perms st))"
    and cleanup: "\<forall>a \<in> set (held (loaded (main_loader st))).
      \<exists>c. ctxs (main_loader st) a = Some c \<and> code_cleanup (dl_code dl (ctx_dlsym c)) \<noteq> None"
    and memory: "\<forall>i. slot_realloc (lucks i) \<and> slot_malloc (lucks i) \<and> thread_create (lucks i)"
  shows "\<exists>st' js. main_exit dl lucks st = Inr (st', 0) \<and>
    threads (main_loader st') = map Deinit_job (rev js) @ threads (main_loader st) \<and> map job_ctx js = held (loaded (main_loader st)) \<and>
    (\<forall>c name. cmd_lookup (cmds (main_loader st')) (c # name) = None) \<and>
    (\<forall>h. hashmap_get (perm_map (main_perms st')) h = Inl Out_Of_Bounds) \<and>
    (\<forall>ks0 ks1. distinct (ks0 @ ks1) \<and> set (ks0 @ ks1) \<subseteq> {..<length js} \<longrightarrow>
      (\<exists>ld1 ld2 tp ld3. modules_unloadall dl lucks (main_loader st) = Inr ld1 \<and> run_threads dl ks0 ld1 = Inr ld2 \<and>
         threadpool_deinit (job_pool ld2) = Inr tp \<and> run_threads dl ks1 (ld2\<lparr>job_pool := tp\<rparr>) = Inr ld3 \<and>
         (\<forall>k \<in> set (ks0 @ ks1). ctxs ld3 (job_ctx (rev js ! k)) = None \<and> run_thread dl k ld3 = Inl Out_Of_Bounds)))"
proof -
  have len: "length (loaded (main_loader st)) = loaded_len (main_loader st)" "\<not> array_mutex (main_loader st)"
    "pool_ok (job_pool (main_loader st))" and live: "slots_live (loaded (main_loader st)) (ctxs (main_loader st))"
    using assms(1) by (simp_all add: loader_ok_def)
  obtain ld js where ld: "modules_unloadall dl lucks (main_loader st) = Inr ld"
    "cmds ld = fst (modules_cmds_clean (cmds (main_loader st)))"
    "threads ld = map Deinit_job (rev js) @ threads (main_loader st)" "map job_ctx js = held (loaded (main_loader st))"
    "pool_ok (job_pool ld)" "loaded ld = loaded (main_loader st)" "ctxs ld = ctxs (main_loader st)"
    "\<forall>j \<in> set js. fst (job_pos j) = loaded_block ld \<and> snd (job_pos j) < length (loaded (main_loader st))"
    by (rule modules_unloadall_ok [OF len, where dl = dl and lucks = lucks]) (use cleanup memory in auto)
  obtain tp where tp: "threadpool_deinit (job_pool ld) = Inr tp" "pool_slots tp = []" by (rule threadpool_deinit_ok [OF ld(5)])
  obtain m where m: "hashmap_destroy (perm_map (main_perms st)) = Inr m" "buckets m = []"
    using hashmap_empty_clears [OF assms(3)] by (auto simp: hashmap_destroy_def)
  let ?st' = "st\<lparr>main_loader := ld\<lparr>job_pool := tp\<rparr>, main_perms := (main_perms st)\<lparr>perm_map := m\<rparr>\<rparr>"
  have run: "main_exit dl lucks st = Inr (?st', 0)"
    using ld(1) tp(1) m(1) by (simp add: main_exit_def modules_deinit_def permissions_cleanup_def)
  have freed: "hashmap_get m h = Inl Out_Of_Bounds" for h using m(2) by (rule hashmap_get_destroyed)
  have none: "cmd_lookup (cmds ld) (c # name) = None" for c name using cmds_clean_frees_all [OF assms(2)] ld(2) by simp
  have "distinct (map job_ctx (rev js))" using held_distinct [OF live] ld(4) by (simp add: rev_map [symmetric])
  moreover have "\<forall>j \<in> set (rev js). fst (job_pos j) = loaded_block ld \<and> snd (job_pos j) < length (loaded ld) \<and> ctxs ld (job_ctx j) \<noteq> None"
  proof
    fix j assume "j \<in> set (rev js)"
    then have "job_ctx j \<in> set (held (loaded (main_loader st)))" using ld(4) [symmetric] by auto
    then show "fst (job_pos j) = loaded_block ld \<and> snd (job_pos j) < length (loaded ld) \<and> ctxs ld (job_ctx j) \<noteq> None"
      using cleanup ld(6-8) \<open>j \<in> set (rev js)\<close> by fastforce
  qed
  ultimately have order: "\<exists>ld2 tp ld3. run_threads dl ks0 ld = Inr ld2 \<and> threadpool_deinit (job_pool ld2) = Inr tp \<and>
      run_threads dl ks1 (ld2\<lparr>job_pool := tp\<rparr>) = Inr ld3 \<and>
      (\<forall>k \<in> set (ks0 @ ks1). ctxs ld3 (job_ctx (rev js ! k)) = None \<and> run_thread dl k ld3 = Inl Out_Of_Bounds)"
    if "distinct (ks0 @ ks1)" "set (ks0 @ ks1) \<subseteq> {..<length js}" for ks0 ks1
    using cleanups_outlive_pool [OF ld(3) _ _ ld(5) that(1)] that(2) by simp
  show ?thesis
  proof (intro exI [of _ ?st'] exI [of _ js] conjI allI impI)
    fix ks0 ks1 assume "distinct (ks0 @ ks1) \<and> set (ks0 @ ks1) \<subseteq> {..<length js}"
    then show "\<exists>ld1 ld2 tp ld3. modules_unloadall dl lucks (main_loader st) = Inr ld1 \<and> run_threads dl ks0 ld1 = Inr ld2 \<and>
         threadpool_deinit (job_pool ld2) = Inr tp \<and> run_threads dl ks1 (ld2\<lparr>job_pool := tp\<rparr>) = Inr ld3 \<and>
         (\<forall>k \<in> set (ks0 @ ks1). ctxs ld3 (job_ctx (rev js ! k)) = None \<and> run_thread dl k ld3 = Inl Out_Of_Bounds)"
      using order [of ks0 ks1] ld(1) by blast
  qed (use run freed none ld(3,4) in simp_all)
qed

theorem main_exit_frees_pool_first_witness:
  "\<exists>dl lucks st st' ld1 ld2 tp ld3. main_exit (dl :: nat dl_env) lucks st = Inr (st', 0) \<and>
    modules_unloadall dl lucks (main_loader st) = Inr ld1 \<and> run_threads dl [1] ld1 = Inr ld2 \<and>
    threadpool_deinit (job_pool ld2) = Inr tp \<and> run_threads dl [0] (ld2\<lparr>job_pool := tp\<rparr>) = Inr ld3 \<and>
    run_thread dl 0 ld3 = Inl Out_Of_Bounds \<and> run_thread dl 1 ld3 = Inl Out_Of_Bounds"
proof -
  let ?dl = "\<lparr>dl_open = (\<lambda>f. if f = ''modules/a.so'' then Some 7 else None),
    dl_code = (\<lambda>h. \<lparr>code_init = Some (\<lambda>t. (t, 0)), code_cleanup = Some (\<lambda>t. t)\<rparr>)\<rparr> :: nat dl_env"
  let ?l = "\<lparr>array_block = Some 2, ctx_block = Some 3, slot_realloc = True, slot_malloc = True, thread_create = True,
    slot_junk = None, path_cells = replicate 4096 NUL\<rparr> :: luck"
  let ?ld = "\<lparr>loaded = [Some 3, None, Some 4, None], loaded_block = 0, loaded_len = 4, loaded_use = 2, array_mutex = False,
    ctxs = [3 \<mapsto> \<lparr>ctx_dlsym = 7, ctx_fn = ''a.so''\<rparr>, 4 \<mapsto> \<lparr>ctx_dlsym = 8, ctx_fn = ''b.so''\<rparr>], handles = [7, 8],
    cmds = new_node :: nat command_tree, job_pool = \<lparr>pool_slots = [None, None], pool_len = 2, pool_flags = 0\<rparr>, threads = []\<rparr>"
  let ?st = "\<lparr>main_perms = \<lparr>perm_map = empty_map, perm_locked = False, pbuf = []\<rparr>, main_loader = ?ld\<rparr>"
  have held: "held (loaded ?ld) = [3, 4]" by (simp add: held_def)
  have "slots_live (loaded ?ld) (ctxs ?ld)"
    unfolding slots_live_def by (auto simp: less_Suc_eq nth_Cons')
  then have ok: "loader_ok (main_loader ?st)" by (simp add: loader_ok_def pool_ok_def used_def)
  have hyps: "tree_wf (cmds (main_loader ?st))" "hashmap_wf (perm_map (main_perms ?st))"
    "\<forall>a \<in> set (held (loaded (main_loader ?st))).
      \<exists>c. ctxs (main_loader ?st) a = Some c \<and> code_cleanup (dl_code ?dl (ctx_dlsym c)) \<noteq> None"
    "\<forall>i :: nat. slot_realloc ?l \<and> slot_malloc ?l \<and> thread_create ?l"
    using tree_wf_new_node empty_map_wf held by simp_all
  note ends = main_exit_frees_pool_first [OF ok hyps]
  obtain st' and js :: "job_args list" where r: "main_exit ?dl (\<lambda>_. ?l) ?st = Inr (st', 0)" "map job_ctx js = held (loaded (main_loader ?st))"
    "\<forall>ks0 ks1. distinct (ks0 @ ks1) \<and> set (ks0 @ ks1) \<subseteq> {..<length js} \<longrightarrow>
      (\<exists>ld1 ld2 tp ld3. modules_unloadall ?dl (\<lambda>_. ?l) (main_loader ?st) = Inr ld1 \<and> run_threads ?dl ks0 ld1 = Inr ld2 \<and>
         threadpool_deinit (job_pool ld2) = Inr tp \<and> run_threads ?dl ks1 (ld2\<lparr>job_pool := tp\<rparr>) = Inr ld3 \<and>
         (\<forall>k \<in> set (ks0 @ ks1). ctxs ld3 (job_ctx (rev js ! k)) = None \<and> run_thread ?dl k ld3 = Inl Out_Of_Bounds))"
    using ends by - (elim exE conjE, rule that; assumption)
  have "length js = 2" using arg_cong [OF r(2), of length] held by simp
  then have two: "distinct ([1] @ [0 :: nat]) \<and> set ([1] @ [0]) \<subseteq> {..<length js}" by simp
  obtain ld1 ld2 tp ld3 where "modules_unloadall ?dl (\<lambda>_. ?l) (main_loader ?st) = Inr ld1" "run_threads ?dl [1] ld1 = Inr ld2"
    "threadpool_deinit (job_pool ld2) = Inr tp" "run_threads ?dl [0] (ld2\<lparr>job_pool := tp\<rparr>) = Inr ld3" and
    all: "\<forall>k \<in> set ([1] @ [0]). ctxs ld3 (job_ctx (rev js ! k)) = None \<and> run_thread ?dl k ld3 = Inl Out_Of_Bounds"
    using r(3) [rule_format, OF two] by - (elim exE conjE, rule that; assumption)
  moreover have "run_thread ?dl 0 ld3 = Inl Out_Of_Bounds" "run_thread ?dl 1 ld3 = Inl Out_Of_Bounds" using all by simp_all
  ultimately show ?thesis
    by (intro exI [of _ ?dl] exI [of _ "\<lambda>_. ?l"] exI [of _ ?st] exI [of _ st'] exI [of _ ld1] exI [of _ ld2] exI [of _ tp] exI [of _ ld3] conjI) (use r(1) in assumption)+
qed

text \<open>
  C15: after the first signal the program ends. As long as the turns before it come to an end - handshakes stop, the server sends
  lines of at most 510 characters and then closes the connection or the flag interrupts \<open>irc_loop\<close> - the loop of \<open>main\<close> reaches
  the turn that finds \<open>done\<close> set and leaves there. It waits before every turn but the first and disconnects once for each turn that
  was connected, whether or not its login succeeded.
\<close>

theorem main_loop_returns:
  assumes "\<forall>a \<in> set as. attempt_closes a \<and> \<not> at_done a \<and> errno_ret (at_lib a) \<noteq> 0" and "c_str (cfg_nick cfg)" and "at_done stop"
  shows "\<exists>evs st'. main_loop cfg False st (as @ stop # rest) = Inr (evs, st', True) \<and>
    count_list evs Waited = length as - 1 \<and>
    count_list evs Disconnected = length (filter (\<lambda>a. connects (at_lib a) (cfg_use_ssl cfg \<noteq> 0)) as)"
proof -
  have "length (filter (\<lambda>a. connects (at_lib a) (cfg_use_ssl cfg \<noteq> 0)) as) + failures (cfg_use_ssl cfg \<noteq> 0) as = length as"
    by (simp add: failures_def sum_length_filter_compl)
  then show ?thesis using main_loop_ends [OF assms, of False st rest] by auto
qed

theorem main_loop_returns_witness:
  "\<exists>cfg a stop st evs st'. main_loop cfg False st [a, a, stop] = Inr (evs, st', True) \<and> count_list evs Waited = 1 \<and> count_list evs Disconnected = 2"
proof -
  let ?cfg = "\<lparr>cfg_nick = ''bot'', cfg_user = ''bot'', cfg_name = ''bot'', cfg_verbosity = 1, cfg_use_ssl = 0, cfg_netpw = None, cfg_channels = []\<rparr>"
  let ?lib = "\<lparr>getaddrinfo_ret = 0, socket_ret = 3, errno_ret = 111, connect_ret = 0, tls_seed = 0, tls_connect = 0, tls_fd = 0, tls_defaults = 0,
    tls_setup = 0, tls_hostname = 0, tls_step = \<lambda>_. 0, tls_want_read = -26880, tls_want_write = -26752\<rparr>"
  let ?a = "\<lparr>at_done = False, at_lib = ?lib, at_malloc = True, at_buf = replicate 513 NUL, at_fresh = (\<lambda>m. replicate m NUL),
    at_reads = [[]], at_cells = replicate 513 NUL, at_inputs = [Closed]\<rparr>"
  let ?stop = "?a\<lparr>at_done := True\<rparr>"
  let ?st = "\<lparr>conn = 0, use_ssl = False, server_fd = None, open_fds = [], addrinfos = 0, tls_sets = 0\<rparr>"
  have closes: "attempt_closes ?a"
    unfolding attempt_closes_def by (auto simp: wants_more_def closing_def intro: exI [of _ "[]"])
  have ok: "\<forall>a \<in> set [?a, ?a]. attempt_closes a \<and> \<not> at_done a \<and> errno_ret (at_lib a) \<noteq> 0"
    using closes by simp
  have nick: "c_str (cfg_nick ?cfg)" by simp
  have stop: "at_done ?stop" by simp
  have two: "length (filter (\<lambda>a. connects (at_lib a) (cfg_use_ssl ?cfg \<noteq> 0)) [?a, ?a]) = 2"
    by (simp add: connects_def attempt_socket_def)
  obtain evs st' where "main_loop ?cfg False ?st ([?a, ?a] @ ?stop # []) = Inr (evs, st', True)"
    "count_list evs Waited = length [?a, ?a] - 1" "count_list evs Disconnected = 2"
    using main_loop_returns [OF ok nick stop, of ?st "[]"] unfolding two by blast
  then show ?thesis by (intro exI [of _ ?cfg] exI [of _ ?a] exI [of _ ?stop] exI [of _ ?st] exI [of _ evs] exI [of _ st']) simp
qed

text \<open>
  C29: what failed attempts leave behind. An attempt that opened its socket and failed later is not followed by
  \<open>net_disconnect\<close>: the socket stays open, and with TLS each failed attempt leaves a set of contexts; attempts that succeeded
  give everything back.
\<close>

theorem reconnect_leaks:
  assumes "\<forall>a \<in> set as. attempt_closes a \<and> \<not> at_done a \<and> errno_ret (at_lib a) \<noteq> 0" and "c_str (cfg_nick cfg)" and "at_done stop"
  shows "\<exists>evs st'. main_loop cfg again st (as @ stop # rest) = Inr (evs, st', True) \<and>
    length (open_fds st') = length (open_fds st) + leaks (cfg_use_ssl cfg \<noteq> 0) as \<and>
    tls_sets st' = tls_sets st + (if cfg_use_ssl cfg \<noteq> 0 then failures (cfg_use_ssl cfg \<noteq> 0) as else 0)"
  using main_loop_ends [OF assms, of again st rest] by blast

theorem reconnect_leaks_witness:
  "\<exists>cfg a stop st evs st'. main_loop cfg False st [a, a, stop] = Inr (evs, st', True) \<and> length (open_fds st') = 2"
proof -
  let ?cfg = "\<lparr>cfg_nick = ''bot'', cfg_user = ''bot'', cfg_name = ''bot'', cfg_verbosity = 1, cfg_use_ssl = 0, cfg_netpw = None, cfg_channels = []\<rparr>"
  let ?lib = "\<lparr>getaddrinfo_ret = 0, socket_ret = 3, errno_ret = 111, connect_ret = (-1), tls_seed = 0, tls_connect = 0, tls_fd = 0, tls_defaults = 0,
    tls_setup = 0, tls_hostname = 0, tls_step = \<lambda>_. 0, tls_want_read = -26880, tls_want_write = -26752\<rparr>"
  let ?a = "\<lparr>at_done = False, at_lib = ?lib, at_malloc = True, at_buf = replicate 513 NUL, at_fresh = (\<lambda>m. replicate m NUL),
    at_reads = [[]], at_cells = replicate 513 NUL, at_inputs = [Closed]\<rparr>"
  let ?stop = "?a\<lparr>at_done := True\<rparr>"
  let ?st = "\<lparr>conn = 0, use_ssl = False, server_fd = None, open_fds = [], addrinfos = 0, tls_sets = 0\<rparr>"
  have closes: "attempt_closes ?a"
    unfolding attempt_closes_def by (auto simp: wants_more_def closing_def intro: exI [of _ "[]"])
  have ok: "\<forall>a \<in> set [?a, ?a]. attempt_closes a \<and> \<not> at_done a \<and> errno_ret (at_lib a) \<noteq> 0"
    using closes by simp
  have nick: "c_str (cfg_nick ?cfg)" by simp
  have stop: "at_done ?stop" by simp
  have two: "leaks (cfg_use_ssl ?cfg \<noteq> 0) [?a, ?a] = 2"
    by (simp add: leaks_def connects_def attempt_socket_def)
  obtain evs st' where "main_loop ?cfg False ?st ([?a, ?a] @ ?stop # []) = Inr (evs, st', True)"
    "length (open_fds st') = length (open_fds ?st) + 2"
    using reconnect_leaks [OF ok nick stop, of False ?st "[]"] unfolding two by blast
  then show ?thesis by (intro exI [of _ ?cfg] exI [of _ ?a] exI [of _ ?stop] exI [of _ ?st] exI [of _ evs] exI [of _ st']) simp
qed

text \<open>
  C36: from the settings to the wire. \<open>main\<close> has no configuration exactly when nick, host or port is missing. Otherwise one turn
  connects - with TLS exactly when the variable is there and reads as 1 - and, if the server answers the login with its
  welcome, these bytes go out in this order: PASS with the password if one is set, USER and NICK with the values of
  the variables, for which the nick stands in where user or name is not set, one JOIN for each argument; then come
  the events of the lines and QUIT, and the connection is closed. The verbosity is the given number if it is one of 0
  to 3, and 1 otherwise.
\<close>

theorem settings_reach_server:
  assumes env: "env_nick env = Some nick" "env_host env = Some host" "env_port env = Some port" "c_str nick"
    and memory: "at_malloc a" "\<forall>m. length (at_fresh a m) = m" "length (at_buf a) = 513" "length (at_cells a) = 513"
    and turn: "\<not> at_done a" "at_done stop" "net_connect (at_lib a) (\<exists>s. env_ssl env = Some s \<and> atoi s = 1) st = Some (st1, 0)"
    and reply: "at_reads a = ('':'' @ srv @ '' 001'' @ greeting @ crlf) # reads" "srv \<noteq> []" "hd srv \<noteq> CHR ''I''"
      "CHR '' '' \<notin> set srv" "LF \<notin> set srv" "quiet greeting" "LF \<notin> set greeting" "length srv + length greeting \<le> 400"
    and lines: "at_inputs a = map Bytes (map wire batches) @ [e]" "closing e" "\<forall>lines \<in> set batches. \<forall>line \<in> set lines. whole_line line"
  shows "(\<forall>env'. main_config env' argv = None \<longleftrightarrow> env_nick env' = None \<or> env_host env' = None \<or> env_port env' = None) \<and>
    (\<exists>cfg. main_config env argv = Some cfg \<and>
      main_loop cfg False st (a # stop # rest) =
        Inr (map Wire
              ((case env_password env of None \<Rightarrow> [] | Some p \<Rightarrow> [net_raw (''PASS '' @ p @ crlf)]) @
               [net_raw (''USER '' @ (case env_user env of None \<Rightarrow> nick | Some u \<Rightarrow> u) @ '' 0 0 :'' @
                  (case env_name env of None \<Rightarrow> nick | Some r \<Rightarrow> r) @ crlf),
                net_raw (''NICK '' @ nick @ crlf)] @
               map (\<lambda>chan. net_raw (''JOIN '' @ chan @ crlf)) argv) @
             map Reader (concat (map line_events (concat batches)) @ [Sent (net_raw (''QUIT :Gone fishing.'' @ crlf))]) @
             [Disconnected], net_disconnect st1, True) \<and>
      cfg_verbosity cfg = (case env_verbosity env of None \<Rightarrow> 1 | Some s \<Rightarrow> if atoi s \<in> {0..3} then atoi s else 1))"
proof -
  obtain cfg where cfg: "main_config env argv = Some cfg" "cfg_nick cfg = nick" "cfg_netpw cfg = env_password env"
    "cfg_channels cfg = argv" "cfg_user cfg = (case env_user env of None \<Rightarrow> nick | Some u \<Rightarrow> u)"
    "cfg_name cfg = (case env_name env of None \<Rightarrow> nick | Some r \<Rightarrow> r)"
    "cfg_use_ssl cfg \<noteq> 0 \<longleftrightarrow> (\<exists>s. env_ssl env = Some s \<and> atoi s = 1)"
    "cfg_verbosity cfg = (case env_verbosity env of None \<Rightarrow> 1 | Some s \<Rightarrow> if atoi s \<in> {0..3} then atoi s else 1)"
    using env(1-3) main_config_settings by blast
  have login: "irc_login (at_malloc a) (at_buf a) (at_fresh a) (cfg_user cfg) (cfg_name cfg) (cfg_nick cfg) (cfg_netpw cfg) (at_reads a) =
      Inr (login_hello (cfg_user cfg) (cfg_name cfg) nick (env_password env), Some True)"
    using irc_login_welcomed [OF memory(2) env(4) memory(3) reply(2-8)] memory(1) reply(1) cfg(2,3) by simp
  have session: "main_session cfg a =
      Inr (map Wire (login_hello (cfg_user cfg) (cfg_name cfg) nick (env_password env) @ map irc_join argv) @
        map Reader (concat (map line_events (concat batches)) @ [Sent (irc_raw ''QUIT :Gone fishing.'')]), True)"
    using login irc_loop_batches [OF memory(4) lines(3,2)] lines(1) cfg(4) by (simp add: main_session_def irc_start_def)
  have none: "main_config env' argv = None \<longleftrightarrow> env_nick env' = None \<or> env_host env' = None \<or> env_port env' = None" for env'
    by (simp add: main_config_def Let_def split: option.split)
  have joins: "map irc_join argv = map (\<lambda>chan. net_raw (''JOIN '' @ chan @ crlf)) argv" by (simp add: irc_join_def)
  have "main_loop cfg False st (a # stop # rest) =
      Inr (map Wire (login_hello (cfg_user cfg) (cfg_name cfg) nick (env_password env) @ map irc_join argv) @
        map Reader (concat (map line_events (concat batches)) @ [Sent (irc_raw ''QUIT :Gone fishing.'')]) @ [Disconnected],
        net_disconnect st1, True)"
    using session turn cfg(7) by simp
  with none cfg(1,8) show ?thesis
    unfolding joins login_hello_def irc_raw_def cfg(5,6) by auto
qed

theorem settings_reach_server_witness:
  "\<exists>env cfg a stop st st'. main_config env [''#c''] = Some cfg \<and> cfg_verbosity cfg = 1 \<and>
    main_loop cfg False st [a, stop] =
      Inr (map Wire [net_raw (''PASS pw'' @ crlf), net_raw (''USER bot 0 0 :Bot'' @ crlf), net_raw (''NICK bot'' @ crlf),
             net_raw (''JOIN #c'' @ crlf)] @
           [Reader (Sent (net_raw (''QUIT :Gone fishing.'' @ crlf))), Disconnected], st', True)"
proof -
  let ?env = "\<lparr>env_nick = Some ''bot'', env_user = None, env_name = Some ''Bot'', env_verbosity = Some ''7'', env_host = Some ''h'',
    env_port = Some ''6667'', env_ssl = None, env_password = Some ''pw'', env_prefix = None, env_modules_dir = None, env_owner_host = None\<rparr>"
  let ?lib = "\<lparr>getaddrinfo_ret = 0, socket_ret = 3, errno_ret = 111, connect_ret = 0, tls_seed = 0, tls_connect = 0, tls_fd = 0, tls_defaults = 0,
    tls_setup = 0, tls_hostname = 0, tls_step = \<lambda>_. 0, tls_want_read = -26880, tls_want_write = -26752\<rparr>"
  let ?line = "'':'' @ ''srv'' @ '' 001'' @ '' bot :hi'' @ crlf"
  let ?a = "\<lparr>at_done = False, at_lib = ?lib, at_malloc = True, at_buf = replicate 513 NUL, at_fresh = (\<lambda>m. replicate m NUL),
    at_reads = [?line], at_cells = replicate 513 NUL, at_inputs = [Closed]\<rparr>"
  let ?stop = "?a\<lparr>at_done := True\<rparr>"
  let ?st = "\<lparr>conn = 0, use_ssl = False, server_fd = None, open_fds = [], addrinfos = 0, tls_sets = 0\<rparr>"
  have conn: "\<exists>st1. net_connect (at_lib ?a) (\<exists>s. env_ssl ?env = Some s \<and> atoi s = 1) ?st = Some (st1, 0)"
    by (simp add: net_connect_def net_connect_nossl_def Let_def)
  then obtain st1 where conn: "net_connect (at_lib ?a) (\<exists>s. env_ssl ?env = Some s \<and> atoi s = 1) ?st = Some (st1, 0)" by blast
  have seven: "atoi ''7'' = 7" by code_simp
  have "\<exists>cfg. main_config ?env [''#c''] = Some cfg \<and>
      main_loop cfg False ?st (?a # ?stop # []) =
        Inr (map Wire
              ((case env_password ?env of None \<Rightarrow> [] | Some p \<Rightarrow> [net_raw (''PASS '' @ p @ crlf)]) @
               [net_raw (''USER '' @ (case env_user ?env of None \<Rightarrow> ''bot'' | Some u \<Rightarrow> u) @ '' 0 0 :'' @
                  (case env_name ?env of None \<Rightarrow> ''bot'' | Some r \<Rightarrow> r) @ crlf),
                net_raw (''NICK '' @ ''bot'' @ crlf)] @
               map (\<lambda>chan. net_raw (''JOIN '' @ chan @ crlf)) [''#c'']) @
             map Reader (concat (map line_events (concat [])) @ [Sent (net_raw (''QUIT :Gone fishing.'' @ crlf))]) @
             [Disconnected], net_disconnect st1, True) \<and>
      cfg_verbosity cfg = (case env_verbosity ?env of None \<Rightarrow> 1 | Some s \<Rightarrow> if atoi s \<in> {0..3} then atoi s else 1)"
    (is "\<exists>cfg. ?sends cfg")
    by (rule settings_reach_server [where host = "''h''" and port = "''6667''" and a = ?a and stop = ?stop and
          srv = "''srv''" and greeting = "'' bot :hi''" and reads = "[]" and e = Closed, THEN conjunct2])
      (use conn in \<open>simp_all add: c_str_def closing_def\<close>)
  then obtain cfg where "?sends cfg" by (rule exE)
  then show ?thesis
    by (intro exI [of _ ?env] exI [of _ cfg] exI [of _ ?a] exI [of _ ?stop] exI [of _ ?st] exI [of _ "net_disconnect st1"])
      (simp add: seven del: main_loop.simps)
qed

end
