(* ===== verification/Libraries.thy ===== *)
theory Libraries
  imports Bot_Prelude
begin

text \<open>
  What the modules take from libraries that are not part of the sources: libcurl, jsmn, the
  expression library leo, the resolver, and the arithmetic and printing of floating-point numbers. Each is a
  field of a record, so a definition that uses one has it as an argument; nothing is assumed about them here.
\<close>

text \<open>A \<open>double\<close> is kept as its bit pattern, and so is the pointer to a queue of leo; 0 is the null pointer.\<close>

type_synonym double = "64 word"
type_synonym queue_ptr = "64 word"

text \<open>A token of jsmn: whether it is an object, and the positions \<open>start\<close> and \<open>end\<close> of its text.\<close>

record jsmntok =
  tok_object :: bool
  tok_start :: nat
  tok_end :: nat

datatype addr_family = AF_UNSPEC | AF_INET | AF_INET6

text \<open>
  For the web modules: \<open>curl_get\<close> gives the chunks libcurl hands to the callback for a URL and whether the
  result was \<open>CURLE_OK\<close>, \<open>jsmn_parse\<close> its result and the tokens it filled in, \<open>resolve\<close> an address as
  text. The last four are the outcomes of \<open>malloc\<close> and \<open>realloc\<close>, the cells of fresh memory and of the stack.
\<close>

record web_env =
  curl_escape :: "string \<Rightarrow> string option"
  curl_get :: "string \<Rightarrow> string list \<times> bool"
  jsmn_parse :: "char list \<Rightarrow> nat \<Rightarrow> int \<times> jsmntok list"
  resolve :: "addr_family \<Rightarrow> string \<Rightarrow> string option"
  atof :: "string \<Rightarrow> double"
  d_mult :: "double \<Rightarrow> double \<Rightarrow> double"
  print_lf :: "double \<Rightarrow> string"
  print_2lf :: "double \<Rightarrow> string"
  web_malloc :: bool
  web_realloc :: "nat \<Rightarrow> bool"
  web_fresh :: "nat \<Rightarrow> char list"
  web_stack :: "char list"

text \<open>
  For \<^verbatim>\<open>bot_math\<close>: \<open>syard_run\<close> and \<open>rpn_calc\<close> with the error text they leave, the second with the two resolvers it calls back,
  \<open>run_function\<close>, the text \<open>ESTR_FUNC_NOT_FOUND\<close>, and \<open>%g\<close>.
\<close>

type_synonym leo_result = "double option \<times> string option"

record leo_env =
  syard_run :: "string \<Rightarrow> queue_ptr \<times> string option"
  rpn_calc :: "(string \<Rightarrow> double) \<Rightarrow> (string \<Rightarrow> double list \<Rightarrow> leo_result) \<Rightarrow> queue_ptr \<Rightarrow> string option \<Rightarrow> leo_result"
  run_function :: "string \<Rightarrow> double list \<Rightarrow> leo_result"
  ESTR_FUNC_NOT_FOUND :: string
  print_g :: "double \<Rightarrow> string"

text \<open>Memory is there: fresh cells have the length that was asked for and every \<open>realloc\<close> works.\<close>

definition web_memory_ok :: "web_env \<Rightarrow> bool" where
  "web_memory_ok env \<longleftrightarrow> (\<forall>n. length (web_fresh env n) = n) \<and> (\<forall>n. web_realloc env n)"

text \<open>Libraries that answer nothing, as concrete arguments.\<close>

definition quiet_web :: web_env where
  "quiet_web = \<lparr>curl_escape = Some, curl_get = (\<lambda>u. ([], True)), jsmn_parse = (\<lambda>m n. (0, [])),
     resolve = (\<lambda>f h. None), atof = (\<lambda>s. 0), d_mult = (\<lambda>x y. 0), print_lf = (\<lambda>d. ''0''), print_2lf = (\<lambda>d. ''0''),
     web_malloc = True, web_realloc = (\<lambda>n. True), web_fresh = (\<lambda>n. replicate n NUL), web_stack = replicate 1024 NUL\<rparr>"

definition quiet_leo :: leo_env where
  "quiet_leo = \<lparr>syard_run = (\<lambda>s. (0, Some ''empty'')), rpn_calc = (\<lambda>v f q e. (None, Some ''empty'')), run_function = (\<lambda>s d. (None, None)),
     ESTR_FUNC_NOT_FOUND = ''not found'', print_g = (\<lambda>d. ''0'')\<rparr>"

end
