(* ===== verification/Module_Context.thy ===== *)
theory Module_Context
  imports Permissions Irc_Output Libraries
begin

text \<open>
  The contract between the core and a command handler of a module (\<^verbatim>\<open>include/module.h\<close>). A handler
  gets the name it was called by, the sender, the place and the arguments, and returns the calls it
  makes through \<open>core_ctx\<close>, in order, or the fault it dies of; the permission table is passed along.
  The locale \<open>command_handler\<close> is what the core relies on for every handler: no call is made for a
  sender whose level is too low for it, and the permission table is for operators to change. Its
  extension \<open>line_handler\<close> adds that clean input gives at most one line for each call. Every module
  interprets both. \<open>log\<close> writes to the terminal only and is left out.
\<close>

section \<open>Handlers\<close>

text \<open>
  The functions the modelled modules register. Function pointers are compared nowhere, so a
  constructor for each function is enough.
\<close>

datatype bot_handler =
    Misc_help
  | Misc_hello
  | Fun_cookie
  | Fun_hug
  | Fun_celebrate
  | Fun_shrug
  | Fun_potato
  | Fun_fw
  | Perms_cmd
  | Admin_reload
  | Admin_cmd
  | Admin_raw
  | Chanop_cmd
  | Urban_cmd
  | Google_cmd
  | Wolfram_cmd
  | Geoip_cmd
  | Crypto_cmd
  | Calc_cmd

text \<open>
  What a handler meets and the model does not determine: the value of \<open>rand\<close>, the cells of an
  uninitialised 513-byte array on the stack, whether allocations succeed, the libraries, the keys \<open>module_init\<close>
  read from the environment, and the static variable \<open>ans\<close> of \<^verbatim>\<open>bot_math.c\<close>, which other commands may have set.
\<close>

record run_env =
  rand_value :: nat
  stack_cells :: "char list"
  realloc_works :: bool
  strdup_works :: bool
  web_lib :: web_env
  leo_lib :: leo_env
  wolfram_key :: string
  geoip_key :: string
  ans_value :: double

type_synonym handler_result = "fault + core_call list"

section \<open>Levels and lines\<close>

text \<open>The level a call is worth: talking is free, everything else needs a rank.\<close>

fun is_talk :: "core_call \<Rightarrow> bool" where
  "is_talk (Msg chan message) = True"
| "is_talk (Msgva chan message) = True"
| "is_talk (Action chan message) = True"
| "is_talk c = False"

fun permitted :: "int \<Rightarrow> core_call \<Rightarrow> bool" where
  "permitted level (Msg chan message) = True"
| "permitted level (Msgva chan message) = True"
| "permitted level (Action chan message) = True"
| "permitted level (Join chan) = (PERMS_ADMIN \<le> level)"
| "permitted level (Part chan message) = (PERMS_ADMIN \<le> level)"
| "permitted level (Chmode chan modes) =
     (if strncmp_eq modes ''+v '' then PERMS_HOP \<le> level else PERMS_OP \<le> level)"
| "permitted level (Kick chan nick reason) = (PERMS_HOP \<le> level)"
| "permitted level (Raw message) = (PERMS_OWNER \<le> level)"
| "permitted level (Raw_va message) = (PERMS_OP \<le> level)"
| "permitted level Raise_usr1 = (PERMS_OWNER \<le> level)"

lemma permitted_low: "level < PERMS_HOP \<Longrightarrow> permitted level c \<Longrightarrow> is_talk c"
  by (cases c) (auto simp: perms_defs split: if_splits)

lemma permitted_mono: "level \<le> level' \<Longrightarrow> permitted level c \<Longrightarrow> permitted level' c"
  by (cases c) (auto split: if_splits)

text \<open>At most one line end, and nothing behind it.\<close>

definition single_line :: "core_call \<Rightarrow> bool" where
  "single_line c \<longleftrightarrow> LF \<notin> set (butlast (perform c))"

lemma single_line_take: "clean s \<Longrightarrow> LF \<notin> set (butlast (take n (s @ crlf)))"
proof -
  assume s: "clean s"
  have "take n (s @ crlf) = take n s \<or> take n (s @ crlf) = s @ [CR] \<or> take n (s @ crlf) = s @ crlf"
  proof (cases "n - length s")
    case (Suc k)
    then show ?thesis by (cases k) simp_all
  qed simp
  then show ?thesis
    using s clean_take [OF s, of n] by (auto simp: butlast_append clean_def dest: in_set_butlastD)
qed

lemma single_line_clean: "ends_line c \<Longrightarrow> clean (call_body c) \<Longrightarrow> single_line c"
  by (simp add: single_line_def perform_body single_line_take del: take_append)

lemma single_line_raw_va: "clean s \<Longrightarrow> single_line (Raw_va (s @ crlf))"
  using single_line_take [of s 511] by (simp add: single_line_def net_raw_def net_raws_def vsnprintf_def del: take_append)

lemma single_line_simps [simp]:
  "clean chan \<Longrightarrow> clean message \<Longrightarrow> single_line (Msg chan message)"
  "clean chan \<Longrightarrow> clean message \<Longrightarrow> single_line (Msgva chan message)"
  "clean chan \<Longrightarrow> single_line (Join chan)"
  "clean chan \<Longrightarrow> clean message \<Longrightarrow> single_line (Part chan message)"
  "clean chan \<Longrightarrow> clean message \<Longrightarrow> single_line (Chmode chan message)"
  "clean chan \<Longrightarrow> clean nick \<Longrightarrow> single_line (Kick chan nick None)"
  "clean chan \<Longrightarrow> clean nick \<Longrightarrow> clean message \<Longrightarrow> single_line (Kick chan nick (Some message))"
  "clean message \<Longrightarrow> single_line (Raw message)"
  by (auto intro!: single_line_clean simp: ends_line_def clean_take)

lemma single_line_raise [simp]: "single_line Raise_usr1"
  by (simp add: single_line_def)

lemma count_lines:
  "\<forall>c \<in> set calls. single_line c \<Longrightarrow> count_list (concat (map perform calls)) LF \<le> length calls"
proof (induction calls)
  case (Cons c calls)
  have "count_list (perform c) LF \<le> 1"
  proof (cases "perform c" rule: rev_cases)
    case (snoc xs x)
    then have "LF \<notin> set xs" using Cons.prems by (simp add: single_line_def)
    with snoc show ?thesis by (simp add: count_notin)
  qed simp
  with Cons show ?case by simp
qed simp

lemma clean_drop: "clean s \<Longrightarrow> clean (drop n s)"
  by (auto simp: clean_def dest: in_set_dropD)

lemma digit_char_clean: "d < 10 \<Longrightarrow> digit_char d \<noteq> CR \<and> digit_char d \<noteq> LF"
  using digit_char_props(5) [of d] by (auto simp: is_space_def)

lemma clean_digits: "clean (nat_digits n)"
proof (induction n rule: nat_digits.induct)
  case (1 n)
  then show ?case by (cases "n < 10") (auto simp: nat_digits.simps [of n] digit_char_clean)
qed

lemma clean_int_digits [simp]: "clean (int_digits i)"
  by (simp add: int_digits_def clean_digits)

section \<open>The contract\<close>

locale command_handler =
  fixes run :: "perm_state \<Rightarrow> command_sender \<Rightarrow> perm_state \<times> handler_result"
  assumes run_permitted:
      "run ps who = (ps', Inr calls) \<Longrightarrow> c \<in> set calls \<Longrightarrow> permitted (permission_level who) c"
    and run_below_hop: "permission_level who < PERMS_HOP \<Longrightarrow> fst (run ps who) = ps"
    and run_below_op: "permission_level who < PERMS_OP \<Longrightarrow> perm_map (fst (run ps who)) = perm_map ps"
begin

lemma stranger_only_talks:
  assumes "permission_level who < PERMS_HOP" and "run ps who = (ps', Inr calls)"
  shows "ps' = ps \<and> (\<forall>c \<in> set calls. is_talk c)"
  using run_below_hop [OF assms(1), of ps] run_permitted [OF assms(2)] permitted_low [OF assms(1)] assms(2)
  by auto

lemma rank_needed:
  assumes "run ps who = (ps', Inr calls)" and "c \<in> set calls" and "\<not> permitted level c"
  shows "level < permission_level who"
  using run_permitted [OF assms(1,2)] permitted_mono [of "permission_level who" level c] assms(3)
  by (meson linorder_not_le)

end

locale line_handler = command_handler +
  fixes clean_input :: bool
  assumes run_single_line:
    "clean_input \<Longrightarrow> clean (sender_nick who) \<Longrightarrow> run ps who = (ps', Inr calls) \<Longrightarrow> c \<in> set calls \<Longrightarrow> single_line c"
begin

lemma run_lines_bound:
  assumes "clean_input" and "clean (sender_nick who)" and "run ps who = (ps', Inr calls)"
  shows "count_list (concat (map perform calls)) LF \<le> length calls"
  using run_single_line [OF assms] by (intro count_lines) auto

end

text \<open>
  The libraries bring no line breaks of their own: what a service sends, what is printed for a number, and the error texts.
\<close>

definition web_clean :: "web_env \<Rightarrow> bool" where
  "web_clean env \<longleftrightarrow> (\<forall>n. length (web_fresh env n) = n) \<and> 1024 \<le> length (web_stack env) \<and>
     (\<forall>u. \<forall>chunk \<in> set (fst (curl_get env u)). clean chunk) \<and> (\<forall>d. clean (print_lf env d) \<and> clean (print_2lf env d))"

definition leo_clean :: "leo_env \<Rightarrow> bool" where
  "leo_clean l \<longleftrightarrow> (\<forall>d. clean (print_g l d)) \<and> (\<forall>s q e. syard_run l s = (q, Some e) \<longrightarrow> clean e) \<and>
     (\<forall>v f q e d e'. rpn_calc l v f q e = (d, Some e') \<longrightarrow> clean e')"

definition libraries_clean :: "run_env \<Rightarrow> bool" where
  "libraries_clean env \<longleftrightarrow> length (stack_cells env) = 513 \<and> web_clean (web_lib env) \<and> leo_clean (leo_lib env)"

text \<open>What the handlers are given by \<open>irc_loop\<close> and the thread pool.\<close>

definition clean_call :: "run_env \<Rightarrow> string \<Rightarrow> string \<Rightarrow> bool" where
  "clean_call env where' args \<longleftrightarrow> clean where' \<and> clean args \<and> libraries_clean env"

text \<open>A concrete environment, for a given stack.\<close>

abbreviation quiet_env :: "char list \<Rightarrow> run_env" where
  "quiet_env stack \<equiv> \<lparr>rand_value = 0, stack_cells = stack, realloc_works = True, strdup_works = True, web_lib = quiet_web,
     leo_lib = quiet_leo, wolfram_key = ''key'', geoip_key = ''key'', ans_value = 0\<rparr>"

lemma quiet_libraries: "length stack = 513 \<Longrightarrow> libraries_clean (quiet_env stack)"
  by (simp add: libraries_clean_def web_clean_def leo_clean_def quiet_web_def quiet_leo_def)

text \<open>A handler that only talks keeps the contract.\<close>

lemma talking_handler:
  assumes "\<And>who calls c. h who = Inr calls \<Longrightarrow> c \<in> set calls \<Longrightarrow> is_talk c"
    and "\<And>who calls c. clean_input \<Longrightarrow> clean (sender_nick who) \<Longrightarrow> h who = Inr calls \<Longrightarrow> c \<in> set calls \<Longrightarrow> single_line c"
  shows "line_handler (\<lambda>ps who. (ps, h who)) clean_input"
proof -
  have "permitted level c" if "is_talk c" for level c using that by (cases c) simp_all
  with assms show ?thesis by unfold_locales auto
qed

end
