(* ===== verification/Bot_Fun.thy ===== *)
theory Bot_Fun
  imports Module_Context Command_Tree
begin

text \<open>
  The talking modules \<^verbatim>\<open>src/modules/bot_misc.c\<close> and \<^verbatim>\<open>src/modules/bot_fun.c\<close>. Their handlers only send
  messages. The interesting one is \<open>fw\<close>, which rewrites the printable characters of its argument as
  fullwidth characters in a 511-byte array; it is shown to stay inside the array and to produce the
  UTF-8 encoding of the fullwidth code points.
\<close>

section \<open>bot_misc\<close>

definition handle_help :: "command_sender \<Rightarrow> string \<Rightarrow> handler_result" where
  "handle_help who where' =
     Inr [Msgva where' (sender_nick who @
       '': Hiya! I'm a bot written by ohnx. I'm open source! Please visit https://github.com/ohnx/minervabot :)'')]"

definition handle_hello :: "string \<Rightarrow> handler_result" where
  "handle_hello where' = Inr [Msg where' ''hello world!'']"

definition misc_cmds :: "(string \<times> bot_handler) list" where
  "misc_cmds = [(''help'', Misc_help), (''hello'', Misc_hello)]"

section \<open>bot_fun\<close>

definition cookietypes :: "string list" where
  "cookietypes =
     [''chocolate chip'', ''oatmeal raisin'', ''oatmeal chocolate'', ''oreo'',
      ''white chocolate macadamia nut'', ''peanut butter'', ''sugar'', ''ginger'']"

definition handle_cookie :: "run_env \<Rightarrow> command_sender \<Rightarrow> string \<Rightarrow> string \<Rightarrow> handler_result" where
  "handle_cookie env who where' args =
     (let args = (if args = [] then sender_nick who else args) in
      and_then (arr_read cookietypes (int (rand_value env mod length cookietypes)))
        (\<lambda>cookie. Inr [Msgva where' (CHR 0x01 # ''ACTION gives '' @ args @ '' a '' @ cookie @
           '' cookie '' @ [CHR 0xF0, CHR 0x9F, CHR 0x8D, CHR 0xAA, CHR 0x01])]))"

definition handle_hug :: "command_sender \<Rightarrow> string \<Rightarrow> string \<Rightarrow> handler_result" where
  "handle_hug who where' args =
     (let args = (if args = [] then sender_nick who else args) in
      Inr [Msgva where' (CHR 0x01 # ''ACTION hugs '' @ args @ [CHR 0x01])])"

definition handle_celebrate :: "string \<Rightarrow> handler_result" where
  "handle_celebrate where' = Inr [Msgva where' [CHR 0xF0, CHR 0x9F, CHR 0x8E, CHR 0x89]]"

definition handle_shrug :: "string \<Rightarrow> handler_result" where
  "handle_shrug where' =
     Inr [Msgva where' [CHR 0xC2, CHR 0xAF, CHR 0x5C, CHR 0x5F, CHR 0x28, CHR 0xE3, CHR 0x83, CHR 0x84,
       CHR 0x29, CHR 0x5F, CHR 0x2F, CHR 0xC2, CHR 0xAF]]"

definition handle_potato :: "string \<Rightarrow> handler_result" where
  "handle_potato where' = Inr [Msg where' [CHR 0xF0, CHR 0x9F, CHR 0xA5, CHR 0x94]]"

text \<open>
  \<open>c = args[i]\<close>: a \<open>char\<close> is signed on the platforms the bot runs on, so a byte of 128 and more wraps
  around to a large \<open>unsigned short\<close>.
\<close>

definition signed_char :: "char \<Rightarrow> int" where
  "signed_char a = (let n = int (of_char a :: nat) in if n < 128 then n else n - 256)"

definition char_to_ushort :: "char \<Rightarrow> 16 word" where
  "char_to_ushort a = word_of_int (signed_char a)"

definition put_three :: "char list \<Rightarrow> nat \<Rightarrow> char \<Rightarrow> char \<Rightarrow> char \<Rightarrow> fault + char list" where
  "put_three buf q a b c =
     and_then (arr_write buf (int (q * 3)) a)
       (\<lambda>buf. and_then (arr_write buf (int (q * 3 + 1)) b)
          (\<lambda>buf. arr_write buf (int (q * 3 + 2)) c))"

definition byte_char :: "16 word \<Rightarrow> char" where
  "byte_char w = char_of (unat w mod 256)"

text \<open>The loop of \<open>handle_fw\<close> over the characters that are left, with \<open>q\<close> characters written.\<close>

fun fw_loop :: "char list \<Rightarrow> nat \<Rightarrow> string \<Rightarrow> fault + char list \<times> nat" where
  "fw_loop buf q [] = Inr (buf, q)"
| "fw_loop buf q (a # args) =
     (let c = char_to_ushort a in
      if c < 0x20 \<or> c > 0x7F then fw_loop buf q args
      else if c = 0x20 then
        and_then (put_three buf q (CHR 0xE3) (CHR 0x80) (CHR 0x80)) (\<lambda>buf. fw_loop buf (q + 1) args)
      else
        (let c = (if c \<ge> 0x60 then c + 0xC0 else c); s = 0xBC60 + c in
         and_then (put_three buf q (CHR 0xEF) (byte_char (drop_bit 8 s)) (byte_char s))
           (\<lambda>buf. fw_loop buf (q + 1) args)))"

definition handle_fw :: "run_env \<Rightarrow> string \<Rightarrow> string \<Rightarrow> handler_result" where
  "handle_fw env where' args =
     (let n = length args; n = (if n > 170 then 170 else n) in
      and_then (fw_loop (take 511 (stack_cells env)) 0 (take n args))
        (\<lambda>(buf, q). and_then (arr_write buf (int (q * 3)) NUL)
           (\<lambda>buf. and_then (c_string_at buf 0) (\<lambda>s. Inr [Msg where' s]))))"

definition fun_cmds :: "(string \<times> bot_handler) list" where
  "fun_cmds = [(''cookie'', Fun_cookie), (''hug'', Fun_hug), (''shrug'', Fun_shrug), (''potato'', Fun_potato),
     (''celebrate'', Fun_celebrate), (''confetti'', Fun_celebrate), (''party'', Fun_celebrate), (''fw'', Fun_fw)]"

section \<open>Loading\<close>

text \<open>
  \<open>module_init\<close> adds up the results of the registrations (C leaves their order open; the model takes
  the order of the text), and \<open>module_cleanup\<close> unregisters the same names.
\<close>

definition misc_init :: "nat \<Rightarrow> bot_handler command_tree \<Rightarrow> bot_handler command_tree \<times> int" where
  "misc_init mem t = register_list (modules_register_cmd mem) t misc_cmds"

definition misc_cleanup :: "bot_handler command_tree \<Rightarrow> bot_handler command_tree" where
  "misc_cleanup t = unregister_list modules_unregister_cmd t [''help'', ''hello'']"

definition fun_init :: "nat \<Rightarrow> bot_handler command_tree \<Rightarrow> bot_handler command_tree \<times> int" where
  "fun_init mem t = register_list (modules_register_cmd mem) t fun_cmds"

definition fun_cleanup :: "bot_handler command_tree \<Rightarrow> bot_handler command_tree" where
  "fun_cleanup t = unregister_list modules_unregister_cmd t
     [''cookie'', ''hug'', ''shrug'', ''potato'', ''celebrate'', ''confetti'', ''party'', ''fw'']"

section \<open>Fullwidth text\<close>

text \<open>The UTF-8 encoding of a code point of three bytes, and the fullwidth form of a character.\<close>

definition utf8_three :: "nat \<Rightarrow> string" where
  "utf8_three cp = [char_of (0xE0 + cp div 4096), char_of (0x80 + cp div 64 mod 64), char_of (0x80 + cp mod 64)]"

definition fullwidth :: "char \<Rightarrow> string" where
  "fullwidth a = utf8_three (if a = CHR '' '' then 0x3000 else 0xFEE0 + of_char a)"

definition shown :: "char \<Rightarrow> bool" where
  "shown a \<longleftrightarrow> 0x20 \<le> (of_char a :: nat) \<and> (of_char a :: nat) \<le> 0x7F"

lemma of_char_less: "(of_char a :: nat) < 256" by simp

lemma uint_ushort: "uint (char_to_ushort a) = signed_char a mod 65536"
  by (simp add: char_to_ushort_def uint_word_of_int)

lemma unat_ushort_low: "of_char a < (128::nat) \<Longrightarrow> unat (char_to_ushort a) = of_char a"
  unfolding unat_eq_nat_uint uint_ushort
  by (simp add: signed_char_def Let_def)

lemma ushort_high: "128 \<le> (of_char a :: nat) \<Longrightarrow> 0x7F < unat (char_to_ushort a)"
proof -
  assume a: "128 \<le> (of_char a :: nat)"
  then have "signed_char a mod 65536 = int (of_char a) + 65280"
    using of_char_less [of a] mod_add_self2 [of "int (of_char a) - 256" 65536]
    by (simp add: signed_char_def Let_def del: of_nat_of_char)
  then show ?thesis using a by (simp add: unat_eq_nat_uint uint_ushort)
qed

lemma char_codes: "char_of (239::nat) = CHR 0xEF" "char_of (227::nat) = CHR 0xE3" "char_of (128::nat) = CHR 0x80"
  by code_simp+

lemma unat_high: "unat (drop_bit 8 (w :: 16 word)) = unat w div 256"
  by (simp only: unat_drop_bit_eq) (simp add: drop_bit_eq_div)

lemma fw_word:
  assumes n: "33 \<le> n" "n < (128::nat)" and c: "unat (c :: 16 word) = n"
  shows "[CHR 0xEF, byte_char (drop_bit 8 (0xBC60 + (if c \<ge> 0x60 then c + 0xC0 else c))),
      byte_char (0xBC60 + (if c \<ge> 0x60 then c + 0xC0 else c))] = utf8_three (0xFEE0 + n)"
proof -
  let ?m = "if n \<ge> 96 then n + 192 else n"
  have ge: "(c \<ge> 0x60) = (n \<ge> 96)" using c by (simp add: word_le_nat_alt)
  have s: "unat (0xBC60 + (if c \<ge> 0x60 then c + 0xC0 else c)) = 0xBC60 + ?m"
    using n c by (simp add: ge unat_word_ariths)
  have "(0xFEE0 + n) div 4096 = 15" by (rule div_nat_eqI) (use n in simp_all)
  moreover have "(0xBC60 + ?m) div 256 mod 256 = 0x80 + (0xFEE0 + n) div 64 mod 64 \<and>
      (0xBC60 + ?m) mod 256 = 0x80 + (0xFEE0 + n) mod 64"
  proof (cases "n \<ge> 96")
    case True
    have "(0xBC60 + ?m) div 256 = 0xBD" "(0xFEE0 + n) div 64 = 1021"
      by (rule div_nat_eqI; use n True in simp)+
    then show ?thesis using True by (simp add: modulo_nat_def)
  next
    case False
    have "(0xBC60 + ?m) div 256 = 0xBC" "(0xFEE0 + n) div 64 = 1020"
      by (rule div_nat_eqI; use n False in simp)+
    then show ?thesis using False by (simp add: modulo_nat_def)
  qed
  ultimately  show ?thesis
    by (simp only: byte_char_def utf8_three_def unat_high s list.inject) (simp add: char_codes)
qed

text \<open>One turn of the loop, in terms of the encoding.\<close>

lemma put_three_ok:
  "length rest \<ge> 3 \<Longrightarrow> length pre = q * 3 \<Longrightarrow> put_three (pre @ rest) q a b c = Inr (pre @ [a, b, c] @ drop 3 rest)"
proof -
  assume "length rest \<ge> 3" and q: "length pre = q * 3"
  then obtain x y z r where r: "rest = x # y # z # r"
    by (auto simp: numeral_3_eq_3 Suc_le_length_iff)
  have "arr_write (pre @ x # y # z # r) (int (length pre)) a = Inr (pre @ a # y # z # r)"
    "arr_write (pre @ a # y # z # r) (int (length pre + 1)) b = Inr (pre @ a # b # z # r)"
    "arr_write (pre @ a # b # z # r) (int (length pre + 2)) c = Inr (pre @ a # b # c # r)"
    by (subst arr_write_ok; simp add: list_update_append nat_add_distrib)+
  then show ?thesis unfolding put_three_def q r by (simp add: q)
qed

lemma fw_loop_step:
  assumes "length rest \<ge> 3" and "length pre = q * 3"
  shows "fw_loop (pre @ rest) q (a # args) =
    (if shown a then fw_loop (pre @ fullwidth a @ drop 3 rest) (q + 1) args else fw_loop (pre @ rest) q args)"
proof (cases "shown a")
  case False
  then have "char_to_ushort a < 0x20 \<or> char_to_ushort a > 0x7F"
    using unat_ushort_low [of a] ushort_high [of a]
    by (cases "(of_char a :: nat) < 128") (auto simp: shown_def word_less_nat_alt)
  with False show ?thesis by (simp add: Let_def)
next
  case True
  then have low: "unat (char_to_ushort a) = of_char a" by (intro unat_ushort_low) (simp add: shown_def)
  then have in_range: "\<not> (char_to_ushort a < 0x20 \<or> char_to_ushort a > 0x7F)"
    using True by (simp add: shown_def word_less_nat_alt)
  show ?thesis
  proof (cases "a = CHR '' ''")
    case sp: True
    have "char_to_ushort a = 0x20" unfolding sp by code_simp
    moreover have "fullwidth a = [CHR 0xE3, CHR 0x80, CHR 0x80]" 
      using sp by (simp add: fullwidth_def utf8_three_def char_codes)
    ultimately show ?thesis using True in_range put_three_ok [OF assms] by simp
  next
    case no: False
    then have "(of_char a :: nat) \<noteq> of_char (CHR '' '')" by (metis char_of_char)
    then have n: "33 \<le> (of_char a :: nat)" "(of_char a :: nat) < 128" using True by (auto simp: shown_def)
    then have "char_to_ushort a \<noteq> 0x20" using low by auto
    with True no in_range fw_word [OF n low] put_three_ok [OF assms] show ?thesis
      by (simp add: Let_def fullwidth_def utf8_three_def)
  qed
qed

lemma fullwidth_length: "length (fullwidth a) = 3"
  by (simp add: fullwidth_def utf8_three_def)

lemma fw_loop_spec:
  assumes "length pre = q * 3" and "3 * length args \<le> length rest"
  shows "fw_loop (pre @ rest) q args =
    Inr (pre @ concat (map fullwidth (filter shown args)) @ drop (3 * length (filter shown args)) rest,
         q + length (filter shown args))"
  using assms
proof (induction args arbitrary: pre rest q)
  case (Cons a args)
  have r: "length rest \<ge> 3" using Cons.prems by simp
  show ?case
  proof (cases "shown a")
    case True
    with Cons.IH [of "pre @ fullwidth a" "q + 1" "drop 3 rest"] Cons.prems
    show ?thesis by (simp add: fw_loop_step [OF r Cons.prems(1)] fullwidth_length add.commute del: fw_loop.simps)
  next
    case False
    with Cons.IH [of pre q rest] Cons.prems
    show ?thesis by (simp add: fw_loop_step [OF r Cons.prems(1)] del: fw_loop.simps)
  qed
qed simp

lemma char_of_plain: "13 < n \<Longrightarrow> n < 256 \<Longrightarrow> char_of (n :: nat) \<noteq> NUL \<and> char_of n \<noteq> CR \<and> char_of n \<noteq> LF"
proof -
  assume n: "13 < n" "n < 256"
  show ?thesis
  proof (intro conjI notI)
    assume "char_of n = NUL"
    from arg_cong [OF this, of "of_char :: char \<Rightarrow> nat"] n show False by simp
  next
    assume "char_of n = CR"
    from arg_cong [OF this, of "of_char :: char \<Rightarrow> nat"] n show False by simp
  next
    assume "char_of n = LF"
    from arg_cong [OF this, of "of_char :: char \<Rightarrow> nat"] n show False by simp
  qed
qed

lemma fullwidth_plain: "c_str (fullwidth a) \<and> clean (fullwidth a)"
proof -
  have "utf8_three cp = utf8_three cp \<and> c_str (utf8_three cp) \<and> clean (utf8_three cp)" if "cp < 65536" for cp
  proof -
    have "cp div 4096 < 16" "cp div 64 mod 64 < 64" "cp mod 64 < 64" using that by auto
    then show ?thesis
      using char_of_plain [of "0xE0 + cp div 4096"] char_of_plain [of "0x80 + cp div 64 mod 64"]
        char_of_plain [of "0x80 + cp mod 64"] by (simp add: utf8_three_def)
  qed
  moreover have "(if a = CHR '' '' then 0x3000 else 0xFEE0 + of_char a :: nat) < 65536"
    using of_char_less [of a] by (split if_split) linarith
  ultimately show ?thesis unfolding fullwidth_def by blast
qed

lemma fullwidth_text_plain: "c_str (concat (map fullwidth s)) \<and> clean (concat (map fullwidth s))"
  by (induction s) (auto simp: fullwidth_plain)

lemma handle_fw_ok:
  assumes "511 \<le> length (stack_cells env)"
  shows "handle_fw env where' args = Inr [Msg where' (concat (map fullwidth (filter shown (take 170 args))))]"
proof -
  let ?args = "take 170 args" and ?rest = "take 511 (stack_cells env)"
  let ?out = "concat (map fullwidth (filter shown ?args))" and ?k = "length (filter shown ?args)"
  have k: "?k \<le> 170" using length_filter_le [of shown ?args] by simp
  have out: "length (concat (map fullwidth s)) = 3 * length s" for s
    by (induction s) (simp_all add: fullwidth_length)
  have n: "take (if length args > 170 then 170 else length args) args = ?args" by auto
  have room: "3 * length ?args \<le> length ?rest" using assms by auto
  have loop: "fw_loop ?rest 0 ?args = Inr (?out @ drop (3 * ?k) ?rest, ?k)"
    using fw_loop_spec [of "[]" 0 ?args ?rest] room by simp
  obtain x junk where rest: "drop (3 * ?k) ?rest = x # junk"
    using assms k by (cases "drop (3 * ?k) ?rest") auto
  have "arr_write (?out @ x # junk) (int (?k * 3)) NUL = Inr (?out @ NUL # junk)"
    by (subst arr_write_ok) (auto simp: list_update_append out)
  then show ?thesis
    using loop fullwidth_text_plain [of "filter shown ?args"]
    by (simp add: handle_fw_def Let_def n rest c_string_at_0)
qed

lemma handle_cookie_ok:
  "\<exists>cookie \<in> set cookietypes. handle_cookie env who where' args =
     Inr [Msgva where' (CHR 0x01 # ''ACTION gives '' @ (if args = [] then sender_nick who else args) @ '' a '' @
       cookie @ '' cookie '' @ [CHR 0xF0, CHR 0x9F, CHR 0x8D, CHR 0xAA, CHR 0x01])]"
proof -
  let ?r = "rand_value env mod length cookietypes"
  have r: "?r < length cookietypes" by (simp add: cookietypes_def)
  then have "arr_read cookietypes (int ?r) = Inr (cookietypes ! ?r)" by (rule arr_read_nat)
  then show ?thesis using nth_mem [OF r] by (intro bexI) (simp_all add: handle_cookie_def Let_def)
qed

lemma cookietypes_clean: "cookie \<in> set cookietypes \<Longrightarrow> clean cookie"
  by (auto simp: cookietypes_def)

section \<open>The contract\<close>

interpretation help_cmd: line_handler "\<lambda>ps who. (ps, handle_help who where')" "clean where'" for where'
  by (rule talking_handler) (auto simp: handle_help_def)

interpretation hello: line_handler "\<lambda>ps who. (ps, handle_hello where')" "clean where'" for where'
  by (rule talking_handler) (auto simp: handle_hello_def)

interpretation cookie: line_handler "\<lambda>ps who. (ps, handle_cookie env who where' args)" "clean_call env where' args"
  for env where' args
proof (rule talking_handler)
  fix who calls c
  assume c: "handle_cookie env who where' args = Inr calls" "c \<in> set calls"
  with handle_cookie_ok [of env who where' args] show "is_talk c" by auto
  assume "clean_call env where' args" "clean (sender_nick who)"
  with c handle_cookie_ok [of env who where' args] cookietypes_clean show "single_line c"
    by (auto simp: clean_call_def libraries_clean_def)
qed

interpretation hug: line_handler "\<lambda>ps who. (ps, handle_hug who where' args)" "clean where' \<and> clean args"
  for where' args
  by (rule talking_handler) (auto simp: handle_hug_def Let_def)

interpretation celebrate: line_handler "\<lambda>ps who. (ps, handle_celebrate where')" "clean where'" for where'
  by (rule talking_handler) (auto simp: handle_celebrate_def)

interpretation shrug: line_handler "\<lambda>ps who. (ps, handle_shrug where')" "clean where'" for where'
  by (rule talking_handler) (auto simp: handle_shrug_def)

interpretation potato: line_handler "\<lambda>ps who. (ps, handle_potato where')" "clean where'" for where'
  by (rule talking_handler) (auto simp: handle_potato_def)

interpretation fw: line_handler "\<lambda>ps who. (ps, handle_fw env where' args)" "clean_call env where' args"
  for env where' args
proof (rule talking_handler)
  show "is_talk c" if "handle_fw env where' args = Inr calls" "c \<in> set calls" for calls c
    using that by (auto simp: handle_fw_def Let_def and_then_Inr_iff split: prod.splits)
  show "single_line c"
    if "clean_call env where' args" "handle_fw env where' args = Inr calls" "c \<in> set calls" for calls c
    using that handle_fw_ok [of env where' args] fullwidth_text_plain by (auto simp: clean_call_def libraries_clean_def)
qed

section \<open>Properties\<close>

text \<open>
  C33: \<open>fw\<close> answers with the fullwidth form of the printable characters among the first 170 of its
  argument, each encoded in UTF-8 as its code point, whatever the argument and the uninitialised
  array hold: it never leaves its 511-byte array, even at 170 characters.
\<close>

theorem handle_fw_fullwidth:
  assumes "511 \<le> length (stack_cells env)"
  shows "handle_fw env where' args = Inr [Msg where' (concat (map fullwidth (filter shown (take 170 args))))]"
  using assms by (rule handle_fw_ok)

theorem handle_fw_fullwidth_witness:
  "handle_fw (quiet_env (replicate 513 (CHR ''x'')))
     ''#c'' [CHR ''A'', CR, CHR 0xE9, CHR '' ''] =
   Inr [Msg ''#c'' (fullwidth (CHR ''A'') @ fullwidth (CHR '' ''))]"
  by (subst handle_fw_fullwidth) (simp_all add: shown_def)

end
