(* ===== verification/Bot_Control.thy ===== *)
theory Bot_Control
  imports Bot_Fun
begin

text \<open>
  The modules that act for people of rank: \<^verbatim>\<open>src/modules/bot_perms.c\<close>, \<^verbatim>\<open>src/modules/bot_admin.c\<close> and
  \<^verbatim>\<open>src/modules/bot_chanop.c\<close>. Their handlers look at the first character of the name the command
  was typed with. Each is shown to keep the contract of \<open>Module_Context\<close>; \<open>setp\<close> is shown to give
  nobody a level at or above the operator's own unless it stores level 0, and the mode commands to
  stay in their 513-byte array for every argument of at most 509 bytes.
\<close>

section \<open>Definitions of the source\<close>

text \<open>\<open>*cmdname\<close>\<close>

fun first_char :: "string \<Rightarrow> char" where
  "first_char [] = NUL"
| "first_char (c # s) = c"

definition insufficient :: "string \<Rightarrow> command_sender \<Rightarrow> core_call" where
  "insufficient where' who = Msgva where' (sender_nick who @ '': Insufficient permissions'')"

subsection \<open>bot_perms\<close>

definition perms_set_cmd :: "run_env \<Rightarrow> perm_state \<Rightarrow> command_sender \<Rightarrow> string \<Rightarrow> string \<Rightarrow> perm_state \<times> handler_result" where
  "perms_set_cmd env ps who where' args =
     (case strchr args (CHR '' '') of
        None \<Rightarrow> (ps, Inr [Msgva where' (sender_nick who @ '': Invalid usage of command!'')])
      | Some i \<Rightarrow>
          (let t = drop (i + 1) args; perm_level = atoi (take i args) in
           if permission_level who \<ge> PERMS_OP \<and> perm_level < permission_level who then
             (case permissions_set (realloc_works env) (strdup_works env) ps t perm_level of
                (ps, Inl f) \<Rightarrow> (ps, Inl f)
              | (ps, Inr _) \<Rightarrow>
                  (ps, Inr [Msgva where' (sender_nick who @ '': Set permission level for '' @ t @ '' to '' @
                     int_digits perm_level @ ''!'')]))
           else
             (ps, Inr [Msgva where' (sender_nick who @ '': You lack sufficient permission to give '' @ t @
                '' permission level '' @ int_digits perm_level @ ''.'')])))"

definition perms_get_cmd :: "perm_state \<Rightarrow> command_sender \<Rightarrow> string \<Rightarrow> string \<Rightarrow> perm_state \<times> handler_result" where
  "perms_get_cmd ps who where' args =
     (if length args > 0 \<and> permission_level who \<ge> PERMS_HOP then
        (case permissions_get ps (Some args) of
           (ps, Inl f) \<Rightarrow> (ps, Inl f)
         | (ps, Inr perm_level) \<Rightarrow>
             (ps, Inr [Msgva where' (sender_nick who @ '': '' @ args @ '' has permission level '' @ int_digits perm_level)]))
      else
        (ps, Inr [Msgva where' (sender_nick who @ '': you have permission level '' @ int_digits (permission_level who))]))"

definition perms_handle_cmd ::
    "run_env \<Rightarrow> perm_state \<Rightarrow> string \<Rightarrow> command_sender \<Rightarrow> string \<Rightarrow> string \<Rightarrow> perm_state \<times> handler_result" where
  "perms_handle_cmd env ps cmdname who where' args =
     (if first_char cmdname = CHR ''s'' then perms_set_cmd env ps who where' args
      else if first_char cmdname = CHR ''g'' then perms_get_cmd ps who where' args
      else (ps, Inr []))"

definition perms_cmds :: "(string \<times> bot_handler) list" where
  "perms_cmds = [(''setp'', Perms_cmd), (''getp'', Perms_cmd)]"

subsection \<open>bot_admin\<close>

definition handle_reload :: "command_sender \<Rightarrow> string \<Rightarrow> handler_result" where
  "handle_reload who where' =
     (if permission_level who < PERMS_OWNER then Inr [insufficient where' who]
      else Inr [Msg where' ''Oops, not 100% implemented yet.'', Raise_usr1])"

definition admin_handle_cmd :: "string \<Rightarrow> command_sender \<Rightarrow> string \<Rightarrow> string \<Rightarrow> handler_result" where
  "admin_handle_cmd cmdname who where' args =
     (if permission_level who < PERMS_ADMIN then Inr [insufficient where' who]
      else if first_char cmdname = CHR ''j'' then Inr [Join args]
      else if first_char cmdname = CHR ''p'' then Inr [Part args ''You're gonna miss me when I'm gone!'']
      else Inr [])"

definition handle_raw :: "command_sender \<Rightarrow> string \<Rightarrow> string \<Rightarrow> handler_result" where
  "handle_raw who where' args =
     (if permission_level who < PERMS_OWNER then Inr [insufficient where' who] else Inr [Raw args])"

definition admin_cmds :: "(string \<times> bot_handler) list" where
  "admin_cmds = [(''reload'', Admin_reload), (''join'', Admin_cmd), (''part'', Admin_cmd), (''raw'', Admin_raw)]"

subsection \<open>bot_chanop\<close>

text \<open>The mode text is put together in \<open>cmd_buf\<close>.\<close>

definition mode_text :: "char list \<Rightarrow> char \<Rightarrow> string \<Rightarrow> fault + string" where
  "mode_text cmd_buf flag args =
     and_then (arr_write cmd_buf 0 (CHR ''+''))
       (\<lambda>cmd_buf. and_then (arr_write cmd_buf 1 flag)
          (\<lambda>cmd_buf. and_then (arr_write cmd_buf 2 (CHR '' ''))
             (\<lambda>cmd_buf. and_then (arr_blit cmd_buf 3 (args @ [NUL]))
                (\<lambda>cmd_buf. c_string_at cmd_buf 0))))"

text \<open>The two \<open>switch\<close> statements, before and behind the second check.\<close>

definition chanop_hop :: "run_env \<Rightarrow> string \<Rightarrow> string \<Rightarrow> string \<Rightarrow> handler_result" where
  "chanop_hop env cmdname where' args =
     (if first_char cmdname = CHR ''k'' then
        (case strchr args (CHR '' '') of
           Some p \<Rightarrow> Inr [Kick where' (take p args) (Some (drop (p + 1) args))]
         | None \<Rightarrow> Inr [Kick where' args None])
      else if first_char cmdname = CHR ''v'' then
        and_then (mode_text (stack_cells env) (CHR ''v'') args) (\<lambda>m. Inr [Chmode where' m])
      else Inr [])"

definition chanop_op :: "run_env \<Rightarrow> string \<Rightarrow> string \<Rightarrow> string \<Rightarrow> handler_result" where
  "chanop_op env cmdname where' args =
     (if first_char cmdname = CHR ''m'' then Inr [Chmode where' args]
      else if first_char cmdname = CHR ''b'' then
        and_then (mode_text (stack_cells env) (CHR ''b'') args)
          (\<lambda>m. Inr [Chmode where' m, Raw_va (''REMOVE '' @ where' @ '' '' @ args @ '' :Banned.'' @ crlf)])
      else if first_char cmdname = CHR ''o'' then
        and_then (mode_text (stack_cells env) (CHR ''o'') args) (\<lambda>m. Inr [Chmode where' m])
      else Inr [])"

definition chanop_handle_cmd :: "run_env \<Rightarrow> string \<Rightarrow> command_sender \<Rightarrow> string \<Rightarrow> string \<Rightarrow> handler_result" where
  "chanop_handle_cmd env cmdname who where' args =
     (if permission_level who < PERMS_HOP then Inr [insufficient where' who]
      else
        and_then (chanop_hop env cmdname where' args)
          (\<lambda>calls.
             if permission_level who < PERMS_OP then Inr (calls @ [insufficient where' who])
             else and_then (chanop_op env cmdname where' args) (\<lambda>calls'. Inr (calls @ calls'))))"

definition chanop_cmds :: "(string \<times> bot_handler) list" where
  "chanop_cmds = [(''mode'', Chanop_cmd), (''ban'', Chanop_cmd), (''kick'', Chanop_cmd), (''op'', Chanop_cmd),
     (''voice'', Chanop_cmd)]"

subsection \<open>Loading\<close>

definition perms_init :: "nat \<Rightarrow> bot_handler command_tree \<Rightarrow> bot_handler command_tree \<times> int" where
  "perms_init mem t = register_list (modules_register_cmd mem) t perms_cmds"

definition perms_cleanup :: "bot_handler command_tree \<Rightarrow> bot_handler command_tree" where
  "perms_cleanup t = unregister_list modules_unregister_cmd t [''setp'', ''getp'']"

definition admin_init :: "nat \<Rightarrow> bot_handler command_tree \<Rightarrow> bot_handler command_tree \<times> int" where
  "admin_init mem t = register_list (modules_register_cmd mem) t admin_cmds"

definition admin_cleanup :: "bot_handler command_tree \<Rightarrow> bot_handler command_tree" where
  "admin_cleanup t = unregister_list modules_unregister_cmd t [''reload'', ''join'', ''part'', ''raw'']"

definition chanop_init :: "nat \<Rightarrow> bot_handler command_tree \<Rightarrow> bot_handler command_tree \<times> int" where
  "chanop_init mem t = register_list (modules_register_cmd mem) t chanop_cmds"

definition chanop_cleanup :: "bot_handler command_tree \<Rightarrow> bot_handler command_tree" where
  "chanop_cleanup t = unregister_list modules_unregister_cmd t [''mode'', ''ban'', ''kick'', ''op'', ''voice'']"

section \<open>The mode text\<close>

lemma three_cells: "3 \<le> length buf \<Longrightarrow> \<exists>a b c rest. buf = a # b # c # rest"
  by (auto simp: numeral_3_eq_3 Suc_le_length_iff)

lemma mode_text_ok:
  assumes "length buf = 513" and "c_str args" and "flag \<noteq> NUL"
  shows "mode_text buf flag args =
    (if length args \<le> 509 then Inr (CHR ''+'' # flag # CHR '' '' # args) else Inl Out_Of_Bounds)"
proof -
  obtain a b c rest where buf: "buf = a # b # c # rest"
    using three_cells [of buf] assms(1) by auto
  with assms(1) have rest: "length rest = 510" by simp
  show ?thesis
  proof (cases "length args \<le> 509")
    case True
    then have "arr_blit (CHR ''+'' # flag # CHR '' '' # rest) 3 (args @ [NUL]) =
        Inr ((CHR ''+'' # flag # CHR '' '' # args) @ NUL # drop (length args + 1) rest)"
      using buf rest by (simp add: arr_blit_def numeral_3_eq_3)
    moreover have "c_str (CHR ''+'' # flag # CHR '' '' # args)" using assms by simp
    ultimately show ?thesis
      using True buf c_string_at_0 [of "CHR ''+'' # flag # CHR '' '' # args" "drop (length args + 1) rest"]
      by (simp add: mode_text_def numeral_2_eq_2)
  next
    case False
    then have "arr_blit (CHR ''+'' # flag # CHR '' '' # rest) 3 (args @ [NUL]) = Inl Out_Of_Bounds"
      using buf rest by (simp add: arr_blit_def)
    with False buf show ?thesis by (simp add: mode_text_def numeral_2_eq_2)
  qed
qed

lemma mode_text_starts:
  assumes "mode_text buf flag args = Inr m" and "flag \<noteq> NUL"
  shows "take 3 m = [CHR ''+'', flag, CHR '' '']"
proof -
  from assms(1) have len: "3 < length buf"
    by (auto simp: mode_text_def and_then_Inr_iff arr_write_def arr_blit_def split: if_splits)
  then obtain a b c rest where "buf = a # b # c # rest"
    using three_cells [of buf] by auto
  with assms obtain tail where "c_string_at (CHR ''+'' # flag # CHR '' '' # tail) 0 = Inr m"
    by (auto simp: mode_text_def and_then_Inr_iff arr_blit_def numeral_2_eq_2 numeral_3_eq_3 split: if_splits)
  then show ?thesis using assms(2) by (auto simp: c_string_at_def numeral_3_eq_3 split: if_splits)
qed

lemma mode_text_voice: "mode_text buf (CHR ''v'') args = Inr m \<Longrightarrow> strncmp_eq m ''+v ''"
  using mode_text_starts [of buf "CHR ''v''" args m] by (simp add: strncmp_eq_def numeral_3_eq_3)

lemma takeWhile_NUL: "set (takeWhile (\<lambda>c. c \<noteq> NUL) (s @ NUL # rest)) \<subseteq> set s"
  by (induction s) auto

lemma mode_text_clean:
  assumes "mode_text buf flag args = Inr m" and "length buf = 513" and "clean args" and "flag \<notin> {NUL, CR, LF}"
  shows "clean m"
proof -
  obtain a b c rest where buf: "buf = a # b # c # rest"
    using three_cells [of buf] assms(2) by auto
  with assms have "c_string_at (CHR ''+'' # flag # CHR '' '' # args @ NUL # drop (length args + 1) rest) 0 = Inr m"
    by (auto simp: mode_text_def and_then_Inr_iff arr_blit_def numeral_2_eq_2 numeral_3_eq_3 split: if_splits)
  then have "m = takeWhile (\<lambda>c. c \<noteq> NUL) (CHR ''+'' # flag # CHR '' '' # args @ NUL # drop (length args + 1) rest)"
    by (simp add: c_string_at_def split: if_splits)
  with takeWhile_NUL [of "CHR ''+'' # flag # CHR '' '' # args" "drop (length args + 1) rest"]
  have "set m \<subseteq> set (CHR ''+'' # flag # CHR '' '' # args)" by simp
  with assms(3,4) show ?thesis by (auto simp: clean_def)
qed

section \<open>The contract\<close>

lemma strchr_clean: "clean args \<Longrightarrow> clean (take i args) \<and> clean (drop j args)"
  by (simp add: clean_take clean_drop)

interpretation reload: line_handler "\<lambda>ps who. (ps, handle_reload who where')" "clean where'" for where'
  by unfold_locales (auto simp: handle_reload_def insufficient_def split: if_splits)

interpretation admin: line_handler "\<lambda>ps who. (ps, admin_handle_cmd cmdname who where' args)" "clean where' \<and> clean args"
  for cmdname where' args
  by unfold_locales (auto simp: admin_handle_cmd_def insufficient_def split: if_splits)

interpretation raw: line_handler "\<lambda>ps who. (ps, handle_raw who where' args)" "clean where' \<and> clean args"
  for where' args
  by unfold_locales (auto simp: handle_raw_def insufficient_def split: if_splits)

interpretation perms: line_handler "\<lambda>ps who. perms_handle_cmd env ps cmdname who where' args" "clean where' \<and> clean args"
  for env cmdname where' args
proof (unfold_locales, goal_cases)
  case (1 ps who ps' calls c)
  then show ?case
    by (auto simp: perms_handle_cmd_def perms_set_cmd_def perms_get_cmd_def Let_def
        split: if_splits option.splits prod.splits sum.splits)
next
  case (2 who ps)
  then show ?case
    by (auto simp: perms_handle_cmd_def perms_set_cmd_def perms_get_cmd_def Let_def perms_defs
        split: if_splits option.splits prod.splits sum.splits)
next
  case (3 who ps)
  then show ?case
    by (auto simp: perms_handle_cmd_def perms_set_cmd_def perms_get_cmd_def Let_def perms_defs permissions_get_def
        split: if_splits option.splits prod.splits sum.splits)
next
  case (4 who ps ps' calls c)
  then show ?case
    by (auto simp: perms_handle_cmd_def perms_set_cmd_def perms_get_cmd_def Let_def clean_drop
        split: if_splits option.splits prod.splits sum.splits)
qed

lemma chanop_hop_calls:
  assumes "chanop_hop env cmdname where' args = Inr calls" and "c \<in> set calls" and "PERMS_HOP \<le> level"
  shows "permitted level c"
  using assms by (auto simp: chanop_hop_def and_then_Inr_iff dest: mode_text_voice
      split: if_splits option.splits)

lemma chanop_op_calls:
  assumes "chanop_op env cmdname where' args = Inr calls" and "c \<in> set calls" and "PERMS_OP \<le> level"
  shows "permitted level c"
  using assms by (auto simp: chanop_op_def and_then_Inr_iff perms_defs split: if_splits)

lemma chanop_single_line:
  assumes "clean_call env where' args"
  shows "chanop_hop env cmdname where' args = Inr calls \<Longrightarrow> c \<in> set calls \<Longrightarrow> single_line c"
    and "chanop_op env cmdname where' args = Inr calls \<Longrightarrow> c \<in> set calls \<Longrightarrow> single_line c"
proof -
  have w: "clean where'" "clean args" "length (stack_cells env) = 513" using assms by (auto simp: clean_call_def libraries_clean_def)
  show "chanop_hop env cmdname where' args = Inr calls \<Longrightarrow> c \<in> set calls \<Longrightarrow> single_line c"
    using w by (auto simp: chanop_hop_def and_then_Inr_iff clean_drop clean_take dest!: mode_text_clean
        split: if_splits option.splits)
  have "single_line (Raw_va (''REMOVE '' @ where' @ '' '' @ args @ '' :Banned.'' @ crlf))"
    using single_line_raw_va [of "''REMOVE '' @ where' @ '' '' @ args @ '' :Banned.''"] w by simp
  then show "chanop_op env cmdname where' args = Inr calls \<Longrightarrow> c \<in> set calls \<Longrightarrow> single_line c"
    using w by (auto simp: chanop_op_def and_then_Inr_iff dest!: mode_text_clean split: if_splits)
qed

lemma clean_call_where: "clean_call env where' args \<Longrightarrow> clean where'"
  by (simp add: clean_call_def libraries_clean_def)

interpretation chanop: line_handler "\<lambda>ps who. (ps, chanop_handle_cmd env cmdname who where' args)"
    "clean_call env where' args" for env cmdname where' args
proof (unfold_locales, goal_cases)
  case (1 ps who ps' calls c)
  then show ?case
    by (auto simp: chanop_handle_cmd_def and_then_Inr_iff insufficient_def not_less
        intro: chanop_hop_calls chanop_op_calls split: if_splits)
next
  case (4 who ps ps' calls c)
  then show ?case
    by (auto simp: chanop_handle_cmd_def and_then_Inr_iff insufficient_def clean_call_where
        intro: chanop_single_line split: if_splits)
qed simp_all

section \<open>What setp does to the levels\<close>

lemma first_level_bound:
  assumes "\<forall>k. stored_level m' k = stored_level m k \<or> stored_level m' k = l" and "l \<noteq> 0"
  shows "first_level m' ks = first_level m ks \<or> first_level m' ks = l"
  using assms by (induction ks) (metis first_level_simps)+

lemma first_level_without:
  assumes "\<forall>k. stored_level m' k = (if k = h then 0 else stored_level m k)"
  shows "first_level m' ks = first_level m (filter (\<lambda>k. k \<noteq> h) ks)"
  using assms by (induction ks) auto

lemma perms_set_cmd_ok:
  assumes ok: "perm_ok ps" and env: "realloc_works env" "strdup_works env"
    and put: "put_room (perm_map ps) host"
    and room: "stored_level (perm_map ps) host \<noteq> 0 \<longrightarrow> remove_room (perm_map ps) host"
    and num: "CHR '' '' \<notin> set num" and level: "PERMS_OP \<le> permission_level who" "atoi num < permission_level who"
  shows "\<exists>ps'. perms_handle_cmd env ps (CHR ''s'' # name) who where' (num @ '' '' @ host) =
      (ps', Inr [Msgva where' (sender_nick who @ '': Set permission level for '' @ host @ '' to '' @
         int_digits (atoi num) @ ''!'')]) \<and> perm_ok ps' \<and>
    hashmap_vals (perm_map ps') = (hashmap_vals (perm_map ps))(host :=
      (if stored_level (perm_map ps) host = 0 then hashmap_vals (perm_map ps) host else []) @ [atoi num])"
proof -
  from permissions_set_ok [OF ok put room, of "atoi num"] obtain ps' where
    "permissions_set True True ps host (atoi num) = (ps', Inr ())" "perm_ok ps'"
    "hashmap_vals (perm_map ps') = (hashmap_vals (perm_map ps))(host :=
      (if stored_level (perm_map ps) host = 0 then hashmap_vals (perm_map ps) host else []) @ [atoi num])" by blast
  with env level strchr_append [OF num, of host] show ?thesis
    by (simp add: perms_handle_cmd_def perms_set_cmd_def Let_def)
qed

section \<open>Properties\<close>

text \<open>
  C9: Nobody can be promoted to the level of the sender of \<open>setp\<close> or past it. Whoever sends \<open>setp\<close> with a
  non-zero level, whatever the level and the host, afterwards every host of the network has its old
  level or one below the sender's, patterns included. An operator who asks for less than his own
  level gives the host exactly that level, unless an older entry of level 0 hides it; everybody
  else changes nothing.
\<close>

theorem setp_bounded_by_own_level:
  assumes "perm_ok ps" and "realloc_works env" "strdup_works env"
    and "put_room (perm_map ps) host"
    and "stored_level (perm_map ps) host \<noteq> 0 \<longrightarrow> remove_room (perm_map ps) host"
    and "CHR '' '' \<notin> set num" and "atoi num \<noteq> 0"
  shows "\<exists>ps' calls. perms_handle_cmd env ps (CHR ''s'' # name) who where' (num @ '' '' @ host) = (ps', Inr calls) \<and>
    perm_ok ps' \<and>
    (\<forall>h. level_of (perm_map ps') h = level_of (perm_map ps) h \<or> level_of (perm_map ps') h < permission_level who) \<and>
    (if PERMS_OP \<le> permission_level who \<and> atoi num < permission_level who
     then hashmap_vals (perm_map ps) host = [] \<or> stored_level (perm_map ps) host \<noteq> 0 \<longrightarrow> level_of (perm_map ps') host = atoi num
     else ps' = ps)"
proof (cases "PERMS_OP \<le> permission_level who \<and> atoi num < permission_level who")
  case True
  with perms_set_cmd_ok [OF assms(1-6), of who name where'] obtain ps' where
    run: "perms_handle_cmd env ps (CHR ''s'' # name) who where' (num @ '' '' @ host) =
      (ps', Inr [Msgva where' (sender_nick who @ '': Set permission level for '' @ host @ '' to '' @
         int_digits (atoi num) @ ''!'')])" "perm_ok ps'"
    and vals: "hashmap_vals (perm_map ps') = (hashmap_vals (perm_map ps))(host :=
      (if stored_level (perm_map ps) host = 0 then hashmap_vals (perm_map ps) host else []) @ [atoi num])" by blast
  note stored = stored_level_set [OF vals]
  then have "level_of (perm_map ps') h = level_of (perm_map ps) h \<or> level_of (perm_map ps') h = atoi num" for h
    unfolding level_of_def using assms(7) by (intro first_level_bound) auto
  then have "level_of (perm_map ps') h = level_of (perm_map ps) h \<or> level_of (perm_map ps') h < permission_level who" for h
    using True by metis
  moreover have "level_of (perm_map ps') host = atoi num"
    if "hashmap_vals (perm_map ps) host = [] \<or> stored_level (perm_map ps) host \<noteq> 0"
    using that stored assms(7) by (simp add: level_of_def candidates_def)
  ultimately show ?thesis using run True by auto
next
  case False
  then show ?thesis using strchr_append [OF assms(6), of host] assms(1)
    by (auto simp: perms_handle_cmd_def perms_set_cmd_def Let_def)
qed

theorem setp_bounded_by_own_level_witness:
  "\<exists>ps env who ps' calls. permission_level who = 40000 \<and> level_of (perm_map ps) ''op.net'' = 6000 \<and>
    perms_handle_cmd env ps ''setp'' who ''#c'' ''25000 op.net'' = (ps', Inr calls) \<and>
    level_of (perm_map ps') ''op.net'' = 25000"
proof -
  obtain m where m: "put_room m ''op.net''" "remove_room m ''op.net''" "hashmap_vals m = (\<lambda>_. [])(''op.net'' := [6000])"
      "perm_ok (perm_state_of m)"
    using one_entry [of "''op.net''" 6000] by blast
  let ?env = "(quiet_env [])"
  let ?who = "\<lparr>sender_nick = ''boss'', sender_ident = None, sender_host = None, permission_level = 40000\<rparr>"
  have num: "atoi ''25000'' = 25000" by (simp add: atoi_def long_to_int_def is_space_def is_digit_def digit_val_def)
  have old: "level_of m ''op.net'' = 6000" by (simp add: level_of_def candidates_def stored_level_def m(3))
  from setp_bounded_by_own_level [of "perm_state_of m" ?env "''op.net''" "''25000''" "''etp''" ?who "''#c''"] m num
  obtain ps' calls where "perms_handle_cmd ?env (perm_state_of m) ''setp'' ?who ''#c'' ''25000 op.net'' = (ps', Inr calls)"
    "level_of (perm_map ps') ''op.net'' = 25000"
    by (auto simp: perm_state_of_def perms_defs stored_level_def)
  with old show ?thesis
    by (intro exI [of _ "perm_state_of m"] exI [of _ ?env] exI [of _ ?who] exI [of _ ps'] exI [of _ calls])
      (simp add: perm_state_of_def)
qed

text \<open>
  C35: Level 0 is the exception: an operator who stores 0 for a host removes its entry from the lookup, and
  the host falls back to the next more general pattern, whatever its level is. So an operator can
  lift a host that was held down on purpose to a level above his own.
\<close>

theorem setp_zero_uncovers_pattern:
  assumes "perm_ok ps" and "realloc_works env" "strdup_works env"
    and "put_room (perm_map ps) host" and "remove_room (perm_map ps) host"
    and "stored_level (perm_map ps) host \<noteq> 0"
    and "PERMS_OP \<le> permission_level who"
  shows "\<exists>ps' calls. perms_handle_cmd env ps (CHR ''s'' # name) who where' (''0 '' @ host) = (ps', Inr calls) \<and>
    perm_ok ps' \<and> level_of (perm_map ps') host = first_level (perm_map ps) (filter (\<lambda>k. k \<noteq> host) (candidates host))"
proof -
  have zero: "atoi ''0'' = 0" by (simp add: atoi_def long_to_int_def is_space_def is_digit_def digit_val_def)
  have low: "atoi ''0'' < permission_level who" using zero assms(7) by (simp add: perms_defs)
  have num: "CHR '' '' \<notin> set ''0''" by simp
  have room: "stored_level (perm_map ps) host \<noteq> 0 \<longrightarrow> remove_room (perm_map ps) host" using assms(5) by simp
  from perms_set_cmd_ok [OF assms(1-4) room num assms(7) low, of name where'] obtain ps' where
    run: "perms_handle_cmd env ps (CHR ''s'' # name) who where' (''0'' @ '' '' @ host) =
      (ps', Inr [Msgva where' (sender_nick who @ '': Set permission level for '' @ host @ '' to '' @
         int_digits (atoi ''0'') @ ''!'')])" "perm_ok ps'"
    and vals: "hashmap_vals (perm_map ps') = (hashmap_vals (perm_map ps))(host :=
      (if stored_level (perm_map ps) host = 0 then hashmap_vals (perm_map ps) host else []) @ [atoi ''0''])" by blast
  have "\<forall>k. stored_level (perm_map ps') k = (if k = host then 0 else stored_level (perm_map ps) k)"
    using stored_level_set [OF vals] assms(6) zero by simp
  then have "level_of (perm_map ps') host = first_level (perm_map ps) (filter (\<lambda>k. k \<noteq> host) (candidates host))"
    unfolding level_of_def by (rule first_level_without)
  with run show ?thesis by auto
qed

theorem setp_zero_uncovers_pattern_witness:
  "\<exists>ps env who ps' calls. permission_level who = 40000 \<and> level_of (perm_map ps) ''ab'' = 1 \<and>
    perms_handle_cmd env ps ''setp'' who ''#c'' ''0 ab'' = (ps', Inr calls) \<and>
    level_of (perm_map ps') ''ab'' = 50000"
proof -
  have "byte_of (CHR ''*'') \<noteq> byte_of (CHR ''b'')" by (simp add: byte_of_def)
  from crc8_block_one_byte [OF this, of "[byte_of (CHR ''a'')]" "[]"]
  have "crc8_key ''a*'' \<noteq> crc8_key ''ab''" by (auto simp: crc8_key_def dest: unsigned_word_eqI)
  from two_entries [OF this, of 50000 1] obtain m where
    m: "hashmap_vals m = (\<lambda>_. [])(''a*'' := [50000], ''ab'' := [1])" "put_room m ''ab''" "remove_room m ''ab''"
      "perm_ok (perm_state_of m)" by blast
  let ?env = "(quiet_env [])"
  let ?who = "\<lparr>sender_nick = ''op'', sender_ident = None, sender_host = None, permission_level = 40000\<rparr>"
  have old: "level_of m ''ab'' = 1" by (simp add: level_of_def candidates_def stored_level_def m(1))
  have new: "first_level m (filter (\<lambda>k. k \<noteq> ''ab'') (candidates ''ab'')) = 50000"
    by (simp add: candidates_def star_def stored_level_def m(1) upt_rec numeral_2_eq_2)
  from setp_zero_uncovers_pattern [of "perm_state_of m" ?env "''ab''" ?who "''etp''" "''#c''"] m new
  obtain ps' calls where "perms_handle_cmd ?env (perm_state_of m) ''setp'' ?who ''#c'' ''0 ab'' = (ps', Inr calls)"
    "level_of (perm_map ps') ''ab'' = 50000"
    by (auto simp: perm_state_of_def perms_defs stored_level_def)
  with old show ?thesis
    by (intro exI [of _ "perm_state_of m"] exI [of _ ?env] exI [of _ ?who] exI [of _ ps'] exI [of _ calls])
      (simp add: perm_state_of_def)
qed

text \<open>
  C34: What the channel commands send for an operator: \<open>voice\<close>, \<open>op\<close> and \<open>ban\<close> put their flag and their whole
  argument in the mode array when the argument has at most 509 bytes and leave the array at the
  first byte more; \<open>mode\<close> passes its argument on and \<open>kick\<close> splits its own at the first space.
\<close>

theorem chanop_commands_for_operator:
  assumes "PERMS_OP \<le> permission_level who" and "length (stack_cells env) = 513" and "c_str args"
    and "CHR '' '' \<notin> set nick"
  shows "chanop_handle_cmd env ''voice'' who where' args =
      (if length args \<le> 509 then Inr [Chmode where' (''+v '' @ args)] else Inl Out_Of_Bounds) \<and>
    chanop_handle_cmd env ''op'' who where' args =
      (if length args \<le> 509 then Inr [Chmode where' (''+o '' @ args)] else Inl Out_Of_Bounds) \<and>
    chanop_handle_cmd env ''ban'' who where' args =
      (if length args \<le> 509 then Inr [Chmode where' (''+b '' @ args), Raw_va (''REMOVE '' @ where' @ '' '' @ args @ '' :Banned.'' @ crlf)]
       else Inl Out_Of_Bounds) \<and>
    chanop_handle_cmd env ''mode'' who where' args = Inr [Chmode where' args] \<and>
    chanop_handle_cmd env ''kick'' who where' (nick @ '' '' @ reason) = Inr [Kick where' nick (Some reason)] \<and>
    chanop_handle_cmd env ''kick'' who where' nick = Inr [Kick where' nick None]"
proof -
  have level: "\<not> permission_level who < PERMS_OP" "\<not> permission_level who < PERMS_HOP"
    using assms(1) by (auto simp: perms_defs)
  have "strchr (nick @ '' '' @ reason) (CHR '' '') = Some (length nick)" "strchr nick (CHR '' '') = None"
    using assms(4) strchr_append [OF assms(4), of reason] by (simp_all add: strchr_None)
  then show ?thesis
    using level mode_text_ok [OF assms(2,3)]
    by (simp add: chanop_handle_cmd_def chanop_hop_def chanop_op_def)
qed

theorem chanop_commands_for_operator_witness:
  "\<exists>env who. permission_level who = 40000 \<and>
    chanop_handle_cmd env ''voice'' who ''#c'' ''joe'' = Inr [Chmode ''#c'' ''+v joe''] \<and>
    chanop_handle_cmd env ''kick'' who ''#c'' ''joe be nice'' = Inr [Kick ''#c'' ''joe'' (Some ''be nice'')]"
proof -
  let ?env = "(quiet_env (replicate 513 NUL))"
  let ?who = "\<lparr>sender_nick = ''op'', sender_ident = None, sender_host = None, permission_level = 40000\<rparr>"
  have "chanop_handle_cmd ?env ''voice'' ?who ''#c'' ''joe'' = Inr [Chmode ''#c'' ''+v joe''] \<and>
    chanop_handle_cmd ?env ''kick'' ?who ''#c'' ''joe be nice'' = Inr [Kick ''#c'' ''joe'' (Some ''be nice'')]"
    using chanop_commands_for_operator [of ?who ?env "''joe''" "''joe''" "''#c''" "''be nice''"]
    by (simp add: perms_defs)
  then show ?thesis by (intro exI [of _ ?env] exI [of _ ?who]) simp
qed

text \<open>
  A half-operator may voice and kick, but is told each time, behind the effect, that his
  permissions are insufficient, and nothing else happens for the commands of operators.
\<close>

lemma chanop_commands_for_half_operator:
  assumes "PERMS_HOP \<le> permission_level who" and "permission_level who < PERMS_OP"
    and "length (stack_cells env) = 513" and "c_str args" and "length args \<le> 509" and "CHR '' '' \<notin> set nick"
  shows "chanop_handle_cmd env ''voice'' who where' args =
      Inr [Chmode where' (''+v '' @ args), Msgva where' (sender_nick who @ '': Insufficient permissions'')] \<and>
    chanop_handle_cmd env ''kick'' who where' (nick @ '' '' @ reason) =
      Inr [Kick where' nick (Some reason), Msgva where' (sender_nick who @ '': Insufficient permissions'')] \<and>
    (\<forall>name \<in> {''mode'', ''ban'', ''op''}. chanop_handle_cmd env name who where' args =
      Inr [Msgva where' (sender_nick who @ '': Insufficient permissions'')])"
proof -
  have "strchr (nick @ '' '' @ reason) (CHR '' '') = Some (length nick)"
    using strchr_append [OF assms(6), of reason] by simp
  then show ?thesis
    using assms mode_text_ok [OF assms(3,4)]
    by (simp add: chanop_handle_cmd_def chanop_hop_def insufficient_def)
qed

text \<open>
  Commands are looked up without regard to case, but these three handlers look at the first
  character as it was typed: for a name typed with a capital nothing is done and nothing is said,
  even for the owner.
\<close>

lemma capital_commands_do_nothing:
  assumes "PERMS_OWNER \<le> permission_level who" and "first_char cmdname \<notin> set ''abcdefghijklmnopqrstuvwxyz''"
  shows "perms_handle_cmd env ps cmdname who where' args = (ps, Inr []) \<and>
    admin_handle_cmd cmdname who where' args = Inr [] \<and>
    chanop_handle_cmd env cmdname who where' args = Inr []"
  using assms by (auto simp: perms_handle_cmd_def admin_handle_cmd_def chanop_handle_cmd_def chanop_hop_def
      chanop_op_def perms_defs)

end
