(* ===== verification/Web_Fetch.thy ===== *)
theory Web_Fetch
  imports Libraries
begin

text \<open>
  \<^verbatim>\<open>src/modules/mod_common.c\<close>: the callback \<open>buffer_append\<close> that collects a response in a growing
  block of memory, and \<open>send_http_request\<close>. libcurl is not part of the sources: what it delivers for a URL (the chunks
  it hands to the callback and whether the transfer was fine) and how it escapes a text are arguments.
  A response is shown to arrive as the concatenation of its chunks, ended by a NUL.
\<close>

section \<open>Definitions of the source\<close>

text \<open>\<open>struct buffer\<close>; no cells stand for a null pointer.\<close>

record buffer =
  buf_memory :: "char list"
  buf_size :: nat

text \<open>\<open>size * nmemb\<close> is the length of the chunk. \<open>realloc\<close> keeps the old cells.\<close>

definition buffer_append :: "web_env \<Rightarrow> string \<Rightarrow> buffer \<Rightarrow> fault + buffer \<times> nat" where
  "buffer_append env contents mem =
     (let realsize = length contents; total = buf_size mem + realsize + 1 in
      if \<not> web_realloc env total then Inr (mem, 0)
      else
        (let ptr = take total (buf_memory mem @ drop (length (buf_memory mem)) (web_fresh env total)) in
         and_then (arr_blit ptr (int (buf_size mem)) contents)
           (\<lambda>m. and_then (arr_write m (int (buf_size mem + realsize)) NUL)
              (\<lambda>m. Inr (\<lparr>buf_memory = m, buf_size = buf_size mem + realsize\<rparr>, realsize)))))"

text \<open>
  The calls of the callback during \<open>curl_easy_perform\<close>. A result other than the length of the chunk makes libcurl give up the
  transfer; the second component says whether it came to its end.
\<close>

fun append_chunks :: "web_env \<Rightarrow> string list \<Rightarrow> buffer \<Rightarrow> fault + buffer \<times> bool" where
  "append_chunks env [] mem = Inr (mem, True)"
| "append_chunks env (c # cs) mem =
     and_then (buffer_append env c mem) (\<lambda>(mem, n). if n \<noteq> length c then Inr (mem, False) else append_chunks env cs mem)"

text \<open>\<open>None\<close> is a result other than \<open>CURLE_OK\<close>, where the memory has been freed.\<close>

definition send_http_request :: "web_env \<Rightarrow> string \<Rightarrow> fault + buffer option" where
  "send_http_request env url =
     (let buf = \<lparr>buf_memory = (if web_malloc env then web_fresh env 1 else []), buf_size = 0\<rparr>; (chunks, ok) = curl_get env url in
      and_then (append_chunks env chunks buf) (\<lambda>(buf, taken). Inr (if ok \<and> taken then Some buf else None)))"

section \<open>Responses\<close>

lemma buffer_append_ok:
  assumes "\<forall>n. length (web_fresh env n) = n" and "web_realloc env (length body + length c + 1)"
    and "buf_memory mem = body @ junk" and "buf_size mem = length body" and "length junk \<le> 1"
  shows "buffer_append env c mem = Inr (\<lparr>buf_memory = (body @ c) @ [NUL], buf_size = length (body @ c)\<rparr>, length c)"
proof -
  let ?total = "length body + length c + 1"
  let ?ptr = "take ?total (body @ junk @ drop (length (body @ junk)) (web_fresh env ?total))"
  obtain tail where ptr: "?ptr = body @ tail" and len: "length tail = length c + 1"
    using assms(1,5) by (intro that [of "take (length c + 1) (junk @ drop (length (body @ junk)) (web_fresh env ?total))"]) auto
  have "length (drop (length c) tail) = Suc 0" using len by simp
  then obtain x where x: "drop (length c) tail = [x]" unfolding length_Suc_conv by auto
  have "arr_blit ?ptr (int (length body)) c = Inr (body @ c @ [x])"
    unfolding ptr using len x by (cases "c = []") (simp_all add: arr_blit_def)
  moreover have "arr_write (body @ c @ [x]) (int (length body + length c)) NUL = Inr ((body @ c) @ [NUL])"
    by (simp add: arr_write_def nat_add_distrib list_update_append)
  ultimately show ?thesis
    using assms(2) unfolding buffer_append_def Let_def assms(3,4) append_assoc [symmetric]
    by (simp only: append_assoc if_True not_True_eq_False if_False and_then.simps length_append simp_thms)
qed

lemma append_chunks_ok:
  assumes "web_memory_ok env" and "buf_memory mem = body @ junk" and "buf_size mem = length body" and "length junk \<le> 1"
    and "chunks \<noteq> []"
  shows "append_chunks env chunks mem =
    Inr (\<lparr>buf_memory = (body @ concat chunks) @ [NUL], buf_size = length (body @ concat chunks)\<rparr>, True)"
  using assms(2-5)
proof (induction chunks arbitrary: mem body junk)
  case (Cons c cs)
  have step: "buffer_append env c mem = Inr (\<lparr>buf_memory = (body @ c) @ [NUL], buf_size = length (body @ c)\<rparr>, length c)"
    using assms(1) Cons.prems by (intro buffer_append_ok) (auto simp: web_memory_ok_def)
  show ?case
  proof (cases cs)
    case Nil
    with step show ?thesis by simp
  next
    case (Cons c' cs')
    then have "append_chunks env cs \<lparr>buf_memory = (body @ c) @ [NUL], buf_size = length (body @ c)\<rparr> =
        Inr (\<lparr>buf_memory = ((body @ c) @ concat cs) @ [NUL], buf_size = length ((body @ c) @ concat cs)\<rparr>, True)"
      by (intro Cons.IH) auto
    with step show ?thesis by simp
  qed
qed simp

lemma send_http_request_ok:
  assumes "web_memory_ok env" and "curl_get env url = (chunks, True)" and "chunks \<noteq> []"
  shows "send_http_request env url = Inr (Some \<lparr>buf_memory = concat chunks @ [NUL], buf_size = length (concat chunks)\<rparr>)"
  using append_chunks_ok [of env "\<lparr>buf_memory = (if web_malloc env then web_fresh env 1 else []), buf_size = 0\<rparr>"
      "[]" "if web_malloc env then web_fresh env 1 else []" chunks] assms
  by (simp add: send_http_request_def web_memory_ok_def)

lemma send_http_request_fails:
  assumes "web_memory_ok env" and "curl_get env url = (chunks, False)"
  shows "send_http_request env url = Inr None"
proof (cases "chunks = []")
  case False
  with append_chunks_ok [of env "\<lparr>buf_memory = (if web_malloc env then web_fresh env 1 else []), buf_size = 0\<rparr>"
      "[]" "if web_malloc env then web_fresh env 1 else []" chunks] assms
  show ?thesis by (simp add: send_http_request_def web_memory_ok_def)
qed (use assms in \<open>simp add: send_http_request_def\<close>)

text \<open>
  Whatever fails, the bytes of a finished response come from the chunks: \<open>keeps\<close> says so of the first
  \<open>buf_size\<close> cells, and the cell behind them is a NUL once a chunk has been taken.
\<close>

definition response_ok :: "(char \<Rightarrow> bool) \<Rightarrow> buffer \<Rightarrow> bool" where
  "response_ok P buf \<longleftrightarrow>
     (\<exists>body junk. buf_memory buf = body @ junk \<and> buf_size buf = length body \<and> (\<forall>c \<in> set body. P c) \<and>
        (junk = [NUL] \<or> body = [] \<and> length junk \<le> 1))"

lemma buffer_append_response_ok:
  assumes "\<forall>n. length (web_fresh env n) = n" and "response_ok P buf" and "\<forall>x \<in> set c. P x"
  shows "\<exists>buf' n. buffer_append env c buf = Inr (buf', n) \<and> response_ok P buf'"
proof -
  obtain body junk where b: "buf_memory buf = body @ junk" "buf_size buf = length body" "\<forall>c \<in> set body. P c"
    "length junk \<le> 1" using assms(2) by (auto simp: response_ok_def)
  show ?thesis
  proof (cases "web_realloc env (length body + length c + 1)")
    case True
    have "response_ok P \<lparr>buf_memory = (body @ c) @ [NUL], buf_size = length (body @ c)\<rparr>"
      using b(3) assms(3) unfolding response_ok_def by (intro exI [of _ "body @ c"] exI [of _ "[NUL]"]) auto
    with buffer_append_ok [OF assms(1) True b(1,2,4)] show ?thesis by blast
  next
    case False
    with b(2) have "buffer_append env c buf = Inr (buf, 0)" by (simp add: buffer_append_def Let_def)
    with assms(2) show ?thesis by blast
  qed
qed

lemma append_chunks_response_ok:
  assumes "\<forall>n. length (web_fresh env n) = n"
  shows "response_ok P buf \<Longrightarrow> \<forall>c \<in> set chunks. \<forall>x \<in> set c. P x \<Longrightarrow>
    \<exists>buf' taken. append_chunks env chunks buf = Inr (buf', taken) \<and> response_ok P buf'"
proof (induction chunks arbitrary: buf)
  case (Cons c cs)
  from buffer_append_response_ok [OF assms Cons.prems(1), of c] Cons.prems(2) obtain buf' n where
    "buffer_append env c buf = Inr (buf', n)" "response_ok P buf'" by auto
  with Cons.IH [of buf'] Cons.prems(2) show ?case by auto
qed auto

lemma send_http_request_response_ok:
  assumes "\<forall>n. length (web_fresh env n) = n" and "\<forall>c \<in> set (fst (curl_get env url)). \<forall>x \<in> set c. P x"
  shows "\<exists>r. send_http_request env url = Inr r \<and> (\<forall>buf. r = Some buf \<longrightarrow> response_ok P buf)"
proof -
  let ?buf = "\<lparr>buf_memory = (if web_malloc env then web_fresh env 1 else []), buf_size = 0\<rparr>"
  have "response_ok P ?buf" using assms(1) by (simp add: response_ok_def)
  from append_chunks_response_ok [OF assms(1) this assms(2)] show ?thesis
    by (auto simp: send_http_request_def split: prod.splits)
qed

end
