(* ===== verification/Web_Text.thy ===== *)
theory Web_Text
  imports Bot_Prelude
begin

text \<open>
  The loop by which \<^verbatim>\<open>bot_urban.c\<close> and \<^verbatim>\<open>bot_google.c\<close> (the same text in both) copy a string literal out of a JSON
  answer into their array \<open>url\<close>, resolving escapes on the way. The model keeps the pointers \<open>curl_buf\<close> and \<open>last_idx\<close>
  as offsets into the answer and \<open>n\<close> as the length of what has been copied; pieces between escapes are copied
  with \<open>memcpy\<close>. The loop is shown to compute a function on lists, for every answer, and to read past the
  answer exactly where that function runs off its end.
\<close>

section \<open>Definitions of the source\<close>

definition N_MAX :: nat where "N_MAX = 400"

text \<open>\<open>memcpy\<close> between two arrays; nothing is read past the source.\<close>

definition mem_copy :: "char list \<Rightarrow> nat \<Rightarrow> char list \<Rightarrow> nat \<Rightarrow> nat \<Rightarrow> fault + char list" where
  "mem_copy dst pos src off len =
     (if off + len \<le> length src then arr_blit dst (int pos) (take len (drop off src)) else Inl Out_Of_Bounds)"

text \<open>\<open>last_idx\<close> never passes \<open>cur\<close>, so the differences are those of the pointers.\<close>

function unescape_loop ::
    "char list \<Rightarrow> char list \<Rightarrow> nat \<Rightarrow> nat \<Rightarrow> nat \<Rightarrow> fault + char list \<times> nat \<times> nat \<times> nat" where
  "unescape_loop mem url n last_idx cur =
     and_then (arr_read mem (int cur))
       (\<lambda>c.
          if c \<noteq> NUL \<and> c \<noteq> CHR 0x22 \<and> cur - last_idx + n < N_MAX then
            if c = CHR 0x5C then
              (let cur1 = cur + 1 in
               and_then (arr_read mem (int cur1))
                 (\<lambda>d.
                    if d = CHR 0x5C \<or> d = CHR 0x22 then
                      and_then (mem_copy url n mem last_idx (cur1 - last_idx - 1))
                        (\<lambda>url. let n = n + (cur1 - last_idx) in
                           and_then (arr_write url (int (n - 1)) d)
                             (\<lambda>url. and_then (arr_write url (int n) NUL)
                                (\<lambda>url. unescape_loop mem url n (cur1 + 1) (cur1 + 1))))
                    else if d = CHR ''r'' then
                      and_then (mem_copy url n mem last_idx (cur1 - last_idx - 1))
                        (\<lambda>url. let n = n + (cur1 - last_idx - 1) in
                           and_then (arr_write url (int n) NUL)
                             (\<lambda>url. unescape_loop mem url n (cur1 + 1) (cur1 + 1)))
                    else if d = CHR ''n'' \<or> d = CHR ''t'' then
                      and_then (mem_copy url n mem last_idx (cur1 - last_idx - 1))
                        (\<lambda>url. let n = n + (cur1 - last_idx) in
                           and_then (arr_write url (int (n - 1)) (CHR '' ''))
                             (\<lambda>url. and_then (arr_write url (int n) NUL)
                                (\<lambda>url. unescape_loop mem url n (cur1 + 1) (cur1 + 1))))
                    else unescape_loop mem url n last_idx (cur1 + 1)))
            else unescape_loop mem url n last_idx (cur + 1)
          else Inr (url, n, last_idx, cur))"
  by pat_completeness auto
termination
  by (relation "measure (\<lambda>(mem, url, n, last_idx, cur). length mem - cur)") (auto simp: arr_read_def split: if_splits)

declare unescape_loop.simps [simp del]

definition copy_text :: "char list \<Rightarrow> char list \<Rightarrow> nat \<Rightarrow> fault + char list" where
  "copy_text mem url start =
     and_then (arr_write url 0 NUL)
       (\<lambda>url. and_then (unescape_loop mem url 0 start start)
          (\<lambda>(url, n, last_idx, cur). and_then (mem_copy url n mem last_idx (cur - last_idx))
             (\<lambda>url. arr_write url (int (n + (cur - last_idx))) NUL)))"

section \<open>The text on lists\<close>

text \<open>\<open>None\<close>: the memory ends before the text does. \<open>out\<close> is the text so far.\<close>

fun json_text :: "string \<Rightarrow> string \<Rightarrow> string option" where
  "json_text out [] = None"
| "json_text out (c # s) =
     (if c = NUL \<or> c = CHR 0x22 \<or> N_MAX \<le> length out then Some out
      else if c = CHR 0x5C then
        (case s of
           [] \<Rightarrow> None
         | d # s' \<Rightarrow>
             if d = CHR 0x5C \<or> d = CHR 0x22 then json_text (out @ [d]) s'
             else if d = CHR ''r'' then json_text out s'
             else if d = CHR ''n'' \<or> d = CHR ''t'' then json_text (out @ '' '') s'
             else json_text (out @ [c, d]) s')
      else json_text (out @ [c]) s)"

lemma json_text_length: "json_text out s = Some t \<Longrightarrow> length out \<le> 401 \<Longrightarrow> length t \<le> 401"
proof (induction out s rule: json_text.induct)
  case (2 out c s)
  show ?case
  proof (cases s)
    case Nil
    with 2 show ?thesis by (simp add: N_MAX_def split: if_splits)
  next
    case (Cons d s')
    with 2 show ?thesis by (simp add: N_MAX_def split: if_splits)
  qed
qed simp

lemma json_text_set: "json_text out s = Some t \<Longrightarrow> set t \<subseteq> insert (CHR '' '') (set out \<union> set s)"
proof (induction "length s" arbitrary: out s rule: less_induct)
  case less
  have IH: "set t \<subseteq> insert (CHR '' '') (set out' \<union> set s')" if "json_text out' s' = Some t" "length s' < length s" for out' s'
    using less.hyps that by blast
  show ?case
  proof (cases s)
    case (Cons c s1)
    note s = this
    then have "t = out \<or> (\<exists>d s2. s1 = d # s2 \<and> (json_text (out @ [d]) s2 = Some t \<or> json_text out s2 = Some t \<or>
        json_text (out @ '' '') s2 = Some t \<or> json_text (out @ [c, d]) s2 = Some t)) \<or> json_text (out @ [c]) s1 = Some t"
      using less.prems unfolding s json_text.simps(2) by (auto split: if_splits list.splits simp del: json_text.simps)
    then show ?thesis
      by (auto simp: s dest!: IH)
  qed (use less.prems in simp)
qed

lemma mem_copy_flush:
  assumes "last_idx \<le> cur" and "cur \<le> length mem" and "take n url @ take (cur - last_idx) (drop last_idx mem) = out"
    and "n \<le> length url" and "length out < length url"
  obtains url1 where "mem_copy url n mem last_idx (cur - last_idx) = Inr url1" and "length url1 = length url"
    and "take (length out) url1 = out" and "length out = n + (cur - last_idx)"
proof -
  let ?s = "take (cur - last_idx) (drop last_idx mem)"
  have s: "length ?s = cur - last_idx" using assms(1,2) by simp
  then have out: "length out = n + (cur - last_idx)" using assms(3,4) by auto
  have copy: "mem_copy url n mem last_idx (cur - last_idx) = arr_blit url (int n) ?s"
    using assms(1,2) by (simp add: mem_copy_def)
  show ?thesis
  proof (cases "?s = []")
    case True
    then have "length ?s = 0" by (simp only: list.size)
    then have "cur - last_idx = 0" using s by simp
    then show ?thesis using True copy assms(3) out by (intro that [of url]) (simp_all add: arr_blit_def)
  next
    case False
    let ?url = "take n url @ ?s @ drop (n + length ?s) url"
    have "mem_copy url n mem last_idx (cur - last_idx) = Inr ?url"
      unfolding copy using False s out assms(5) by (simp add: arr_blit_def)
    moreover have "take (length out) ?url = out"
      unfolding append_assoc [symmetric] assms(3) by simp
    ultimately show ?thesis using out s assms(4,5) by (intro that [of ?url]) auto
  qed
qed

text \<open>The state of the loop and the text it stands for.\<close>

definition copied :: "char list \<Rightarrow> char list \<Rightarrow> nat \<Rightarrow> nat \<Rightarrow> nat \<Rightarrow> string \<Rightarrow> bool" where
  "copied mem url n last_idx cur out \<longleftrightarrow> last_idx \<le> cur \<and> cur \<le> length mem \<and> n \<le> length url \<and> 402 \<le> length url \<and>
     take n url @ take (cur - last_idx) (drop last_idx mem) = out \<and> length out \<le> 401"

lemma copied_length: "copied mem url n last_idx cur out \<Longrightarrow> length out = n + (cur - last_idx)"
  by (auto simp: copied_def)

lemma copied_next:
  "copied mem url n last_idx cur out \<Longrightarrow> cur < length mem \<Longrightarrow> length out \<le> 400 \<Longrightarrow> copied mem url n last_idx (cur + 1) (out @ [mem ! cur])"
  by (auto simp: copied_def Suc_diff_le take_Suc_conv_app_nth)

lemma copied_put:
  assumes "length out < 400" and "402 \<le> length url" and "take (length out) url = out" and "cur \<le> length mem"
  shows "copied mem (url[length out := d, Suc (length out) := NUL]) (Suc (length out)) cur cur (out @ [d])"
  using assms by (simp add: copied_def take_Suc_conv_app_nth)

lemma copied_skip:
  assumes "length out < 400" and "402 \<le> length url" and "take (length out) url = out" and "cur \<le> length mem"
  shows "copied mem (url[length out := NUL]) (length out) cur cur out"
  using assms by (simp add: copied_def)

lemma unescape_loop_refines:
  assumes "copied mem url n last_idx cur out"
  shows "case json_text out (drop cur mem) of
      None \<Rightarrow> unescape_loop mem url n last_idx cur = Inl Out_Of_Bounds
    | Some t \<Rightarrow> \<exists>url' n' last_idx' cur'. unescape_loop mem url n last_idx cur = Inr (url', n', last_idx', cur') \<and>
        length url' = length url \<and> copied mem url' n' last_idx' cur' t"
  using assms
proof (induction "length mem - cur" arbitrary: url n last_idx cur out rule: less_induct)
  case less
  note st = less.prems
  show ?case
  proof (cases "cur < length mem")
    case False
    then show ?thesis by (subst unescape_loop.simps) (simp add: arr_read_def)
  next
    case True
    define c where "c = mem ! cur"
    have s: "drop cur mem = c # drop (Suc cur) mem" using True by (simp add: c_def Cons_nth_drop_Suc)
    have rd: "arr_read mem (int cur) = Inr c" using True by (simp add: c_def)
    have n: "cur - last_idx + n = length out" using copied_length [OF st] by simp
    consider (stop) "c = NUL \<or> c = CHR 0x22 \<or> N_MAX \<le> length out"
      | (escape) "c = CHR 0x5C" "length out < N_MAX"
      | (plain) "c \<noteq> NUL" "c \<noteq> CHR 0x22" "c \<noteq> CHR 0x5C" "length out < N_MAX" by fastforce
    then show ?thesis
    proof cases
      case stop
      then have "unescape_loop mem url n last_idx cur = Inr (url, n, last_idx, cur)"
        by (subst unescape_loop.simps) (auto simp: rd n)
      then show ?thesis using stop st by (auto simp: s)
    next
      case plain
      then have "unescape_loop mem url n last_idx cur = unescape_loop mem url n last_idx (cur + 1)"
        by (subst unescape_loop.simps) (auto simp: rd n)
      moreover have "copied mem url n last_idx (cur + 1) (out @ [c])"
        using copied_next [OF st True] plain(4) by (simp add: c_def N_MAX_def)
      ultimately show ?thesis
        using less.hyps [of "Suc cur" url n last_idx "out @ [c]"] True plain by (auto simp: s split: option.splits)
    next
      case escape
      show ?thesis
      proof (cases "Suc cur < length mem")
        case False
        then have "arr_read mem (int (cur + 1)) = Inl Out_Of_Bounds" by (simp add: arr_read_def nat_add_distrib)
        then have "unescape_loop mem url n last_idx cur = Inl Out_Of_Bounds"
          using escape by (subst unescape_loop.simps) (simp add: rd n)
        then show ?thesis using escape False by (simp add: s)
      next
        case more: True
        define d where "d = mem ! Suc cur"
        have s': "drop (Suc cur) mem = d # drop (Suc (Suc cur)) mem" using more by (simp add: d_def Cons_nth_drop_Suc)
        have rd': "arr_read mem (int (cur + 1)) = Inr d" using more by (simp add: d_def nat_add_distrib)
        have lo: "length out < 400" "length out < length url" using escape(2) st by (auto simp: N_MAX_def copied_def)
        obtain url1 where flush: "mem_copy url n mem last_idx (cur - last_idx) = Inr url1" "length url1 = length url"
          "take (length out) url1 = out" "length out = n + (cur - last_idx)"
          using mem_copy_flush [OF _ _ _ _ lo(2), of last_idx cur mem n] st unfolding copied_def by blast
        have le: "last_idx \<le> cur" "402 \<le> length url1" using st flush(2) by (auto simp: copied_def)
        have ix: "cur + 1 - last_idx - 1 = cur - last_idx" "n + (cur + 1 - last_idx) - 1 = length out"
          "n + (cur + 1 - last_idx) = Suc (length out)" "n + (cur - last_idx) = length out" using le flush(4) by auto
        have step: "unescape_loop mem url n last_idx cur =
          (if d = CHR 0x5C \<or> d = CHR 0x22 then
             unescape_loop mem (url1[length out := d, Suc (length out) := NUL]) (Suc (length out)) (cur + 2) (cur + 2)
           else if d = CHR ''r'' then unescape_loop mem (url1[length out := NUL]) (length out) (cur + 2) (cur + 2)
           else if d = CHR ''n'' \<or> d = CHR ''t'' then
             unescape_loop mem (url1[length out := CHR '' '', Suc (length out) := NUL]) (Suc (length out)) (cur + 2) (cur + 2)
           else unescape_loop mem url n last_idx (cur + 2))"
          using escape lo le
          by (subst unescape_loop.simps) (simp add: rd n Let_def rd' [simplified] ix [simplified] flush(1) nat_add_distrib)
        have IH: "copied mem url' n' last_idx' (cur + 2) out' \<Longrightarrow>
          case json_text out' (drop (cur + 2) mem) of
            None \<Rightarrow> unescape_loop mem url' n' last_idx' (cur + 2) = Inl Out_Of_Bounds
          | Some t \<Rightarrow> \<exists>url'' n'' last_idx'' cur''. unescape_loop mem url' n' last_idx' (cur + 2) = Inr (url'', n'', last_idx'', cur'') \<and>
              length url'' = length url' \<and> copied mem url'' n'' last_idx'' cur'' t" for url' n' last_idx' out'
          by (rule less.hyps) (use True in linarith)
        have cur2: "cur + 2 \<le> length mem" using more by simp
        note put = copied_put [OF lo(1) le(2) flush(3) cur2]
        note skip = copied_skip [OF lo(1) le(2) flush(3) cur2]
        have both: "copied mem url n last_idx (cur + 2) (out @ [c, d])"
          using copied_next [OF copied_next [OF st True]] more lo(1) by (simp add: c_def d_def)
        consider (quote) "d = CHR 0x5C \<or> d = CHR 0x22" | (ret) "d = CHR ''r''" | (blank) "d = CHR ''n'' \<or> d = CHR ''t''"
          | (other) "d \<noteq> CHR 0x5C" "d \<noteq> CHR 0x22" "d \<noteq> CHR ''r''" "d \<noteq> CHR ''n''" "d \<noteq> CHR ''t''" by blast
        then show ?thesis
        proof cases
          case quote
          then have "json_text out (drop cur mem) = json_text (out @ [d]) (drop (cur + 2) mem)"
            using escape by (auto simp: s s')
          with IH [OF put [of d]] step quote flush(2) show ?thesis by (simp split: option.splits)
        next
          case ret
          then have "json_text out (drop cur mem) = json_text out (drop (cur + 2) mem)" using escape by (simp add: s s')
          with IH [OF skip] step ret flush(2) show ?thesis by (simp split: option.splits)
        next
          case blank
          then have "json_text out (drop cur mem) = json_text (out @ '' '') (drop (cur + 2) mem)"
            using escape by (auto simp: s s')
          moreover have "unescape_loop mem url n last_idx cur =
            unescape_loop mem (url1[length out := CHR '' '', Suc (length out) := NUL]) (Suc (length out)) (cur + 2) (cur + 2)"
            using step blank by auto
          ultimately show ?thesis using IH [OF put [of "CHR '' ''"]] flush(2) by (simp split: option.splits)
        next
          case other
          then have "json_text out (drop cur mem) = json_text (out @ [c, d]) (drop (cur + 2) mem)"
            using escape by (simp add: s s')
          with IH [OF both] step other show ?thesis by (simp split: option.splits)
        qed
      qed
    qed
  qed
qed

lemma copy_text_refines:
  assumes "402 \<le> length url" and "start \<le> length mem"
  shows "case json_text [] (drop start mem) of
      None \<Rightarrow> copy_text mem url start = Inl Out_Of_Bounds
    | Some t \<Rightarrow> \<exists>junk. copy_text mem url start = Inr (t @ NUL # junk) \<and> length t \<le> 401"
proof -
  let ?url = "url[0 := NUL]"
  have w: "arr_write url 0 NUL = Inr ?url" using assms(1) by (cases url) auto
  have "copied mem ?url 0 start start []" using assms by (simp add: copied_def)
  note ref = unescape_loop_refines [OF this]
  show ?thesis
  proof (cases "json_text [] (drop start mem)")
    case None
    with ref show ?thesis by (simp add: copy_text_def w)
  next
    case (Some t)
    with ref obtain url' n last_idx cur where
      loop: "unescape_loop mem ?url 0 start start = Inr (url', n, last_idx, cur)" "copied mem url' n last_idx cur t" by auto
    then have st: "last_idx \<le> cur" "cur \<le> length mem" "take n url' @ take (cur - last_idx) (drop last_idx mem) = t" "n \<le> length url'"
      "length t < length url'" "length t \<le> 401" by (auto simp: copied_def)
    obtain url1 where "mem_copy url' n mem last_idx (cur - last_idx) = Inr url1" "length url1 = length url'"
      "take (length t) url1 = t" "length t = n + (cur - last_idx)"
      using mem_copy_flush [OF st(1-5)] by blast
    then have "copy_text mem url start = Inr (url1[length t := NUL])"
      using st(5) by (simp add: copy_text_def w loop(1) nat_int_add)
    moreover have "url1[length t := NUL] = t @ NUL # drop (Suc (length t)) url1"
      using \<open>take (length t) url1 = t\<close> \<open>length url1 = length url'\<close> st(5) upd_conv_take_nth_drop [of "length t" url1 NUL] by simp
    ultimately show ?thesis using Some st(6) by auto
  qed
qed

section \<open>Text written by a JSON encoder\<close>

fun json_escape :: "string \<Rightarrow> string" where
  "json_escape [] = []"
| "json_escape (c # s) =
     (if c = CHR 0x5C \<or> c = CHR 0x22 then [CHR 0x5C, c]
      else if c = LF then [CHR 0x5C, CHR ''n'']
      else if c = CHR 0x09 then [CHR 0x5C, CHR ''t'']
      else if c = CR then [CHR 0x5C, CHR ''r'']
      else [c]) @ json_escape s"

text \<open>What the reader of the channel sees of a text: one line.\<close>

fun one_line :: "string \<Rightarrow> string" where
  "one_line [] = []"
| "one_line (c # s) = (if c = CR then [] else if c = LF \<or> c = CHR 0x09 then '' '' else [c]) @ one_line s"

lemma json_text_escape:
  "c_str s \<Longrightarrow> length out \<le> N_MAX \<Longrightarrow>
   json_text out (json_escape s @ CHR 0x22 # rest) = Some (take N_MAX (out @ one_line s))"
proof (induction s arbitrary: out)
  case (Cons c s)
  show ?case
  proof (cases "length out = N_MAX")
    case True
    then show ?thesis by (cases "json_escape (c # s)") auto
  next
    case False
    with Cons.prems have "length out < N_MAX" by simp
    with Cons show ?thesis by auto
  qed
qed simp

lemma clean_one_line: "CR \<notin> set (one_line s)" "LF \<notin> set (one_line s)"
  by (induction s) auto

end
