(* ===== verification/Bot_Web.thy ===== *)
theory Bot_Web
  imports Web_Fetch Web_Text Module_Context Command_Tree
begin

text \<open>
  The modules that quote a web service: \<^verbatim>\<open>src/modules/bot_urban.c\<close>, \<^verbatim>\<open>bot_google.c\<close> and
  \<^verbatim>\<open>bot_wolfram.c\<close>. Each builds a URL in an array on the stack, fetches it, and answers with a part of the
  response. What a service sends is not under the control of the bot, so the question is what of it
  reaches the channel, and in how many lines.
\<close>

section \<open>Definitions of the source\<close>

text \<open>\<open>snprintf\<close> into an array on the stack; a failed \<open>curl_easy_escape\<close> gives a null pointer.\<close>

definition put_url :: "web_env \<Rightarrow> nat \<Rightarrow> string \<Rightarrow> fault + char list" where
  "put_url env room s = arr_blit (take room (web_stack env)) 0 (vsnprintf room s @ [NUL])"

definition curl_quoted :: "web_env \<Rightarrow> string \<Rightarrow> fault + string" where
  "curl_quoted env s = (case curl_escape env s of None \<Rightarrow> Inl Null_Pointer | Some q \<Rightarrow> Inr q)"

definition urban_handle_cmd :: "web_env \<Rightarrow> string \<Rightarrow> string \<Rightarrow> handler_result" where
  "urban_handle_cmd env where' args =
     and_then (curl_quoted env args)
       (\<lambda>q. and_then (put_url env 512 (''http://api.urbandictionary.com/v0/define?term='' @ q))
          (\<lambda>url. and_then (c_string_at url 0)
             (\<lambda>u. and_then (send_http_request env u)
                (\<lambda>res.
                   case res of
                     None \<Rightarrow> Inr [Msg where' ''Error calling Urban Dictionary API.'']
                   | Some buf \<Rightarrow>
                       if buf_size buf < 25 then Inr [Msgva where' ''No definition found.'']
                       else
                         and_then (copy_text (buf_memory buf) url 24)
                           (\<lambda>url. and_then (c_string_at url 0)
                              (\<lambda>t. Inr [Msgva where' (CHR 0x02 # args @ CHR 0x0F # '': '' @ t)]))))))"

text \<open>
  \<open>handle_cmd\<close> of \<^verbatim>\<open>bot_google.c\<close>. The languages are taken off the front of the arguments; the
  original language is \<open>None\<close> where the code keeps the pointer to \<open>gdansk\<close>.
\<close>

definition google_langs :: "string \<Rightarrow> string option \<times> string \<times> string" where
  "google_langs args =
     (case args of
        a # b # c # rest \<Rightarrow>
          if a \<noteq> CHR '' '' \<and> b \<noteq> CHR '' '' then
            if c = CHR '' '' then (None, [a, b], rest)
            else if c = CHR '';'' then
              (case rest of
                 d # e # f # rest' \<Rightarrow>
                   if d \<noteq> CHR '' '' \<and> e \<noteq> CHR '' '' \<and> f = CHR '' '' then (Some [a, b], [d, e], rest')
                   else (None, ''en'', args)
               | _ \<Rightarrow> (None, ''en'', args))
            else (None, ''en'', args)
          else (None, ''en'', args)
      | _ \<Rightarrow> (None, ''en'', args))"

text \<open>From the end of the answer back to a bracket or the first cell.\<close>

fun scan_back :: "char list \<Rightarrow> nat \<Rightarrow> fault + nat" where
  "scan_back mem 0 = and_then (arr_read mem 0) (\<lambda>c. Inr 0)"
| "scan_back mem (Suc i) = and_then (arr_read mem (int (Suc i))) (\<lambda>c. if c \<noteq> CHR ''['' then scan_back mem i else Inr (Suc i))"

definition detected_lang :: "char list \<Rightarrow> nat \<Rightarrow> fault + string" where
  "detected_lang mem len =
     and_then (scan_back mem (len - 1))
       (\<lambda>i. and_then (c_string_at mem (i + 2))
          (\<lambda>s. case strchr s (CHR 0x22) of None \<Rightarrow> Inl Null_Pointer | Some k \<Rightarrow> Inr (take k s)))"

definition google_handle_cmd :: "web_env \<Rightarrow> string \<Rightarrow> string \<Rightarrow> handler_result" where
  "google_handle_cmd env where' args =
     (if args = [] then Inr []
      else
        (let (orig_lang, dest_lang, args) = google_langs args in
         and_then (curl_quoted env args)
           (\<lambda>q. and_then (put_url env 1024
                  (''https://translate.googleapis.com/translate_a/single?client=gtx&sl='' @
                   (case orig_lang of None \<Rightarrow> ''auto'' | Some l \<Rightarrow> l) @ ''&tl='' @ dest_lang @ ''&dt=t&q='' @ q))
              (\<lambda>url. and_then (c_string_at url 0)
                 (\<lambda>u. and_then (send_http_request env u)
                    (\<lambda>res.
                       case res of
                         None \<Rightarrow> Inr [Msg where' ''Error fetching translation.'']
                       | Some chunk \<Rightarrow>
                           if buf_size chunk < 30 then Inr [Msgva where' ''Translation failed.'']
                           else
                             and_then (copy_text (buf_memory chunk) url 4)
                               (\<lambda>url. and_then
                                  (case orig_lang of
                                     None \<Rightarrow> detected_lang (buf_memory chunk) (buf_size chunk)
                                   | Some l \<Rightarrow> Inr l)
                                  (\<lambda>lang. and_then (c_string_at url 0)
                                     (\<lambda>t. Inr [Msgva where' (lang @ '' to '' @ dest_lang @ '': '' @ t)])))))))))"

text \<open>\<open>wa_handle_cmd\<close>; the key comes from the environment.\<close>

definition wa_handle_cmd :: "web_env \<Rightarrow> string \<Rightarrow> command_sender \<Rightarrow> string \<Rightarrow> string \<Rightarrow> handler_result" where
  "wa_handle_cmd env api_key who where' args =
     and_then (curl_quoted env args)
       (\<lambda>q. and_then (put_url env 768 (''https://api.wolframalpha.com/v1/result?i='' @ q @ ''&appid='' @ api_key))
          (\<lambda>url. and_then (c_string_at url 0)
             (\<lambda>u. and_then (send_http_request env u)
                (\<lambda>res.
                   case res of
                     None \<Rightarrow> Inr [Msg where' ''Error calling WolframAlpha API.'']
                   | Some buf \<Rightarrow>
                       and_then (c_string_at (buf_memory buf) 0)
                         (\<lambda>t. Inr [Msgva where' (sender_nick who @ '': '' @ t)])))))"

section \<open>Fetching\<close>

text \<open>Memory and stack are there, and libcurl quotes the arguments as \<open>q\<close>.\<close>

definition web_ok :: "web_env \<Rightarrow> string \<Rightarrow> string \<Rightarrow> bool" where
  "web_ok env args q \<longleftrightarrow> web_memory_ok env \<and> 1024 \<le> length (web_stack env) \<and> curl_escape env args = Some q \<and> c_str q"

lemma put_url_ok:
  assumes "room \<le> length (web_stack env)" and "0 < room" and "c_str s"
  obtains url where "put_url env room s = Inr url" and "c_string_at url 0 = Inr (take (room - 1) s)" and "length url = room"
proof -
  let ?s = "vsnprintf room s @ [NUL]"
  let ?url = "?s @ drop (length ?s) (take room (web_stack env))"
  have "length ?s \<le> room" using assms(2) by (simp add: vsnprintf_def)
  then have put: "put_url env room s = Inr ?url" and len: "length ?url = room"
    using assms(1) by (simp_all add: put_url_def arr_blit_def)
  have "c_string_at ?url 0 = Inr (take (room - 1) s)"
    using c_string_at_0 [of "take (room - 1) s"] assms(3) by (simp add: vsnprintf_def c_str_take)
  then show ?thesis by (rule that [OF put _ len])
qed

lemma put_url_result: "put_url env room s = Inr url \<Longrightarrow> length url \<le> room"
  by (auto simp: put_url_def dest: arr_blit_length)

lemma c_string_at_set: "c_string_at buf off = Inr t \<Longrightarrow> set t \<subseteq> set (drop off buf)"
  by (auto simp: c_string_at_def split: if_splits dest: set_takeWhileD)

lemma c_string_at_NUL: "c_string_at (t @ NUL # junk) 0 = Inr (takeWhile (\<lambda>c. c \<noteq> NUL) t)"
proof (cases "NUL \<in> set t")
  case True
  then show ?thesis by (simp add: c_string_at_def takeWhile_append1)
next
  case False
  then have all: "takeWhile (\<lambda>c. c \<noteq> NUL) t = t" by (auto simp: takeWhile_eq_all_conv)
  show ?thesis unfolding all using False by (intro c_string_at_0) (simp add: c_str_def)
qed

lemma c_str_one_line: "c_str s \<Longrightarrow> c_str (one_line s)"
  by (induction s) auto

lemma c_str_json_escape: "c_str s \<Longrightarrow> c_str (json_escape s)"
  by (induction s) auto

text \<open>The text of a JSON string that begins at offset \<open>length pre\<close> of an answer.\<close>

lemma copy_text_json:
  assumes "402 \<le> length url" and "c_str d"
  shows "\<exists>url'. copy_text (pre @ json_escape d @ CHR 0x22 # rest) url (length pre) = Inr url' \<and>
    c_string_at url' 0 = Inr (take N_MAX (one_line d))"
proof -
  have "json_text [] (drop (length pre) (pre @ json_escape d @ CHR 0x22 # rest)) = Some (take N_MAX (one_line d))"
    using json_text_escape [OF assms(2), of "[]"] by simp
  with copy_text_refines [OF assms(1), of "length pre" "pre @ json_escape d @ CHR 0x22 # rest"] obtain junk where
    "copy_text (pre @ json_escape d @ CHR 0x22 # rest) url (length pre) = Inr (take N_MAX (one_line d) @ NUL # junk)" by auto
  then show ?thesis using c_string_at_0 [OF c_str_take [OF c_str_one_line [OF assms(2)]]] by auto
qed

section \<open>What the modules answer\<close>

definition urban_url :: "string \<Rightarrow> string" where
  "urban_url q = take 511 (''http://api.urbandictionary.com/v0/define?term='' @ q)"

definition urban_head :: string where
  \<open>urban_head = ''{"list":[{"definition":"''\<close>

lemma urban_fetch:
  assumes "web_ok env args q"
  obtains url where "length url = 512" and "urban_handle_cmd env where' args =
    and_then (send_http_request env (urban_url q))
      (\<lambda>res. case res of
         None \<Rightarrow> Inr [Msg where' ''Error calling Urban Dictionary API.'']
       | Some buf \<Rightarrow>
           if buf_size buf < 25 then Inr [Msgva where' ''No definition found.'']
           else and_then (copy_text (buf_memory buf) url 24)
             (\<lambda>url. and_then (c_string_at url 0) (\<lambda>t. Inr [Msgva where' (CHR 0x02 # args @ CHR 0x0F # '': '' @ t)])))"
proof -
  have ok: "512 \<le> length (web_stack env)" "c_str (''http://api.urbandictionary.com/v0/define?term='' @ q)"
    "curl_escape env args = Some q" using assms by (auto simp: web_ok_def c_str_def)
  from put_url_ok [OF ok(1) _ ok(2)] obtain url where
    "put_url env 512 (''http://api.urbandictionary.com/v0/define?term='' @ q) = Inr url"
    "c_string_at url 0 = Inr (urban_url q)" "length url = 512" by (auto simp: urban_url_def)
  with ok(3) show ?thesis by (intro that [of url]) (simp_all add: urban_handle_cmd_def curl_quoted_def)
qed

text \<open>
  C17: When the dictionary answers with a definition, \<open>handle_cmd\<close> of \<^verbatim>\<open>bot_urban.c\<close> says the term and the first 400 characters of the
  definition: JSON escapes are undone, line breaks and tabs become spaces, so what is said is one
  line, however the answer is cut into chunks.
\<close>

theorem urban_shows_definition:
  assumes "web_ok env args q" and "curl_get env (urban_url q) = (chunks, True)"
    and "concat chunks = urban_head @ json_escape d @ CHR 0x22 # rest" and "c_str d"
  shows "urban_handle_cmd env where' args = Inr [Msgva where' (CHR 0x02 # args @ CHR 0x0F # '': '' @ take 400 (one_line d))] \<and>
    clean (take 400 (one_line d))"
proof -
  have mem: "web_memory_ok env" using assms(1) by (simp add: web_ok_def)
  have "chunks \<noteq> []" using assms(3) by (auto simp: urban_head_def)
  note send = send_http_request_ok [OF mem assms(2) this]
  obtain url where url: "length url = 512" "urban_handle_cmd env where' args =
    and_then (send_http_request env (urban_url q))
      (\<lambda>res. case res of
         None \<Rightarrow> Inr [Msg where' ''Error calling Urban Dictionary API.'']
       | Some buf \<Rightarrow>
           if buf_size buf < 25 then Inr [Msgva where' ''No definition found.'']
           else and_then (copy_text (buf_memory buf) url 24)
             (\<lambda>url. and_then (c_string_at url 0) (\<lambda>t. Inr [Msgva where' (CHR 0x02 # args @ CHR 0x0F # '': '' @ t)])))"
    using assms(1) by (rule urban_fetch)
  have head: "length urban_head = 24" by (simp add: urban_head_def)
  from copy_text_json [of url d urban_head "rest @ [NUL]"] url(1) assms(4) obtain url' where
    "copy_text (concat chunks @ [NUL]) url 24 = Inr url'" "c_string_at url' 0 = Inr (take N_MAX (one_line d))"
    by (auto simp: assms(3) head)
  moreover have "\<not> length (concat chunks) < 25" by (simp add: assms(3) head)
  ultimately have "urban_handle_cmd env where' args =
      Inr [Msgva where' (CHR 0x02 # args @ CHR 0x0F # '': '' @ take 400 (one_line d))]"
    by (simp add: url(2) send N_MAX_def)
  then show ?thesis using clean_one_line [of d] by (auto simp: clean_def dest: in_set_takeD)
qed

lemma quiet_web_ok: "c_str args \<Longrightarrow> web_ok (quiet_web\<lparr>curl_get := f\<rparr>) args args"
  by (simp add: web_ok_def web_memory_ok_def quiet_web_def)

theorem urban_shows_definition_witness:
  "\<exists>env. urban_handle_cmd env ''#c'' ''bot'' =
      Inr [Msgva ''#c'' (CHR 0x02 # ''bot'' @ CHR 0x0F # '': '' @ take 400 (one_line ''a (ro)bot''))] \<and>
    clean (take 400 (one_line ''a (ro)bot''))"
proof -
  let ?chunks = "[urban_head, json_escape ''a (ro)bot'', [CHR 0x22]]"
  show ?thesis
    by (rule exI [of _ "quiet_web\<lparr>curl_get := (\<lambda>u. (?chunks, True))\<rparr>"],
        rule urban_shows_definition [OF quiet_web_ok, where chunks = ?chunks and rest = "[]"])
      (simp_all add: c_str_def del: json_escape.simps)
qed

section \<open>bot_wolfram\<close>

definition wa_url :: "string \<Rightarrow> string \<Rightarrow> string" where
  "wa_url api_key q = take 767 (''https://api.wolframalpha.com/v1/result?i='' @ q @ ''&appid='' @ api_key)"

lemma wa_fetch:
  assumes "web_ok env args q" and "c_str api_key"
  shows "wa_handle_cmd env api_key who where' args =
    and_then (send_http_request env (wa_url api_key q))
      (\<lambda>res. case res of
         None \<Rightarrow> Inr [Msg where' ''Error calling WolframAlpha API.'']
       | Some buf \<Rightarrow> and_then (c_string_at (buf_memory buf) 0) (\<lambda>t. Inr [Msgva where' (sender_nick who @ '': '' @ t)]))"
proof -
  have ok: "768 \<le> length (web_stack env)"
    "c_str (''https://api.wolframalpha.com/v1/result?i='' @ q @ ''&appid='' @ api_key)" "curl_escape env args = Some q"
    using assms(1,2) by (auto simp: web_ok_def c_str_def)
  from put_url_ok [OF ok(1) _ ok(2)] obtain url where
    "put_url env 768 (''https://api.wolframalpha.com/v1/result?i='' @ q @ ''&appid='' @ api_key) = Inr url"
    "c_string_at url 0 = Inr (wa_url api_key q)" by (auto simp: wa_url_def)
  with ok(3) show ?thesis by (simp add: wa_handle_cmd_def curl_quoted_def cong: option.case_cong)
qed

text \<open>
  C19: \<open>wa_handle_cmd\<close> passes the answer of the service on as it is: when the answer has a line break, what follows the
  break is on the wire as a line of its own, that is, as an IRC command of the bot.
\<close>

theorem wolfram_answer_injects_line:
  assumes "web_ok env args q" and "c_str api_key"
    and "curl_get env (wa_url api_key q) = (chunks, True)"
    and "concat chunks = first @ crlf @ second" and "c_str first" and "c_str second"
    and "length where' + length (sender_nick who) + length first + length second \<le> 490"
  shows "\<exists>c. wa_handle_cmd env api_key who where' args = Inr [c] \<and>
    perform c = ''PRIVMSG '' @ where' @ '' :'' @ sender_nick who @ '': '' @ first @ crlf @ second @ crlf"
proof -
  have mem: "web_memory_ok env" using assms(1) by (simp add: web_ok_def)
  have "chunks \<noteq> []" using assms(4) by auto
  note send = send_http_request_ok [OF mem assms(3) this]
  have "c_string_at (concat chunks @ [NUL]) 0 = Inr (first @ crlf @ second)"
    using c_string_at_0 [of "first @ crlf @ second" "[]"] assms(5,6) by (simp add: assms(4))
  then have "wa_handle_cmd env api_key who where' args = Inr [Msgva where' (sender_nick who @ '': '' @ first @ crlf @ second)]"
    by (simp add: wa_fetch [OF assms(1,2)] send)
  then show ?thesis using assms(7)
    by (simp add: irc_message_va_def irc_message_def net_raw_def net_raws_def vsnprintf_short)
qed

theorem wolfram_answer_injects_line_witness:
  "\<exists>env who c. wa_handle_cmd env ''k'' who ''#c'' ''x'' = Inr [c] \<and>
    perform c = ''PRIVMSG '' @ ''#c'' @ '' :'' @ sender_nick who @ '': '' @ ''a'' @ crlf @ ''QUIT'' @ crlf"
proof -
  let ?who = "\<lparr>sender_nick = ''bob'', sender_ident = None, sender_host = None, permission_level = 0\<rparr>"
  let ?env = "quiet_web\<lparr>curl_get := (\<lambda>u. ([''a'' @ crlf @ ''QUIT''], True))\<rparr>"
  show ?thesis
    by (rule exI [of _ ?env], rule exI [of _ ?who],
        rule wolfram_answer_injects_line [OF quiet_web_ok, where chunks = "[''a'' @ crlf @ ''QUIT'']"])
      (simp_all add: c_str_def)
qed

section \<open>bot_google\<close>

definition google_url :: "string option \<Rightarrow> string \<Rightarrow> string \<Rightarrow> string" where
  "google_url orig_lang dest_lang q = take 1023
     (''https://translate.googleapis.com/translate_a/single?client=gtx&sl='' @
      (case orig_lang of None \<Rightarrow> ''auto'' | Some l \<Rightarrow> l) @ ''&tl='' @ dest_lang @ ''&dt=t&q='' @ q)"

lemma google_langs_c_str:
  "c_str args \<Longrightarrow> google_langs args = (orig_lang, dest_lang, rest) \<Longrightarrow>
   c_str dest_lang \<and> (\<forall>l. orig_lang = Some l \<longrightarrow> c_str l) \<and> c_str rest"
  by (auto simp: google_langs_def c_str_def split: list.splits if_splits)

lemma google_fetch:
  assumes "args \<noteq> []" and "c_str args" and "google_langs args = (orig_lang, dest_lang, rest)" and "web_ok env rest q"
  obtains url where "length url = 1024" and "google_handle_cmd env where' args =
    and_then (send_http_request env (google_url orig_lang dest_lang q))
      (\<lambda>res. case res of
         None \<Rightarrow> Inr [Msg where' ''Error fetching translation.'']
       | Some chunk \<Rightarrow>
           if buf_size chunk < 30 then Inr [Msgva where' ''Translation failed.'']
           else and_then (copy_text (buf_memory chunk) url 4)
             (\<lambda>url. and_then (case orig_lang of None \<Rightarrow> detected_lang (buf_memory chunk) (buf_size chunk) | Some l \<Rightarrow> Inr l)
                (\<lambda>lang. and_then (c_string_at url 0)
                   (\<lambda>t. Inr [Msgva where' (lang @ '' to '' @ dest_lang @ '': '' @ t)]))))"
proof -
  let ?s = "''https://translate.googleapis.com/translate_a/single?client=gtx&sl='' @
      (case orig_lang of None \<Rightarrow> ''auto'' | Some l \<Rightarrow> l) @ ''&tl='' @ dest_lang @ ''&dt=t&q='' @ q"
  have ok: "1024 \<le> length (web_stack env)" "c_str ?s" "curl_escape env rest = Some q"
    using assms(4) google_langs_c_str [OF assms(2,3)] by (auto simp: web_ok_def c_str_def split: option.splits)
  from put_url_ok [OF ok(1) _ ok(2)] obtain url where
    "put_url env 1024 ?s = Inr url" "c_string_at url 0 = Inr (google_url orig_lang dest_lang q)" "length url = 1024"
    by (auto simp: google_url_def)
  with ok(3) assms(1,3) show ?thesis
    by (intro that [of url]) (simp_all add: google_handle_cmd_def curl_quoted_def cong: option.case_cong)
qed

lemma scan_back_finds:
  "CHR ''['' \<notin> set post \<Longrightarrow> scan_back (pre @ CHR ''['' # post @ rest) (length pre + length post) = Inr (length pre)"
proof (induction post arbitrary: rest rule: rev_induct)
  case Nil
  have "arr_read (pre @ CHR ''['' # rest) (int (length pre)) = Inr (CHR ''['')" by simp
  then show ?case by (cases pre) simp_all
next
  case (snoc c post)
  have "arr_read (pre @ CHR ''['' # post @ c # rest) (int (Suc (length pre + length post))) = Inr c"
    by (simp add: arr_read_def nth_append nat_add_distrib)
  then show ?case using snoc.IH [of "c # rest"] snoc.prems by auto
qed

lemma detected_lang_found:
  assumes "CHR ''['' \<notin> set lang" and "CHR 0x22 \<notin> set lang" and "CHR ''['' \<notin> set tail" and "c_str lang" and "c_str tail"
    and "body = pre @ CHR ''['' # CHR 0x22 # lang @ CHR 0x22 # tail"
  shows "detected_lang (body @ [NUL]) (length body) = Inr lang"
proof -
  let ?post = "CHR 0x22 # lang @ CHR 0x22 # tail"
  have "scan_back (body @ [NUL]) (length body - 1) = Inr (length pre)"
    using scan_back_finds [of ?post pre "[NUL]"] assms(1,3) by (simp add: assms(6))
  moreover have "c_string_at (body @ [NUL]) (length pre + 2) = Inr (lang @ CHR 0x22 # tail)"
    using c_string_at_append [of "lang @ CHR 0x22 # tail" "pre @ [CHR ''['', CHR 0x22]" "[]"] assms(4,5) by (simp add: assms(6))
  ultimately show ?thesis using strchr_append [OF assms(2)] by (simp add: detected_lang_def)
qed

definition google_head :: string where
  \<open>google_head = ''[[["''\<close>

lemma google_copy:
  assumes "concat chunks = google_head @ json_escape answer @ CHR 0x22 # behind" and "length url = 1024" and "c_str answer"
  obtains url' where "copy_text (concat chunks @ [NUL]) url 4 = Inr url'" and "c_string_at url' 0 = Inr (take 400 (one_line answer))"
proof -
  have "length google_head = 4" by (simp add: google_head_def)
  then show ?thesis
    using copy_text_json [of url answer google_head "behind @ [NUL]"] assms that by (auto simp: N_MAX_def)
qed

lemma google_translates_between:
  assumes "web_ok env rest q" and "c_str rest" and "\<forall>x \<in> {a, b, c, d}. x \<noteq> NUL \<and> x \<noteq> CHR '' ''" and "c_str answer"
    and "curl_get env (google_url (Some [a, b]) [c, d] q) = (chunks, True)" and "30 \<le> length (concat chunks)"
    and "concat chunks = google_head @ json_escape answer @ CHR 0x22 # behind"
  shows "google_handle_cmd env where' (a # b # CHR '';'' # c # d # CHR '' '' # rest) =
    Inr [Msgva where' ([a, b] @ '' to '' @ [c, d] @ '': '' @ take 400 (one_line answer))]"
proof -
  let ?args = "a # b # CHR '';'' # c # d # CHR '' '' # rest"
  have langs: "google_langs ?args = (Some [a, b], [c, d], rest)" using assms(3) by (simp add: google_langs_def)
  have "c_str ?args" using assms(2,3) by simp
  with assms(1) langs obtain url where url: "length url = 1024"
    "google_handle_cmd env where' ?args = and_then (send_http_request env (google_url (Some [a, b]) [c, d] q))
      (\<lambda>res. case res of
         None \<Rightarrow> Inr [Msg where' ''Error fetching translation.'']
       | Some chunk \<Rightarrow>
           if buf_size chunk < 30 then Inr [Msgva where' ''Translation failed.'']
           else and_then (copy_text (buf_memory chunk) url 4)
             (\<lambda>url. and_then (case Some [a, b] of None \<Rightarrow> detected_lang (buf_memory chunk) (buf_size chunk) | Some l \<Rightarrow> Inr l)
                (\<lambda>lang. and_then (c_string_at url 0)
                   (\<lambda>t. Inr [Msgva where' (lang @ '' to '' @ [c, d] @ '': '' @ t)]))))"
    by (elim google_fetch [rotated 1]) simp_all
  have "chunks \<noteq> []" using assms(6) by auto
  with send_http_request_ok [OF _ assms(5)] assms(1)
  have send: "send_http_request env (google_url (Some [a, b]) [c, d] q) =
    Inr (Some \<lparr>buf_memory = concat chunks @ [NUL], buf_size = length (concat chunks)\<rparr>)" by (simp add: web_ok_def)
  from google_copy [OF assms(7) url(1) assms(4)] obtain url' where
    "copy_text (concat chunks @ [NUL]) url 4 = Inr url'" "c_string_at url' 0 = Inr (take 400 (one_line answer))" by blast
  with assms(6) show ?thesis by (simp add: url(2) send)
qed

text \<open>
  C24: \<open>handle_cmd\<close> of \<^verbatim>\<open>bot_google.c\<close> with two letters and a space in front of the text answers with the first 400 characters of the
  translation, on one line, and names the language the service detected, which it finds behind the
  last bracket of the answer.
\<close>

theorem google_translates:
  assumes "web_ok env rest q" and "c_str rest" and "\<forall>x \<in> {a, b}. x \<noteq> NUL \<and> x \<noteq> CHR '' ''" and "c_str answer"
    and "curl_get env (google_url None [a, b] q) = (chunks, True)" and "30 \<le> length (concat chunks)"
    and "concat chunks = google_head @ json_escape answer @ CHR 0x22 # mid @ CHR ''['' # CHR 0x22 # lang @ CHR 0x22 # tail"
    and "CHR ''['' \<notin> set (lang @ tail)" and "CHR 0x22 \<notin> set lang" and "c_str (lang @ tail)"
  shows "google_handle_cmd env where' (a # b # CHR '' '' # rest) =
    Inr [Msgva where' (lang @ '' to '' @ [a, b] @ '': '' @ take 400 (one_line answer))]"
proof -
  let ?args = "a # b # CHR '' '' # rest"
  have langs: "google_langs ?args = (None, [a, b], rest)" using assms(3) by (simp add: google_langs_def)
  have "c_str ?args" using assms(2,3) by simp
  with assms(1) langs obtain url where url: "length url = 1024"
    "google_handle_cmd env where' ?args = and_then (send_http_request env (google_url None [a, b] q))
      (\<lambda>res. case res of
         None \<Rightarrow> Inr [Msg where' ''Error fetching translation.'']
       | Some chunk \<Rightarrow>
           if buf_size chunk < 30 then Inr [Msgva where' ''Translation failed.'']
           else and_then (copy_text (buf_memory chunk) url 4)
             (\<lambda>url. and_then (case None of None \<Rightarrow> detected_lang (buf_memory chunk) (buf_size chunk) | Some l \<Rightarrow> Inr l)
                (\<lambda>lang. and_then (c_string_at url 0)
                   (\<lambda>t. Inr [Msgva where' (lang @ '' to '' @ [a, b] @ '': '' @ t)]))))"
    by (elim google_fetch [rotated 1]) simp_all
  have "chunks \<noteq> []" using assms(6) by auto
  with send_http_request_ok [OF _ assms(5)] assms(1)
  have send: "send_http_request env (google_url None [a, b] q) =
    Inr (Some \<lparr>buf_memory = concat chunks @ [NUL], buf_size = length (concat chunks)\<rparr>)" by (simp add: web_ok_def)
  from google_copy [OF assms(7) url(1) assms(4)] obtain url' where
    "copy_text (concat chunks @ [NUL]) url 4 = Inr url'" "c_string_at url' 0 = Inr (take 400 (one_line answer))" by blast
  moreover have "detected_lang (concat chunks @ [NUL]) (length (concat chunks)) = Inr lang"
    using assms(8-10) by (intro detected_lang_found [where pre = "google_head @ json_escape answer @ CHR 0x22 # mid"])
      (simp_all add: assms(7))
  ultimately show ?thesis using assms(6) by (simp add: url(2) send)
qed

theorem google_translates_witness:
  "\<exists>env. google_handle_cmd env ''#c'' (CHR ''d'' # CHR ''e'' # CHR '' '' # ''hello'') =
    Inr [Msgva ''#c'' (''en'' @ '' to '' @ [CHR ''d'', CHR ''e''] @ '': '' @ take 400 (one_line ''hallo''))]"
proof -
  let ?chunks = "[google_head @ json_escape ''hallo'' @ CHR 0x22 # '',null,null,null,[[],['' @ CHR ''['' # CHR 0x22 # ''en'' @ CHR 0x22 # '']]]'']"
  show ?thesis
    by (rule exI [of _ "quiet_web\<lparr>curl_get := (\<lambda>u. (?chunks, True))\<rparr>"],
        rule google_translates [OF quiet_web_ok, where chunks = ?chunks and mid = "'',null,null,null,[[],[''" and tail = "'']]]''"])
      (simp_all add: c_str_def google_head_def)
qed

end
