(* ===== verification/Bot_Json.thy ===== *)
theory Bot_Json
  imports Bot_Web Bot_Fun "HOL-Library.Sublist"
begin

text \<open>
  The modules that read JSON answers with jsmn: \<^verbatim>\<open>src/modules/bot_geoip.c\<close> and
  \<^verbatim>\<open>src/modules/bot_cryptocurrency.c\<close>. jsmn itself is an argument. The first appends labels and values to
  a 512-byte array with \<open>strncat\<close>, the second reads five prices from fixed tokens.
\<close>

section \<open>Strings in memory\<close>

text \<open>\<open>t.end - t.start\<close> as a \<open>size_t\<close>, and an element of the token array, of which jsmn has filled the front.\<close>

definition tok_size :: "jsmntok \<Rightarrow> nat" where
  "tok_size t = (if tok_start t \<le> tok_end t then tok_end t - tok_start t else 2 ^ 64 - (tok_start t - tok_end t))"

definition tok_at :: "jsmntok list \<Rightarrow> nat \<Rightarrow> fault + jsmntok" where
  "tok_at toks i = (if i < length toks then Inr (toks ! i) else Inl Uninitialised)"

text \<open>The at most \<open>n\<close> characters that \<open>strndup\<close> or \<open>strncat\<close> take from an offset of the answer.\<close>

definition strn_at :: "char list \<Rightarrow> nat \<Rightarrow> nat \<Rightarrow> fault + string" where
  "strn_at mem off n =
     (if off + n \<le> length mem \<or> NUL \<in> set (drop off mem) then Inr (takeWhile (\<lambda>c. c \<noteq> NUL) (take n (drop off mem)))
      else Inl Out_Of_Bounds)"

text \<open>\<open>!strncmp(s, p, n)\<close> for a literal and the cells behind a pointer.\<close>

fun strncmp_at :: "string \<Rightarrow> char list \<Rightarrow> nat \<Rightarrow> fault + bool" where
  "strncmp_at s ds 0 = Inr True"
| "strncmp_at s [] (Suc n) = Inl Out_Of_Bounds"
| "strncmp_at [] (d # ds) (Suc n) = Inr (d = NUL)"
| "strncmp_at (c # s) (d # ds) (Suc n) = (if c = d then strncmp_at s ds n else Inr False)"

text \<open>\<open>strncat\<close> of a string to the array.\<close>

definition strncat :: "char list \<Rightarrow> string \<Rightarrow> nat \<Rightarrow> fault + char list" where
  "strncat dst s n = and_then (c_string_at dst 0) (\<lambda>d. arr_blit dst (int (length d)) (take n s @ [NUL]))"

section \<open>bot_geoip\<close>

definition is_key :: "string \<Rightarrow> char list \<Rightarrow> jsmntok \<Rightarrow> fault + bool" where
  "is_key s mem t = strncmp_at s (drop (tok_start t) mem) (tok_size t)"

text \<open>The label in front of a value. A key without a label of its own is shown with its first letter 32 lower.\<close>

definition geoip_label :: "char list \<Rightarrow> jsmntok \<Rightarrow> char list \<Rightarrow> fault + char list" where
  "geoip_label mem t url =
     and_then (is_key ''region'' mem t) (\<lambda>region.
     and_then (if region then Inr True else is_key ''country'' mem t) (\<lambda>bare.
       if bare then Inr url
       else and_then (is_key ''city'' mem t) (\<lambda>city.
         if city then strncat url (CHR 0x02 # ''Location'' @ CHR 0x0F # '': '') 13
         else and_then (is_key ''loc'' mem t) (\<lambda>loc.
           if loc then strncat url (CHR 0x02 # ''Coordinates'' @ CHR 0x0F # '': '') 16
           else and_then (is_key ''org'' mem t) (\<lambda>org.
             if org then strncat url (CHR 0x02 # ''ISP'' @ CHR 0x0F # '': '') 8
             else and_then (is_key ''ip'' mem t) (\<lambda>ip.
               if ip then strncat url (CHR 0x02 # ''IP'' @ CHR 0x0F # '': '') 7
               else and_then (strncat url [CHR 0x02] 2)
                 (\<lambda>url. and_then (arr_read mem (int (tok_start t)))
                    (\<lambda>c. and_then (arr_write mem (int (tok_start t)) (char_of ((of_char c + 256 - 32) mod (256 :: nat))))
                       (\<lambda>mem. and_then (strn_at mem (tok_start t) (tok_size t))
                          (\<lambda>s. and_then (strncat url s (tok_size t))
                             (\<lambda>url. strncat url (CHR 0x0F # '': '') 4)))))))))))"

text \<open>The flag behind a country: two regional indicators, put together in \<open>ip_buf\<close>.\<close>

definition flag_char :: "char \<Rightarrow> char" where
  "flag_char c = char_of ((0xA6 + of_char c + 256 - 65) mod (256 :: nat))"

definition geoip_flag :: "char list \<Rightarrow> jsmntok \<Rightarrow> char list \<Rightarrow> fault + char list" where
  "geoip_flag mem v url =
     and_then (arr_read mem (int (tok_start v)))
       (\<lambda>a. and_then (arr_read mem (int (tok_start v + 1)))
          (\<lambda>b. strncat url
             (takeWhile (\<lambda>c. c \<noteq> NUL)
                [CHR '' '', CHR 0xF0, CHR 0x9F, CHR 0x87, flag_char a, CHR 0xF0, CHR 0x9F, CHR 0x87, flag_char b]) 10))"

definition geoip_value :: "char list \<Rightarrow> jsmntok \<Rightarrow> char list \<Rightarrow> fault + char list" where
  "geoip_value mem v url =
     (if tok_end v = tok_start v then strncat url ''[unknown]'' 10
      else and_then (strn_at mem (tok_start v) (tok_size v)) (\<lambda>s. strncat url s (tok_size v)))"

text \<open>The body of the loop, with \<open>i\<close> at the key, and the loop; each turn passes two tokens.\<close>

definition geoip_item :: "char list \<Rightarrow> jsmntok list \<Rightarrow> nat \<Rightarrow> nat \<Rightarrow> char list \<Rightarrow> fault + char list" where
  "geoip_item mem toks r i url =
     and_then (tok_at toks i)
       (\<lambda>t. and_then (geoip_label mem t url)
          (\<lambda>url. and_then (tok_at toks (i + 1))
             (\<lambda>v. and_then (geoip_value mem v url)
                (\<lambda>url. and_then (is_key ''country'' mem t)
                   (\<lambda>country. and_then (if country then geoip_flag mem v url else Inr url)
                      (\<lambda>url. if i + 1 < r - 1 then strncat url '', '' 3 else Inr url))))))"

function geoip_loop :: "char list \<Rightarrow> jsmntok list \<Rightarrow> nat \<Rightarrow> nat \<Rightarrow> char list \<Rightarrow> fault + char list" where
  "geoip_loop mem toks r i url =
     (if i < r then and_then (geoip_item mem toks r i url) (\<lambda>url. geoip_loop mem toks r (i + 2) url) else Inr url)"
  by pat_completeness auto
termination
  by (relation "measure (\<lambda>(mem, toks, r, i, url). r - i)") auto

declare geoip_loop.simps [simp del]

definition geoip_host :: "string \<Rightarrow> addr_family \<times> string" where
  "geoip_host args =
     (case strchr args (CHR '' '') of
        None \<Rightarrow> (AF_UNSPEC, args)
      | Some p \<Rightarrow>
          if strchr (drop p args) (CHR ''6'') \<noteq> None then (AF_INET6, take p args)
          else if strchr (drop p args) (CHR ''4'') \<noteq> None then (AF_INET, take p args)
          else (AF_UNSPEC, args))"

definition geoip_answer :: "web_env \<Rightarrow> char list \<Rightarrow> string \<Rightarrow> buffer \<Rightarrow> handler_result" where
  "geoip_answer env url where' chunk =
     (let (r, toks) = jsmn_parse env (buf_memory chunk) (buf_size chunk) in
      if r < 0 then Inr []
      else if r < 1 then Inr []
      else
        and_then (tok_at toks 0)
          (\<lambda>t0.
             if \<not> tok_object t0 then Inr []
             else and_then (arr_write url 0 NUL)
               (\<lambda>url. and_then (geoip_loop (buf_memory chunk) toks (nat r) 1 url)
                  (\<lambda>url. and_then (c_string_at url 0) (\<lambda>s. Inr [Msg where' s])))))"

definition geoip_handle_cmd :: "web_env \<Rightarrow> string \<Rightarrow> command_sender \<Rightarrow> string \<Rightarrow> string \<Rightarrow> handler_result" where
  "geoip_handle_cmd env api_key who where' args =
     (let (family, host) = geoip_host args in
      case resolve env family host of
        None \<Rightarrow> Inr [Msgva where' (sender_nick who @ '': Please specify a valid IP.'')]
      | Some ip \<Rightarrow>
          and_then (put_url env 512 (''http://ipinfo.io/'' @ ip @ ''/json?token='' @ api_key))
            (\<lambda>url. and_then (c_string_at url 0)
               (\<lambda>u. and_then (send_http_request env u)
                  (\<lambda>res.
                     case res of
                       None \<Rightarrow> Inr [Msg where' ''Error fetching IP information.'']
                     | Some chunk \<Rightarrow> geoip_answer env url where' chunk))))"

section \<open>bot_cryptocurrency\<close>

definition to_upper :: "char \<Rightarrow> char" where
  "to_upper c = (if signed_char c > 0x5A then char_of ((of_char c :: nat) - 0x20) else c)"

text \<open>The four bytes copied from the name of the command, the last one overwritten.\<close>

definition crypto_symbol :: "string \<Rightarrow> fault + string" where
  "crypto_symbol cmdname =
     (case cmdname @ [NUL] of
        a # b # c # d # rest \<Rightarrow> c_string_at [to_upper a, to_upper b, to_upper c, NUL] 0
      | _ \<Rightarrow> Inl Out_Of_Bounds)"

text \<open>\<open>url\<close> keeps its initial garbage where no symbol matches.\<close>

definition crypto_url :: "string \<Rightarrow> fault + string" where
  "crypto_url symb =
     (if symb = ''BTC'' \<or> symb = ''ETH'' \<or> symb = ''XMR'' \<or> symb = ''USD'' \<or> symb = ''CAD''
      then Inr (''https://min-api.cryptocompare.com/data/price?fsym='' @ symb @ ''&tsyms=BTC,ETH,XMR,USD,CAD'')
      else Inl Uninitialised)"

definition price_at :: "web_env \<Rightarrow> char list \<Rightarrow> jsmntok list \<Rightarrow> nat \<Rightarrow> fault + double" where
  "price_at env mem toks i =
     and_then (tok_at toks i)
       (\<lambda>t. and_then (strn_at mem (tok_start t) (tok_size t)) (\<lambda>price_a. Inr (atof env price_a)))"

definition request_amnt :: "web_env \<Rightarrow> string \<Rightarrow> double" where
  "request_amnt env args = (if length args > 1 then atof env args else 0x3FF0000000000000)"

definition crypto_line :: "web_env \<Rightarrow> string \<Rightarrow> double \<Rightarrow> double \<Rightarrow> double \<Rightarrow> double \<Rightarrow> double \<Rightarrow> double \<Rightarrow> string" where
  "crypto_line env symb n btc eth xmr usd cad =
     print_lf env n @ '' '' @ symb @ '' = '' @ print_lf env (d_mult env n btc) @ '' BTC / '' @
     print_lf env (d_mult env n eth) @ '' ETH / '' @ print_lf env (d_mult env n xmr) @ '' XMR / '' @
     print_2lf env (d_mult env n usd) @ '' USD / '' @ print_2lf env (d_mult env n cad) @ '' CAD''"

text \<open>The answer for the symbol that was asked for, from the response.\<close>

definition crypto_answer :: "web_env \<Rightarrow> string \<Rightarrow> string \<Rightarrow> string \<Rightarrow> buffer \<Rightarrow> handler_result" where
  "crypto_answer env symb where' args chunk =
     (let (r, toks) = jsmn_parse env (buf_memory chunk) (buf_size chunk) in
      if r < 0 then Inr []
      else if r < 1 then Inr []
      else
        and_then (tok_at toks 0)
          (\<lambda>t0.
             if \<not> tok_object t0 then Inr []
             else
               and_then (price_at env (buf_memory chunk) toks 2)
                 (\<lambda>btc. and_then (price_at env (buf_memory chunk) toks 4)
                    (\<lambda>eth. and_then (price_at env (buf_memory chunk) toks 6)
                       (\<lambda>xmr. and_then (price_at env (buf_memory chunk) toks 8)
                          (\<lambda>usd. and_then (price_at env (buf_memory chunk) toks 10)
                             (\<lambda>cad. Inr [Msgva where' (crypto_line env symb (request_amnt env args) btc eth xmr usd cad)])))))))"

definition crypto_handle_cmd :: "web_env \<Rightarrow> string \<Rightarrow> string \<Rightarrow> string \<Rightarrow> handler_result" where
  "crypto_handle_cmd env cmdname where' args =
     and_then (crypto_symbol cmdname)
       (\<lambda>symb. and_then (crypto_url symb)
          (\<lambda>url. and_then (send_http_request env url)
             (\<lambda>res.
                case res of
                  None \<Rightarrow> Inr [Msg where' ''Error fetching price information.'']
                | Some chunk \<Rightarrow> crypto_answer env symb where' args chunk)))"

section \<open>Appending to the array\<close>

text \<open>The array holds a text; a step adds a text to it, or overflows the array exactly when the text does not fit.\<close>

definition holds_text :: "char list \<Rightarrow> string \<Rightarrow> bool" where
  "holds_text url d \<longleftrightarrow> length url = 512 \<and> c_string_at url 0 = Inr d"

definition adds :: "string \<Rightarrow> string \<Rightarrow> fault + char list \<Rightarrow> bool" where
  "adds d s r \<longleftrightarrow> (if length d + length s < 512 then \<exists>url. r = Inr url \<and> holds_text url (d @ s) else r = Inl Out_Of_Bounds)"

lemma c_string_at_take:
  assumes "c_string_at buf 0 = Inr d"
  shows "take (length d) buf = d" and "length d < length buf" and "c_str d"
proof -
  have d: "d = takeWhile (\<lambda>c. c \<noteq> NUL) buf" using assms by (auto simp: c_string_at_def split: if_splits)
  show "take (length d) buf = d" unfolding d by (rule takeWhile_eq_take [symmetric])
  show "length d < length buf" using c_string_at_length [OF assms] by simp
  show "c_str d" using assms by (rule c_string_at_c_str)
qed

lemma adds_nothing: "holds_text url d \<Longrightarrow> adds d [] (Inr url)"
  using c_string_at_take(2) [of url d] by (auto simp: adds_def holds_text_def)

lemma adds_strncat:
  assumes "holds_text url d" and "c_str s" and "length s \<le> n"
  shows "adds d s (strncat url s n)"
proof -
  have url: "length url = 512" "c_string_at url 0 = Inr d" using assms(1) by (auto simp: holds_text_def)
  note d = c_string_at_take [OF url(2)]
  have cat: "strncat url s n = arr_blit url (int (length d)) (s @ [NUL])" using assms(3) url(2) by (simp add: strncat_def)
  show ?thesis
  proof (cases "length d + length s < 512")
    case True
    let ?url = "d @ s @ NUL # drop (length d + length s + 1) url"
    have "strncat url s n = Inr ?url" using cat True url(1) d(1) by (simp add: arr_blit_def)
    moreover have "c_string_at ?url 0 = Inr (d @ s)"
      using c_string_at_0 [of "d @ s" "drop (length d + length s + 1) url"] d(3) assms(2) by simp
    ultimately show ?thesis using True url(1) by (auto simp: adds_def holds_text_def)
  next
    case False
    then show ?thesis using cat url(1) by (simp add: adds_def arr_blit_def)
  qed
qed

lemma adds_then:
  assumes "adds d s r" and "\<And>url. holds_text url (d @ s) \<Longrightarrow> adds (d @ s) s' (k url)"
  shows "adds d (s @ s') (and_then r k)"
proof (cases "length d + length s < 512")
  case True
  with assms(1) obtain url where "r = Inr url" "holds_text url (d @ s)" by (auto simp: adds_def)
  with assms(2) [of url] show ?thesis unfolding adds_def by (auto split: if_splits)
next
  case False
  with assms(1) show ?thesis by (simp add: adds_def)
qed

section \<open>The text of bot_geoip\<close>

text \<open>The text of a token, as jsmn reports it.\<close>

definition tok_text :: "char list \<Rightarrow> jsmntok \<Rightarrow> string \<Rightarrow> bool" where
  "tok_text mem t s \<longleftrightarrow> tok_end t = tok_start t + length s \<and> tok_end t < length mem \<and> take (length s) (drop (tok_start t) mem) = s"

lemma tok_text_size: "tok_text mem t s \<Longrightarrow> tok_size t = length s"
  by (simp add: tok_text_def tok_size_def)

lemma tok_text_drop:
  assumes "tok_text mem t s"
  obtains rest where "drop (tok_start t) mem = s @ rest"
proof -
  have "drop (tok_start t) mem = take (length s) (drop (tok_start t) mem) @ drop (length s) (drop (tok_start t) mem)"
    by (rule append_take_drop_id [symmetric])
  also have "take (length s) (drop (tok_start t) mem) = s" using assms by (simp add: tok_text_def)
  finally show ?thesis by (rule that)
qed

lemma strn_at_text: "tok_text mem t s \<Longrightarrow> c_str s \<Longrightarrow> strn_at mem (tok_start t) (tok_size t) = Inr s"
  by (auto simp: strn_at_def tok_text_size c_str_def takeWhile_eq_all_conv) (auto simp: tok_text_def c_str_def takeWhile_eq_all_conv)

lemma strncmp_at_prefix: "c_str key \<Longrightarrow> strncmp_at lit (key @ rest) (length key) = Inr (prefix key lit)"
proof (induction key arbitrary: lit)
  case (Cons c key)
  then show ?case by (cases lit) auto
qed simp

lemma is_key_prefix:
  assumes "tok_text mem t key" and "c_str key"
  shows "is_key lit mem t = Inr (prefix key lit)"
proof -
  obtain rest where "drop (tok_start t) mem = key @ rest" using assms(1) by (rule tok_text_drop)
  with assms show ?thesis by (simp add: is_key_def tok_text_size strncmp_at_prefix)
qed

definition label_text :: "string \<Rightarrow> string" where
  "label_text key =
     (if prefix key ''region'' \<or> prefix key ''country'' then []
      else if prefix key ''city'' then CHR 0x02 # ''Location'' @ CHR 0x0F # '': ''
      else if prefix key ''loc'' then CHR 0x02 # ''Coordinates'' @ CHR 0x0F # '': ''
      else if prefix key ''org'' then CHR 0x02 # ''ISP'' @ CHR 0x0F # '': ''
      else if prefix key ''ip'' then CHR 0x02 # ''IP'' @ CHR 0x0F # '': ''
      else CHR 0x02 # char_of ((of_char (hd key) + 224) mod (256 :: nat)) # tl key @ CHR 0x0F # '': '')"

definition flag_text :: "string \<Rightarrow> string" where
  "flag_text v = takeWhile (\<lambda>c. c \<noteq> NUL)
     [CHR '' '', CHR 0xF0, CHR 0x9F, CHR 0x87, flag_char (v ! 0), CHR 0xF0, CHR 0x9F, CHR 0x87, flag_char (v ! 1)]"

definition pair_text :: "string \<times> string \<Rightarrow> string" where
  "pair_text p =
     label_text (fst p) @ (if snd p = [] then ''[unknown]'' else snd p) @ (if prefix (fst p) ''country'' then flag_text (snd p) else [])"

fun geoip_text :: "(string \<times> string) list \<Rightarrow> string" where
  "geoip_text [] = []"
| "geoip_text [p] = pair_text p"
| "geoip_text (p # q # ps) = pair_text p @ '', '' @ geoip_text (q # ps)"

text \<open>Keys are not empty, do not begin with a space, and a country has two letters.\<close>

definition pair_ok :: "string \<times> string \<Rightarrow> bool" where
  "pair_ok p \<longleftrightarrow> fst p \<noteq> [] \<and> hd (fst p) \<noteq> CHR '' '' \<and> c_str (fst p) \<and> c_str (snd p) \<and>
     (prefix (fst p) ''country'' \<longrightarrow> 2 \<le> length (snd p))"

lemma add_224_wraps: "(n + 224) mod 256 = (0 :: nat) \<Longrightarrow> n < 256 \<Longrightarrow> n = 32"
  by presburger

lemma lower_not_NUL: "c \<noteq> CHR '' '' \<Longrightarrow> char_of ((of_char c + 224) mod (256 :: nat)) \<noteq> NUL"
proof
  assume c: "c \<noteq> CHR '' ''" and "char_of ((of_char c + 224) mod (256 :: nat)) = NUL"
  then have "of_char (char_of ((of_char c + 224) mod (256 :: nat))) = (of_char NUL :: nat)" by simp
  then have "(of_char c + 224) mod 256 = (0 :: nat)" by simp
  then have "of_char c = (of_char (CHR '' '') :: nat)" using add_224_wraps [OF _ nat_of_char_less_256] by simp
  with c show False by (simp only: of_char_eq_iff)
qed

lemma adds_label:
  assumes "holds_text url d" and "tok_text mem t key" and "c_str key" and "key \<noteq> []" and "hd key \<noteq> CHR '' ''"
  shows "adds d (label_text key) (geoip_label mem t url)"
proof (cases "prefix key ''region'' \<or> prefix key ''country'' \<or> prefix key ''city'' \<or> prefix key ''loc'' \<or> prefix key ''org'' \<or> prefix key ''ip''")
  case True
  then show ?thesis
    using adds_nothing [OF assms(1)]
      adds_strncat [OF assms(1), of "CHR 0x02 # ''Location'' @ CHR 0x0F # '': ''" 13]
      adds_strncat [OF assms(1), of "CHR 0x02 # ''Coordinates'' @ CHR 0x0F # '': ''" 16]
      adds_strncat [OF assms(1), of "CHR 0x02 # ''ISP'' @ CHR 0x0F # '': ''" 8]
      adds_strncat [OF assms(1), of "CHR 0x02 # ''IP'' @ CHR 0x0F # '': ''" 7]
    by (auto simp: geoip_label_def label_text_def is_key_prefix [OF assms(2,3)])
next
  case False
  obtain c key' where key: "key = c # key'" using assms(4) by (cases key) auto
  let ?x = "char_of ((of_char c + 224) mod (256 :: nat))"
  let ?mem = "mem[tok_start t := ?x]"
  have st: "tok_start t < length mem" using assms(2) by (simp add: tok_text_def)
  obtain rest where rest: "drop (tok_start t) mem = c # key' @ rest"
    using tok_text_drop [OF assms(2)] by (auto simp: key)
  then have c: "mem ! tok_start t = c" by (rule nth_via_drop)
  have "drop (Suc (tok_start t)) mem = key' @ rest" using rest by (metis drop_Suc list.sel(3) tl_drop)
  then have "drop (tok_start t) ?mem = ?x # key' @ rest" using st by (simp add: upd_conv_take_nth_drop)
  then have "tok_text ?mem t (?x # key')" using assms(2) by (simp add: tok_text_def key)
  then have "strn_at ?mem (tok_start t) (tok_size t) = Inr (?x # key')"
    using assms(3,5) lower_not_NUL [of c] by (intro strn_at_text) (auto simp: key)
  then have run: "geoip_label mem t url = and_then (strncat url [CHR 0x02] 2)
      (\<lambda>url. and_then (strncat url (?x # key') (tok_size t)) (\<lambda>url. strncat url (CHR 0x0F # '': '') 4))"
    using False st c
    by (simp add: geoip_label_def is_key_prefix [OF assms(2,3)] add.commute [of "224 :: nat" "of_char c"])
  have "adds d ([CHR 0x02] @ (?x # key') @ (CHR 0x0F # '': '')) (geoip_label mem t url)"
    unfolding run using assms(1,3,5) tok_text_size [OF assms(2)] lower_not_NUL [of c]
    by (intro adds_then adds_strncat) (auto simp: key)
  moreover have "label_text key = CHR 0x02 # char_of ((of_char (hd key) + 224) mod (256 :: nat)) # tl key @ CHR 0x0F # '': ''"
    using False by (simp add: label_text_def)
  ultimately show ?thesis by (simp add: key)
qed

lemma adds_value:
  assumes "holds_text url d" and "tok_text mem t v" and "c_str v"
  shows "adds d (if v = [] then ''[unknown]'' else v) (geoip_value mem t url)"
proof (cases "v = []")
  case True
  then show ?thesis using assms(2) adds_strncat [OF assms(1), of "''[unknown]''" 10]
    by (simp add: geoip_value_def tok_text_def)
next
  case False
  then have "geoip_value mem t url = strncat url v (tok_size t)"
    using assms(2,3) by (simp add: geoip_value_def strn_at_text [OF assms(2,3)]) (simp add: tok_text_def)
  then show ?thesis using False adds_strncat [OF assms(1,3), of "tok_size t"] by (simp add: tok_text_size [OF assms(2)])
qed

lemma tok_text_nth:
  assumes "tok_text mem t v" and "i < length v"
  shows "arr_read mem (int (tok_start t + i)) = Inr (v ! i)"
proof -
  obtain rest where rest: "drop (tok_start t) mem = v @ rest" using assms(1) by (rule tok_text_drop)
  have "tok_start t + i < length mem" using assms by (simp add: tok_text_def)
  then have "mem ! (tok_start t + i) = drop (tok_start t) mem ! i" by simp
  also have "\<dots> = v ! i" using assms(2) by (simp add: rest nth_append)
  finally show ?thesis using assms by (subst arr_read_nat) (simp_all add: tok_text_def)
qed

lemma adds_flag:
  assumes "holds_text url d" and "tok_text mem t v" and "2 \<le> length v"
  shows "adds d (flag_text v) (geoip_flag mem t url)"
proof -
  have "c_str (flag_text v)" by (auto simp: flag_text_def c_str_def dest: set_takeWhileD)
  moreover have "length (flag_text v) \<le> 10"
    unfolding flag_text_def by (rule order_trans [OF length_takeWhile_le]) simp
  moreover have "geoip_flag mem t url = strncat url (flag_text v) 10"
    using tok_text_nth [OF assms(2), of 0] tok_text_nth [OF assms(2), of 1] assms(3)
    unfolding geoip_flag_def flag_text_def by (simp only: add_0_right and_then.simps)
  ultimately show ?thesis using adds_strncat [OF assms(1)] by simp
qed

lemma drop_two:
  assumes "drop i toks = t # v # rest"
  shows "tok_at toks i = Inr t" and "tok_at toks (i + 1) = Inr v" and "drop (i + 2) toks = rest" and "i + 2 \<le> length toks"
proof -
  have len: "i + 2 \<le> length toks" using arg_cong [OF assms, of length] by simp
  then show "i + 2 \<le> length toks" .
  have one: "drop (Suc i) toks = v # rest" using assms by (metis drop_Suc list.sel(3) tl_drop)
  show "tok_at toks i = Inr t" using len nth_via_drop [OF assms] by (simp add: tok_at_def)
  show "tok_at toks (i + 1) = Inr v" using len nth_via_drop [OF one] by (simp add: tok_at_def)
  show "drop (i + 2) toks = rest" using one by (metis add_2_eq_Suc' drop_Suc list.sel(3) tl_drop)
qed

lemma adds_item:
  assumes "tok_at toks i = Inr t" and "tok_at toks (i + 1) = Inr v" and "tok_text mem t (fst p)" and "tok_text mem v (snd p)"
    and "pair_ok p" and "holds_text url d"
  shows "adds d (pair_text p @ (if i + 1 < r - 1 then '', '' else [])) (geoip_item mem toks r i url)"
proof -
  have p: "c_str (fst p)" "fst p \<noteq> []" "hd (fst p) \<noteq> CHR '' ''" "c_str (snd p)"
    "prefix (fst p) ''country'' \<Longrightarrow> 2 \<le> length (snd p)" using assms(5) by (auto simp: pair_ok_def)
  let ?shown = "if snd p = [] then ''[unknown]'' else snd p"
  let ?flag = "if prefix (fst p) ''country'' then flag_text (snd p) else []"
  let ?sep = "if i + 1 < r - 1 then '', '' else []"
  have run: "geoip_item mem toks r i url =
    and_then (geoip_label mem t url)
      (\<lambda>url. and_then (geoip_value mem v url)
         (\<lambda>url. and_then (if prefix (fst p) ''country'' then geoip_flag mem v url else Inr url)
            (\<lambda>url. if i + 1 < r - 1 then strncat url '', '' 3 else Inr url)))"
    using assms(1,2) by (simp add: geoip_item_def is_key_prefix [OF assms(3) p(1)])
  have "adds d (label_text (fst p) @ ?shown @ ?flag @ ?sep) (geoip_item mem toks r i url)"
    unfolding run
    by (intro adds_then adds_label adds_value)
      (use assms(3,4,6) p in \<open>auto intro: adds_flag adds_nothing adds_strncat\<close>)
  then show ?thesis by (simp add: pair_text_def)
qed

text \<open>The tokens of an object: key and value in turn.\<close>

definition tok_pair :: "char list \<Rightarrow> jsmntok \<times> jsmntok \<Rightarrow> string \<times> string \<Rightarrow> bool" where
  "tok_pair mem ts p \<longleftrightarrow> tok_text mem (fst ts) (fst p) \<and> tok_text mem (snd ts) (snd p)"

lemma geoip_loop_done: "r \<le> i \<Longrightarrow> geoip_loop mem toks r i url = Inr url"
  by (subst geoip_loop.simps) simp

lemma geoip_loop_adds:
  assumes "list_all2 (tok_pair mem) tps ps" and "drop i toks = concat (map (\<lambda>ts. [fst ts, snd ts]) tps)"
    and "\<forall>p \<in> set ps. pair_ok p" and "holds_text url d" and "i \<le> length toks" and "length toks = r"
  shows "adds d (geoip_text ps) (geoip_loop mem toks r i url)"
  using assms(1-5)
proof (induction ps arbitrary: tps i url d rule: geoip_text.induct)
  case 1
  then have "r \<le> i" using assms(6) by simp
  then show ?case using adds_nothing [OF 1(4)] by (simp add: geoip_loop_done)
next
  case (2 p)
  then obtain ts where tps: "tps = [ts]" and tv: "tok_pair mem ts p" by (auto simp: list_all2_Cons2)
  then have toks: "drop i toks = [fst ts, snd ts]" using 2(2) by simp
  note two = drop_two [OF toks]
  have r: "i + 2 = r" "\<not> i + 1 < r - 1" using two(3,4) assms(6) by auto
  have "adds d (pair_text p @ []) (geoip_item mem toks r i url)"
    using adds_item [OF two(1,2), of mem p url d r] tv 2(3,4) r by (simp add: tok_pair_def)
  then have "adds d (pair_text p @ []) (and_then (geoip_item mem toks r i url) (\<lambda>url. geoip_loop mem toks r (i + 2) url))"
    using r by (intro adds_then) (auto intro: adds_nothing simp: geoip_loop_done)
  then show ?case using r by (subst geoip_loop.simps) simp
next
  case (3 p q ps)
  then obtain ts tps' where tps: "tps = ts # tps'" and tv: "tok_pair mem ts p" and rest: "list_all2 (tok_pair mem) tps' (q # ps)"
    by (auto simp: list_all2_Cons2)
  then have toks: "drop i toks = fst ts # snd ts # concat (map (\<lambda>ts. [fst ts, snd ts]) tps')" using 3(3) by simp
  note two = drop_two [OF toks]
  have "length (concat (map (\<lambda>ts. [fst ts, snd ts]) tps')) \<ge> 2" using rest by (auto simp: list_all2_Cons2)
  then have r: "i + 4 \<le> r" "i + 1 < r - 1" using arg_cong [OF two(3), of length] assms(6) two(4) by auto
  have item: "adds d (pair_text p @ '', '') (geoip_item mem toks r i url)"
    using adds_item [OF two(1,2), of mem p url d r] tv 3(4,5) r by (simp add: tok_pair_def)
  have "adds d ((pair_text p @ '', '') @ geoip_text (q # ps))
      (and_then (geoip_item mem toks r i url) (\<lambda>url. geoip_loop mem toks r (i + 2) url))"
    using item 3(4) two(4) by (intro adds_then 3(1) [OF rest two(3)]) auto
  then show ?case using r by (subst geoip_loop.simps) simp
qed

text \<open>A key that begins with a star breaks the line: the star is 32 above LF.\<close>

lemma geoip_star_key_breaks_line: "label_text (CHR ''*'' # key) = CHR 0x02 # LF # key @ CHR 0x0F # '': ''"
  by (simp add: label_text_def char_of_def bit_0)

section \<open>What the modules answer\<close>

definition geoip_url :: "string \<Rightarrow> string \<Rightarrow> string" where
  "geoip_url api_key ip = take 511 (''http://ipinfo.io/'' @ ip @ ''/json?token='' @ api_key)"

text \<open>
  C18: \<open>handle_cmd\<close> of \<^verbatim>\<open>bot_geoip.c\<close> answers with the pairs of the object the service sends, each with its label and the flag of a country, when
  together they have fewer than 512 characters; otherwise it writes behind its array.
\<close>

theorem geoip_answers_or_overflows:
  assumes "web_memory_ok env" and "512 \<le> length (web_stack env)" and "c_str ip" and "c_str api_key"
    and "geoip_host args = (family, host)" and "resolve env family host = Some ip"
    and "curl_get env (geoip_url api_key ip) = (chunks, True)" and "chunks \<noteq> []"
    and "jsmn_parse env (concat chunks @ [NUL]) (length (concat chunks)) = (int (length toks), toks)"
    and "toks = head_tok # concat (map (\<lambda>ts. [fst ts, snd ts]) tps)" and "tok_object head_tok"
    and "list_all2 (tok_pair (concat chunks @ [NUL])) tps ps" and "\<forall>p \<in> set ps. pair_ok p"
  shows "geoip_handle_cmd env api_key who where' args =
    (if length (geoip_text ps) < 512 then Inr [Msg where' (geoip_text ps)] else Inl Out_Of_Bounds)"
proof -
  let ?s = "''http://ipinfo.io/'' @ ip @ ''/json?token='' @ api_key"
  have cs: "c_str ?s" using assms(3,4) by (simp add: c_str_def)
  from put_url_ok [OF assms(2) _ cs] obtain url where
    url: "put_url env 512 ?s = Inr url" "c_string_at url 0 = Inr (geoip_url api_key ip)" "length url = 512"
    by (auto simp: geoip_url_def)
  have "c_string_at (url[0 := NUL]) 0 = Inr []" using url(3) c_string_at_0 [of "[]"] by (cases url) auto
  then have empty: "holds_text (url[0 := NUL]) []" using url(3) by (simp add: holds_text_def)
  have toks: "drop 1 toks = concat (map (\<lambda>ts. [fst ts, snd ts]) tps)" "1 \<le> length toks" using assms(10) by auto
  from geoip_loop_adds [OF assms(12) toks(1) assms(13) empty toks(2) refl]
  have "adds [] (geoip_text ps) (geoip_loop (concat chunks @ [NUL]) toks (length toks) 1 (url[0 := NUL]))" .
  moreover have "tok_at toks 0 = Inr head_tok" using assms(10) by (simp add: tok_at_def)
  moreover have "arr_write url 0 NUL = Inr (url[0 := NUL])" using url(3) by (simp add: arr_write_def)
  ultimately show ?thesis
    using url send_http_request_ok [OF assms(1,7,8)] assms(5,6,9,11) toks(2)
    by (auto simp: geoip_handle_cmd_def geoip_answer_def adds_def holds_text_def)
qed

definition a_city :: string where
  \<open>a_city = ''{"city":"Ottawa"}''\<close>

theorem geoip_answers_or_overflows_witness:
  "\<forall>who. \<exists>env. geoip_handle_cmd env ''key'' who ''#c'' ''host 4'' =
    (if length (geoip_text [(''city'', ''Ottawa'')]) < 512 then Inr [Msg ''#c'' (geoip_text [(''city'', ''Ottawa'')])]
     else Inl Out_Of_Bounds)"
proof
  fix who :: command_sender
  let ?toks = "[\<lparr>tok_object = True, tok_start = 0, tok_end = 17\<rparr>, \<lparr>tok_object = False, tok_start = 2, tok_end = 6\<rparr>,
    \<lparr>tok_object = False, tok_start = 9, tok_end = 15\<rparr>]"
  let ?env = "quiet_web\<lparr>curl_get := (\<lambda>u. ([a_city], True)), resolve := (\<lambda>f h. Some ''1.2.3.4''),
    jsmn_parse := (\<lambda>m n. (int (length ?toks), ?toks))\<rparr>"
  have env: "web_memory_ok ?env" "512 \<le> length (web_stack ?env)" by (simp_all add: web_memory_ok_def quiet_web_def)
  have "geoip_handle_cmd ?env ''key'' who ''#c'' ''host 4'' =
    (if length (geoip_text [(''city'', ''Ottawa'')]) < 512 then Inr [Msg ''#c'' (geoip_text [(''city'', ''Ottawa'')])]
     else Inl Out_Of_Bounds)"
    by (rule geoip_answers_or_overflows [OF env, where ip = "''1.2.3.4''" and chunks = "[a_city]" and toks = ?toks and
          tps = "[(?toks ! 1, ?toks ! 2)]" and head_tok = "?toks ! 0" and family = AF_INET and host = "''host''"])
      (simp_all add: c_str_def geoip_host_def tok_pair_def tok_text_def a_city_def pair_ok_def)
  then show "\<exists>env. geoip_handle_cmd env ''key'' who ''#c'' ''host 4'' =
    (if length (geoip_text [(''city'', ''Ottawa'')]) < 512 then Inr [Msg ''#c'' (geoip_text [(''city'', ''Ottawa'')])]
     else Inl Out_Of_Bounds)" by blast
qed

text \<open>
  C25: \<open>handle_cmd\<close> of \<^verbatim>\<open>bot_cryptocurrency.c\<close>, called by one of its five names in any mix of cases, asks for that currency and multiplies each of the
  five prices, the texts of tokens 2, 4, 6, 8 and 10, by the amount, which is 1 unless the arguments
  have at least two characters.
\<close>

theorem crypto_answers:
  assumes "web_memory_ok env" and "length cmdname = 3" and "map to_upper cmdname \<in> {''BTC'', ''ETH'', ''XMR'', ''USD'', ''CAD''}"
    and "curl_get env (''https://min-api.cryptocompare.com/data/price?fsym='' @ map to_upper cmdname @ ''&tsyms=BTC,ETH,XMR,USD,CAD'') = (chunks, True)"
    and "chunks \<noteq> []"
    and "jsmn_parse env (concat chunks @ [NUL]) (length (concat chunks)) = (int (length toks), toks)"
    and "10 < length toks" and "tok_object (toks ! 0)"
    and "list_all2 (tok_text (concat chunks @ [NUL])) [toks ! 2, toks ! 4, toks ! 6, toks ! 8, toks ! 10] [btc, eth, xmr, usd, cad]"
    and "\<forall>s \<in> {btc, eth, xmr, usd, cad}. c_str s"
  shows "crypto_handle_cmd env cmdname where' args =
    Inr [Msgva where' (crypto_line env (map to_upper cmdname) (if length args \<le> 1 then 0x3FF0000000000000 else atof env args)
      (atof env btc) (atof env eth) (atof env xmr) (atof env usd) (atof env cad))]"
proof -
  obtain a b c where cmd: "cmdname = [a, b, c]" using assms(2) by (auto simp: length_Suc_conv numeral_3_eq_3)
  have "c_str (map to_upper cmdname)" using assms(3) by (auto simp: c_str_def)
  then have symb: "crypto_symbol cmdname = Inr (map to_upper cmdname)"
    using c_string_at_0 [of "map to_upper cmdname" "[]"] by (simp add: crypto_symbol_def cmd)
  have url: "crypto_url (map to_upper cmdname) =
      Inr (''https://min-api.cryptocompare.com/data/price?fsym='' @ map to_upper cmdname @ ''&tsyms=BTC,ETH,XMR,USD,CAD'')"
    using assms(3) by (auto simp: crypto_url_def)
  have price: "price_at env (concat chunks @ [NUL]) toks i = Inr (atof env s)"
    if "tok_text (concat chunks @ [NUL]) (toks ! i) s" "c_str s" "i \<le> 10" for i s
    using that assms(7) by (simp add: price_at_def tok_at_def strn_at_text)
  have "tok_at toks 0 = Inr (toks ! 0)" "toks \<noteq> []" using assms(7) by (auto simp: tok_at_def)
  then show ?thesis
    using assms(6-10) price [of 2 btc] price [of 4 eth] price [of 6 xmr] price [of 8 usd] price [of 10 cad]
      send_http_request_ok [OF assms(1,4,5)]
    by (simp add: crypto_handle_cmd_def crypto_answer_def symb url request_amnt_def Let_def)
qed

definition some_prices :: string where
  \<open>some_prices = ''{"BTC":1,"ETH":2,"XMR":3,"USD":4,"CAD":5}''\<close>

theorem crypto_answers_witness:
  "\<exists>env. crypto_handle_cmd env ''btc'' ''#c'' [] =
    Inr [Msgva ''#c'' (crypto_line env (map to_upper ''btc'') (if length ([] :: string) \<le> 1 then 0x3FF0000000000000 else atof env [])
      (atof env ''1'') (atof env ''2'') (atof env ''3'') (atof env ''4'') (atof env ''5''))]"
proof -
  let ?t = "\<lambda>a b. \<lparr>tok_object = False, tok_start = a, tok_end = b\<rparr>"
  let ?toks = "[\<lparr>tok_object = True, tok_start = 0, tok_end = 41\<rparr>, ?t 2 5, ?t 7 8, ?t 10 13, ?t 15 16, ?t 18 21, ?t 23 24,
    ?t 26 29, ?t 31 32, ?t 34 37, ?t 39 40]"
  let ?env = "quiet_web\<lparr>curl_get := (\<lambda>u. ([some_prices], True)), jsmn_parse := (\<lambda>m n. (int (length ?toks), ?toks))\<rparr>"
  have up: "to_upper CHR ''b'' = CHR ''B''" "to_upper CHR ''t'' = CHR ''T''" "to_upper CHR ''c'' = CHR ''C''"
    by (simp_all add: to_upper_def signed_char_def Let_def char_of_def bit_0)
  have env: "web_memory_ok ?env" by (simp add: web_memory_ok_def quiet_web_def)
  show ?thesis
    by (rule exI [of _ ?env], rule crypto_answers [OF env, where chunks = "[some_prices]" and toks = ?toks])
      (simp_all add: up c_str_def tok_text_def some_prices_def)
qed

end
