(* ===== verification/Bot_Math.thy ===== *)
theory Bot_Math
  imports Module_Context Command_Tree
begin

text \<open>
  \<^verbatim>\<open>src/modules/bot_math.c\<close>: the variables and the list of functions an expression may use, and the handler
  that hands the expression to the library. The static variable \<open>ans\<close> is passed along.
\<close>

section \<open>Definitions of the source\<close>

definition variable_resolver :: "double \<Rightarrow> string \<Rightarrow> double" where
  "variable_resolver ans name =
     (if name = ''e'' then 0x4005BF0A8B15BFA7
      else if name = ''pi'' then 0x400921FB54411744
      else if name = ''ans'' then ans
      else 0)"

definition func_wl :: "string list" where
  "func_wl =
     [''sin'', ''cos'', ''tan'', ''asin'', ''acos'', ''atan'', ''atan2'', ''exp'', ''exp2'',
      ''exp10'', ''log'', ''log10'', ''log2'', ''logb'', ''pow'', ''sqrt'', ''cbrt'', ''hypot'',
      ''expm1'', ''log1p'', ''sinh'', ''cosh'', ''tanh'', ''asinh'', ''acosh'', ''atanh'', ''erf'',
      ''erfc'', ''lgamma'', ''gamma'', ''tgamma'', ''j0'', ''j1'', ''y0'', ''y1'', ''fabs'', ''fmod'']"

text \<open>The loop over the list up to its null pointer.\<close>

fun check_wl :: "string list \<Rightarrow> string \<Rightarrow> bool" where
  "check_wl [] f = False"
| "check_wl (w # wl) f = (if w = f then True else check_wl wl f)"

definition check_func_wl :: "string \<Rightarrow> bool" where
  "check_func_wl f = check_wl func_wl f"

definition function_resolver :: "leo_env \<Rightarrow> string \<Rightarrow> double list \<Rightarrow> leo_result" where
  "function_resolver leo name argv =
     (if check_func_wl name then run_function leo name argv else (None, Some (ESTR_FUNC_NOT_FOUND leo)))"

text \<open>Printing a null pointer with \<open>%s\<close> is a fault. The result holds the new value of \<open>ans\<close>.\<close>

definition say_error :: "command_sender \<Rightarrow> string \<Rightarrow> string \<Rightarrow> string option \<Rightarrow> handler_result" where
  "say_error who where' what error =
     (case error of None \<Rightarrow> Inl Null_Pointer | Some e \<Rightarrow> Inr [Msgva where' (sender_nick who @ what @ e)])"

definition handle_calc :: "leo_env \<Rightarrow> double \<Rightarrow> command_sender \<Rightarrow> string \<Rightarrow> string \<Rightarrow> double \<times> handler_result" where
  "handle_calc leo ans who where' args =
     (let (q, error) = syard_run leo args in
      if q = 0 then (ans, say_error who where' '': Error parsing expression: '' error)
      else
        (case rpn_calc leo (variable_resolver ans) (function_resolver leo) q error of
           (None, error) \<Rightarrow> (ans, say_error who where' '': Error calculating expression: '' error)
         | (Some r, error) \<Rightarrow> (r, Inr [Msgva where' (sender_nick who @ '': '' @ print_g leo r)])))"

definition math_cmds :: "(string \<times> bot_handler) list" where
  "math_cmds = [(''calc'', Calc_cmd), (''eval'', Calc_cmd)]"

definition math_init :: "nat \<Rightarrow> bot_handler command_tree \<Rightarrow> bot_handler command_tree \<times> int" where
  "math_init mem t = register_list (modules_register_cmd mem) t math_cmds"

definition math_cleanup :: "bot_handler command_tree \<Rightarrow> bot_handler command_tree" where
  "math_cleanup t = unregister_list modules_unregister_cmd t (map fst math_cmds)"

section \<open>Facts\<close>

lemma check_wl_member: "check_wl wl f \<longleftrightarrow> f \<in> set wl"
  by (induction wl) auto

text \<open>Only the functions of the list reach the library, whatever the expression asks for.\<close>

lemma function_resolver_denies:
  "name \<notin> set func_wl \<Longrightarrow> function_resolver leo name argv = (None, Some (ESTR_FUNC_NOT_FOUND leo))"
  by (simp add: function_resolver_def check_func_wl_def check_wl_member)

text \<open>The answer of a calculation is the value of \<open>ans\<close> in the next one; an error keeps the old value.\<close>

lemma handle_calc_remembers:
  assumes "handle_calc leo ans who where' args = (ans', r)"
  shows "variable_resolver ans' ''ans'' = ans \<or> r = Inr [Msgva where' (sender_nick who @ '': '' @ print_g leo (variable_resolver ans' ''ans''))]"
  using assms by (auto simp: handle_calc_def variable_resolver_def Let_def split: prod.splits option.splits if_splits)

end
