(* ===== verification/Bot_Services.thy ===== *)
theory Bot_Services
  imports Bot_Json Bot_Math
begin

text \<open>
  The commands of the modules on libraries (\<^verbatim>\<open>bot_urban\<close>, \<^verbatim>\<open>bot_google\<close>, \<^verbatim>\<open>bot_wolfram\<close>, \<^verbatim>\<open>bot_geoip\<close>,
  \<^verbatim>\<open>bot_cryptocurrency\<close>), and the contract of a handler for them and for \<^verbatim>\<open>bot_math\<close>. All of them only talk. All but
  geoip keep to one line when the libraries bring no line breaks; geoip does not, because it subtracts 32 from the first
  letter of a key.
\<close>

section \<open>Loading\<close>

definition urban_cmds :: "(string \<times> bot_handler) list" where
  "urban_cmds = [(''urban'', Urban_cmd), (''ud'', Urban_cmd)]"

definition urban_init :: "nat \<Rightarrow> bot_handler command_tree \<Rightarrow> bot_handler command_tree \<times> int" where
  "urban_init mem t = register_list (modules_register_cmd mem) t urban_cmds"

definition urban_cleanup :: "bot_handler command_tree \<Rightarrow> bot_handler command_tree" where
  "urban_cleanup t = unregister_list modules_unregister_cmd t [''urban'', ''ud'']"

definition google_cmds :: "(string \<times> bot_handler) list" where
  "google_cmds = [(''trans'', Google_cmd), (''tr'', Google_cmd)]"

definition google_init :: "nat \<Rightarrow> bot_handler command_tree \<Rightarrow> bot_handler command_tree \<times> int" where
  "google_init mem t = register_list (modules_register_cmd mem) t google_cmds"

definition google_cleanup :: "bot_handler command_tree \<Rightarrow> bot_handler command_tree" where
  "google_cleanup t = unregister_list modules_unregister_cmd t [''trans'', ''tr'']"

text \<open>The modules that need a key give up when the environment has none.\<close>

definition wolfram_cmds :: "(string \<times> bot_handler) list" where
  "wolfram_cmds = [(''wolframalpha'', Wolfram_cmd), (''wa'', Wolfram_cmd), (''wolf'', Wolfram_cmd)]"

definition wolfram_init :: "nat \<Rightarrow> string option \<Rightarrow> bot_handler command_tree \<Rightarrow> bot_handler command_tree \<times> int" where
  "wolfram_init mem api_key t =
     (if api_key = None then (t, -1) else register_list (modules_register_cmd mem) t wolfram_cmds)"

definition wolfram_cleanup :: "bot_handler command_tree \<Rightarrow> bot_handler command_tree" where
  "wolfram_cleanup t = unregister_list modules_unregister_cmd t [''wolframalpha'', ''wa'', ''wolf'']"

definition geoip_cmds :: "(string \<times> bot_handler) list" where
  "geoip_cmds = [(''geoip'', Geoip_cmd), (''ip'', Geoip_cmd), (''host'', Geoip_cmd)]"

definition geoip_init :: "nat \<Rightarrow> string option \<Rightarrow> bot_handler command_tree \<Rightarrow> bot_handler command_tree \<times> int" where
  "geoip_init mem api_key t =
     (if api_key = None then (t, -1) else register_list (modules_register_cmd mem) t geoip_cmds)"

definition geoip_cleanup :: "bot_handler command_tree \<Rightarrow> bot_handler command_tree" where
  "geoip_cleanup t = unregister_list modules_unregister_cmd t [''geoip'', ''ip'', ''host'']"

definition crypto_cmds :: "(string \<times> bot_handler) list" where
  "crypto_cmds = [(''BTC'', Crypto_cmd), (''ETH'', Crypto_cmd), (''XMR'', Crypto_cmd), (''USD'', Crypto_cmd), (''CAD'', Crypto_cmd)]"

definition crypto_init :: "nat \<Rightarrow> bot_handler command_tree \<Rightarrow> bot_handler command_tree \<times> int" where
  "crypto_init mem t = register_list (modules_register_cmd mem) t crypto_cmds"

definition crypto_cleanup :: "bot_handler command_tree \<Rightarrow> bot_handler command_tree" where
  "crypto_cleanup t = unregister_list modules_unregister_cmd t [''BTC'', ''ETH'', ''XMR'', ''USD'', ''CAD'']"

section \<open>What a response can bring\<close>

lemma clean_iff: "clean s \<longleftrightarrow> (\<forall>c \<in> set s. c \<noteq> CR \<and> c \<noteq> LF)"
  by (auto simp: clean_def)

lemma web_response_clean:
  assumes "web_clean env" and "send_http_request env u = Inr (Some buf)"
  obtains body junk where "buf_memory buf = body @ junk" and "buf_size buf = length body" and "clean body"
    and "junk = [NUL] \<or> body = [] \<and> length junk \<le> 1"
proof -
  have fresh: "\<forall>n. length (web_fresh env n) = n" and
    chunks: "\<forall>c \<in> set (fst (curl_get env u)). \<forall>x \<in> set c. x \<noteq> CR \<and> x \<noteq> LF"
    using assms(1) by (auto simp: web_clean_def clean_iff)
  from send_http_request_response_ok [OF fresh chunks] assms(2)
  have "response_ok (\<lambda>x. x \<noteq> CR \<and> x \<noteq> LF) buf" by auto
  then show ?thesis unfolding response_ok_def clean_iff [symmetric] by (elim exE conjE) (rule that)
qed

lemma response_string_clean:
  assumes "web_clean env" and "send_http_request env u = Inr (Some buf)" and "c_string_at (buf_memory buf) off = Inr t"
  shows "clean t"
proof -
  obtain body junk where b: "buf_memory buf = body @ junk" "clean body" "junk = [NUL] \<or> body = [] \<and> length junk \<le> 1"
    using assms(1,2) by (elim web_response_clean)
  have t: "set t \<subseteq> set (body @ junk)" "c_str t"
    using c_string_at_set [OF assms(3)] c_string_at_c_str [OF assms(3)] b(1) set_drop_subset by (auto dest: in_set_dropD)
  from b(3) show ?thesis
  proof
    assume "junk = [NUL]"
    with t b(2) show ?thesis by (auto simp: clean_def c_str_def)
  next
    assume j: "body = [] \<and> length junk \<le> 1"
    have "t = []"
    proof (cases junk)
      case (Cons x xs)
      with j assms(3) b(1) show ?thesis by (cases off) (auto simp: c_string_at_def split: if_splits)
    qed (use j t in simp)
    then show ?thesis by simp
  qed
qed

lemma copied_text_clean:
  assumes "web_clean env" and "send_http_request env u = Inr (Some buf)" and "start \<le> buf_size buf" and "0 < buf_size buf"
    and "402 \<le> length url" and "copy_text (buf_memory buf) url start = Inr url'" and "c_string_at url' 0 = Inr t"
  shows "clean t"
proof -
  obtain body junk where b: "buf_memory buf = body @ junk" "buf_size buf = length body" "clean body"
    "junk = [NUL] \<or> body = [] \<and> length junk \<le> 1" using assms(1,2) by (elim web_response_clean)
  then have mem: "buf_memory buf = body @ [NUL]" using assms(4) by auto
  have "start \<le> length (buf_memory buf)" using assms(3) b(2) mem by simp
  from copy_text_refines [OF assms(5) this] assms(6) obtain s junk' where
    s: "json_text [] (drop start (buf_memory buf)) = Some s" "url' = s @ NUL # junk'"
    by (auto split: option.splits)
  have "set s \<subseteq> insert (CHR '' '') (set (body @ [NUL]))"
    using json_text_set [OF s(1)] set_drop_subset [of start "buf_memory buf"] unfolding mem by auto
  then have "clean s" using b(3) by (auto simp: clean_def)
  moreover have "set t \<subseteq> set s" using assms(7) unfolding s(2) c_string_at_NUL by (auto dest: set_takeWhileD)
  ultimately show ?thesis by (auto simp: clean_def)
qed

lemma put_url_length: "put_url env room s = Inr url \<Longrightarrow> room \<le> length (web_stack env) \<Longrightarrow> length url = room"
  by (auto simp: put_url_def dest: arr_blit_length)

section \<open>The contract\<close>

text \<open>Every call of a web module is a message to the place of the command.\<close>

definition says_clean :: "string \<Rightarrow> core_call \<Rightarrow> bool" where
  "says_clean where' c \<longleftrightarrow> (\<exists>t. clean t \<and> (c = Msg where' t \<or> c = Msgva where' t))"

lemma says_clean_single_line: "says_clean where' c \<Longrightarrow> clean where' \<Longrightarrow> single_line c"
  by (auto simp: says_clean_def)

lemma web_clean_stack: "web_clean env \<Longrightarrow> 1024 \<le> length (web_stack env)"
  by (simp add: web_clean_def)

lemma urban_says_clean:
  assumes "web_clean env" and "clean args" and "urban_handle_cmd env where' args = Inr calls" and "c \<in> set calls"
  shows "says_clean where' c"
proof -
  from assms(3) obtain s url u res where
    url: "put_url env 512 s = Inr url" and res: "send_http_request env u = Inr res" and
    calls: "(case res of
       None \<Rightarrow> Inr [Msg where' ''Error calling Urban Dictionary API.'']
     | Some buf \<Rightarrow>
         if buf_size buf < 25 then Inr [Msgva where' ''No definition found.'']
         else and_then (copy_text (buf_memory buf) url 24)
           (\<lambda>url. and_then (c_string_at url 0) (\<lambda>t. Inr [Msgva where' (CHR 0x02 # args @ CHR 0x0F # '': '' @ t)]))) = Inr calls"
    by (auto simp: urban_handle_cmd_def and_then_Inr_iff)
  have len: "402 \<le> length url" using put_url_length [OF url] web_clean_stack [OF assms(1)] by simp
  show ?thesis
  proof (cases res)
    case None
    with calls assms(4) show ?thesis by (auto simp: says_clean_def)
  next
    case (Some buf)
    show ?thesis
    proof (cases "buf_size buf < 25")
      case True
      with calls Some assms(4) show ?thesis by (auto simp: says_clean_def)
    next
      case False
      with calls Some obtain url' t where t: "copy_text (buf_memory buf) url 24 = Inr url'" "c_string_at url' 0 = Inr t"
        "calls = [Msgva where' (CHR 0x02 # args @ CHR 0x0F # '': '' @ t)]" by (auto simp: and_then_Inr_iff)
      have "clean t" using False res Some by (intro copied_text_clean [OF assms(1) _ _ _ len t(1,2)]) auto
      with t(3) assms(2,4) show ?thesis by (auto simp: says_clean_def)
    qed
  qed
qed

lemma detected_lang_clean:
  assumes "web_clean env" and "send_http_request env u = Inr (Some buf)" and "detected_lang (buf_memory buf) n = Inr lang"
  shows "clean lang"
proof -
  from assms(3) obtain i s k where "c_string_at (buf_memory buf) i = Inr s" "lang = take k s"
    by (auto simp: detected_lang_def and_then_Inr_iff split: option.splits)
  with response_string_clean [OF assms(1,2)] show ?thesis by (simp add: clean_take)
qed

lemma google_langs_clean:
  "clean args \<Longrightarrow> google_langs args = (orig_lang, dest_lang, rest) \<Longrightarrow> clean dest_lang \<and> (\<forall>l. orig_lang = Some l \<longrightarrow> clean l)"
  by (auto simp: google_langs_def split: list.splits if_splits)

lemma google_says_clean:
  assumes "web_clean env" and "clean args" and "google_handle_cmd env where' args = Inr calls" and "c \<in> set calls"
  shows "says_clean where' c"
proof -
  obtain orig_lang dest_lang rest where langs: "google_langs args = (orig_lang, dest_lang, rest)" by (cases "google_langs args")
  note lc = google_langs_clean [OF assms(2) langs]
  from assms(3,4) langs obtain s url u res where
    url: "put_url env 1024 s = Inr url" and res: "send_http_request env u = Inr res" and
    calls: "(case res of
       None \<Rightarrow> Inr [Msg where' ''Error fetching translation.'']
     | Some chunk \<Rightarrow>
         if buf_size chunk < 30 then Inr [Msgva where' ''Translation failed.'']
         else and_then (copy_text (buf_memory chunk) url 4)
           (\<lambda>url. and_then (case orig_lang of None \<Rightarrow> detected_lang (buf_memory chunk) (buf_size chunk) | Some l \<Rightarrow> Inr l)
              (\<lambda>lang. and_then (c_string_at url 0)
                 (\<lambda>t. Inr [Msgva where' (lang @ '' to '' @ dest_lang @ '': '' @ t)])))) = Inr calls"
    by (auto simp: google_handle_cmd_def and_then_Inr_iff split: if_splits)
  have len: "402 \<le> length url" using put_url_length [OF url] web_clean_stack [OF assms(1)] by simp
  show ?thesis
  proof (cases res)
    case None
    with calls assms(4) show ?thesis by (auto simp: says_clean_def)
  next
    case (Some buf)
    show ?thesis
    proof (cases "buf_size buf < 30")
      case True
      with calls Some assms(4) show ?thesis by (auto simp: says_clean_def)
    next
      case False
      with calls Some obtain url' lang t where t: "copy_text (buf_memory buf) url 4 = Inr url'" "c_string_at url' 0 = Inr t"
        "(case orig_lang of None \<Rightarrow> detected_lang (buf_memory buf) (buf_size buf) | Some l \<Rightarrow> Inr l) = Inr lang"
        "calls = [Msgva where' (lang @ '' to '' @ dest_lang @ '': '' @ t)]" by (auto simp: and_then_Inr_iff)
      have "clean t" using False res Some by (intro copied_text_clean [OF assms(1) _ _ _ len t(1,2)]) auto
      moreover have "clean lang" using t(3) lc detected_lang_clean [OF assms(1)] res Some by (auto split: option.splits)
      ultimately show ?thesis using t(4) assms(4) lc by (auto simp: says_clean_def)
    qed
  qed
qed

lemma wa_says_clean:
  assumes "web_clean env" and "clean (sender_nick who)" and "wa_handle_cmd env key who where' args = Inr calls" and "c \<in> set calls"
  shows "says_clean where' c"
proof -
  from assms(3) obtain u res where res: "send_http_request env u = Inr res" and
    calls: "(case res of
       None \<Rightarrow> Inr [Msg where' ''Error calling WolframAlpha API.'']
     | Some buf \<Rightarrow> and_then (c_string_at (buf_memory buf) 0) (\<lambda>t. Inr [Msgva where' (sender_nick who @ '': '' @ t)])) = Inr calls"
    by (auto simp: wa_handle_cmd_def and_then_Inr_iff cong: option.case_cong)
  show ?thesis
  proof (cases res)
    case None
    with calls assms(4) show ?thesis by (auto simp: says_clean_def)
  next
    case (Some buf)
    with calls obtain t where t: "c_string_at (buf_memory buf) 0 = Inr t" "calls = [Msgva where' (sender_nick who @ '': '' @ t)]"
      by (auto simp: and_then_Inr_iff)
    have "clean t" using response_string_clean [OF assms(1)] res Some t(1) by auto
    with t(2) assms(2,4) show ?thesis by (auto simp: says_clean_def)
  qed
qed

lemma crypto_calls:
  assumes "crypto_handle_cmd env cmdname where' args = Inr calls" and "c \<in> set calls"
  shows "c = Msg where' ''Error fetching price information.'' \<or>
    (\<exists>symb n btc eth xmr usd cad. (\<exists>u. crypto_url symb = Inr u) \<and> c = Msgva where' (crypto_line env symb n btc eth xmr usd cad))"
proof -
  from assms(1) obtain symb u res where symb: "crypto_url symb = Inr u" and
    rest: "(case res of
        None \<Rightarrow> Inr [Msg where' ''Error fetching price information.'']
      | Some chunk \<Rightarrow> crypto_answer env symb where' args chunk) = Inr calls"
    by (auto simp: crypto_handle_cmd_def and_then_Inr_iff)
  show ?thesis
  proof (cases res)
    case None
    with rest assms(2) show ?thesis by auto
  next
    case (Some chunk)
    obtain r toks where "jsmn_parse env (buf_memory chunk) (buf_size chunk) = (r, toks)" by fastforce
    with rest Some assms(2) symb show ?thesis
      by (auto simp: crypto_answer_def and_then_Inr_iff split: if_splits) blast
  qed
qed

lemma crypto_line_clean: "web_clean env \<Longrightarrow> clean symb \<Longrightarrow> clean (crypto_line env symb n btc eth xmr usd cad)"
  by (auto simp: crypto_line_def web_clean_def)

lemma crypto_says_clean:
  assumes "web_clean env" and "crypto_handle_cmd env cmdname where' args = Inr calls" and "c \<in> set calls"
  shows "says_clean where' c"
proof -
  have "clean symb" if "crypto_url symb = Inr u" for symb u
    using that by (auto simp: crypto_url_def split: if_splits)
  with crypto_calls [OF assms(2,3)] crypto_line_clean [OF assms(1)] show ?thesis by (fastforce simp: says_clean_def)
qed

lemma calc_says_clean:
  assumes "leo_clean l" and "clean (sender_nick who)" and "snd (handle_calc l ans who where' args) = Inr calls" and "c \<in> set calls"
  shows "says_clean where' c"
  using assms
  by (auto simp: handle_calc_def say_error_def leo_clean_def says_clean_def Let_def split: prod.splits option.splits if_splits)

interpretation urban: line_handler "\<lambda>ps who. (ps, urban_handle_cmd (web_lib env) where' args)" "clean_call env where' args"
  for env where' args
proof (rule talking_handler)
  show "is_talk c" if "urban_handle_cmd (web_lib env) where' args = Inr calls" "c \<in> set calls" for calls c
    using that by (auto simp: urban_handle_cmd_def and_then_Inr_iff split: option.splits if_splits)
qed (auto simp: clean_call_def libraries_clean_def dest: urban_says_clean says_clean_single_line)

interpretation google: line_handler "\<lambda>ps who. (ps, google_handle_cmd (web_lib env) where' args)" "clean_call env where' args"
  for env where' args
proof (rule talking_handler)
  show "is_talk c" if "google_handle_cmd (web_lib env) where' args = Inr calls" "c \<in> set calls" for calls c
    using that by (auto simp: google_handle_cmd_def and_then_Inr_iff split: prod.splits option.splits if_splits)
qed (auto simp: clean_call_def libraries_clean_def dest: google_says_clean says_clean_single_line)

interpretation wolfram: line_handler "\<lambda>ps who. (ps, wa_handle_cmd (web_lib env) key who where' args)" "clean_call env where' args"
  for env key where' args
proof (rule talking_handler)
  show "is_talk c" if "wa_handle_cmd (web_lib env) key who where' args = Inr calls" "c \<in> set calls" for who calls c
    using that by (auto simp: wa_handle_cmd_def and_then_Inr_iff split: option.splits)
qed (auto simp: clean_call_def libraries_clean_def dest: wa_says_clean says_clean_single_line)

interpretation crypto: line_handler "\<lambda>ps who. (ps, crypto_handle_cmd (web_lib env) cmdname where' args)" "clean_call env where' args"
  for env cmdname where' args
proof (rule talking_handler)
  show "is_talk c" if "crypto_handle_cmd (web_lib env) cmdname where' args = Inr calls" "c \<in> set calls" for calls c
    using that by (auto dest!: crypto_calls)
qed (auto simp: clean_call_def libraries_clean_def dest: crypto_says_clean says_clean_single_line)

interpretation calc: line_handler "\<lambda>ps who. (ps, snd (handle_calc (leo_lib env) ans who where' args))" "clean_call env where' args"
  for env ans where' args
proof (rule talking_handler)
  show "is_talk c" if "snd (handle_calc (leo_lib env) ans who where' args) = Inr calls" "c \<in> set calls" for who calls c
    using that by (auto simp: handle_calc_def say_error_def Let_def split: prod.splits option.splits if_splits)
qed (auto simp: clean_call_def libraries_clean_def dest: calc_says_clean says_clean_single_line)

text \<open>The lines of geoip need not be clean, so its clean input is empty.\<close>

lemma geoip_answer_talks: "geoip_answer env url where' chunk = Inr calls \<Longrightarrow> c \<in> set calls \<Longrightarrow> is_talk c"
  by (cases "jsmn_parse env (buf_memory chunk) (buf_size chunk)")
    (auto simp: geoip_answer_def and_then_Inr_iff split: if_splits)

interpretation geoip: line_handler "\<lambda>ps who. (ps, geoip_handle_cmd (web_lib env) key who where' args)" False
  for env key where' args
proof (rule talking_handler)
  show "is_talk c" if "geoip_handle_cmd (web_lib env) key who where' args = Inr calls" "c \<in> set calls" for who calls c
    using that by (cases "geoip_host args")
      (auto simp: geoip_handle_cmd_def and_then_Inr_iff dest: geoip_answer_talks split: option.splits)
qed simp

end
