(* ===== verification/Bot_System.thy ===== *)
theory Bot_System
  imports Bot_Control Bot_Services Irc_Input Threadpool
begin

text \<open>
  The parts together: a line from the server becomes a message, the message a command with its own
  thread, the thread looks the sender's level up and calls the handler, and the handler's calls go
  out. Threads run concurrently with the reader and with each other; the unit of interleaving is a
  call that holds the permission mutex, which is the only state they share.
\<close>

section \<open>Running a command\<close>

text \<open>The call through the function pointer.\<close>

definition run_handler ::
    "run_env \<Rightarrow> perm_state \<Rightarrow> bot_handler \<Rightarrow> string \<Rightarrow> command_sender \<Rightarrow> string \<Rightarrow> string \<Rightarrow> perm_state \<times> handler_result" where
  "run_handler env ps h cmdname who where' args =
     (case h of
        Misc_help \<Rightarrow> (ps, handle_help who where')
      | Misc_hello \<Rightarrow> (ps, handle_hello where')
      | Fun_cookie \<Rightarrow> (ps, handle_cookie env who where' args)
      | Fun_hug \<Rightarrow> (ps, handle_hug who where' args)
      | Fun_celebrate \<Rightarrow> (ps, handle_celebrate where')
      | Fun_shrug \<Rightarrow> (ps, handle_shrug where')
      | Fun_potato \<Rightarrow> (ps, handle_potato where')
      | Fun_fw \<Rightarrow> (ps, handle_fw env where' args)
      | Perms_cmd \<Rightarrow> perms_handle_cmd env ps cmdname who where' args
      | Admin_reload \<Rightarrow> (ps, handle_reload who where')
      | Admin_cmd \<Rightarrow> (ps, admin_handle_cmd cmdname who where' args)
      | Admin_raw \<Rightarrow> (ps, handle_raw who where' args)
      | Chanop_cmd \<Rightarrow> (ps, chanop_handle_cmd env cmdname who where' args)
      | Urban_cmd \<Rightarrow> (ps, urban_handle_cmd (web_lib env) where' args)
      | Google_cmd \<Rightarrow> (ps, google_handle_cmd (web_lib env) where' args)
      | Wolfram_cmd \<Rightarrow> (ps, wa_handle_cmd (web_lib env) (wolfram_key env) who where' args)
      | Geoip_cmd \<Rightarrow> (ps, geoip_handle_cmd (web_lib env) (geoip_key env) who where' args)
      | Crypto_cmd \<Rightarrow> (ps, crypto_handle_cmd (web_lib env) cmdname where' args)
      | Calc_cmd \<Rightarrow> (ps, snd (handle_calc (leo_lib env) (ans_value env) who where' args)))"

text \<open>
  \<open>threadpool_wrapper_cmd\<close> in two halves, before and behind \<open>permissions_get\<close>; \<open>sender\<close> is the
  uninitialised struct the sender is parsed into.
\<close>

definition thread_check :: "command_sender \<Rightarrow> perm_state \<Rightarrow> 'h cmd_args \<Rightarrow> perm_state \<times> (fault + command_sender)" where
  "thread_check sender ps arg =
     (case c_string_at (arg_block arg) (arg_from arg) of
        Inl f \<Rightarrow> (ps, Inl f)
      | Inr from \<Rightarrow>
          (let who = irc_parsesender sender from in
           case permissions_get ps (sender_host who) of
             (ps, Inl f) \<Rightarrow> (ps, Inl f)
           | (ps, Inr level) \<Rightarrow> (ps, Inr (who\<lparr>permission_level := level\<rparr>))))"

definition thread_run :: "run_env \<Rightarrow> perm_state \<Rightarrow> bot_handler cmd_args \<Rightarrow> command_sender \<Rightarrow> perm_state \<times> handler_result" where
  "thread_run env ps arg who =
     (case (c_string_at (arg_block arg) (arg_cmdname arg), c_string_at (arg_block arg) (arg_where arg),
            c_string_at (arg_block arg) (arg_args arg)) of
        (Inr cmdname, Inr where', Inr args) \<Rightarrow> run_handler env ps (arg_handler arg) cmdname who where' args
      | _ \<Rightarrow> (ps, Inl Out_Of_Bounds))"

definition threadpool_wrapper_cmd ::
    "run_env \<Rightarrow> command_sender \<Rightarrow> perm_state \<Rightarrow> bot_handler cmd_args \<Rightarrow> perm_state \<times> handler_result" where
  "threadpool_wrapper_cmd env sender ps arg =
     (case thread_check sender ps arg of
        (ps, Inl f) \<Rightarrow> (ps, Inl f)
      | (ps, Inr who) \<Rightarrow> thread_run env ps arg who)"

section \<open>The bot as a transition system\<close>

text \<open>\<open>bot_out\<close> lists the calls made so far, each with the sender it was made for.\<close>

record bot =
  bot_cmds :: "bot_handler command_tree"
  bot_pool :: "bot_handler thread threadpool"
  bot_perms :: perm_state
  bot_out :: "(command_sender \<times> core_call) list"

definition set_slot :: "'a threadpool \<Rightarrow> nat \<Rightarrow> 'a \<Rightarrow> 'a threadpool" where
  "set_slot tp n th = tp\<lparr>pool_slots := (pool_slots tp)[n := Some th]\<rparr>"

definition slot_holds :: "'a threadpool \<Rightarrow> nat \<Rightarrow> 'a \<Rightarrow> bool" where
  "slot_holds tp n th \<longleftrightarrow> n < length (pool_slots tp) \<and> pool_slots tp ! n = Some th"

text \<open>
  The operations of the parts above, interleaved; no single function of the source. The messages the reader may deliver are those of \<open>allowed\<close>. A fault in a thread jumps to
  \<open>execution_done\<close>; a blocked call waits.
\<close>

inductive bot_step :: "string \<Rightarrow> (string \<Rightarrow> string \<Rightarrow> string \<Rightarrow> bool) \<Rightarrow> bot \<Rightarrow> bot \<Rightarrow> bool" for cmdprefix allowed where
  receive:
    "allowed user target message \<Longrightarrow> modules_check_cmd cmdprefix (bot_cmds b) user target message = Some q \<Longrightarrow>
     \<forall>m. length (fresh m) = m \<Longrightarrow>
     threadpool_queue_cmd realloc_ok malloc_ok create_ok junk fresh a (bot_pool b)
       (q_handler q) (q_cmdname q) (q_from q) (q_where q) (q_args q) = Inr (pool, started) \<Longrightarrow>
     bot_step cmdprefix allowed b (b\<lparr>bot_pool := pool\<rparr>)"
| check:
    "slot_holds (bot_pool b) n (Cmd_start arg) \<Longrightarrow> thread_check sender (bot_perms b) arg = (ps, Inr who) \<Longrightarrow>
     bot_step cmdprefix allowed b (b\<lparr>bot_perms := ps, bot_pool := set_slot (bot_pool b) n (Cmd_ready arg who)\<rparr>)"
| check_fault:
    "slot_holds (bot_pool b) n (Cmd_start arg) \<Longrightarrow> thread_check sender (bot_perms b) arg = (ps, Inl f) \<Longrightarrow> f \<noteq> Blocked \<Longrightarrow>
     bot_step cmdprefix allowed b (b\<lparr>bot_perms := ps, bot_pool := set_slot (bot_pool b) n (Cmd_done arg)\<rparr>)"
| run:
    "slot_holds (bot_pool b) n (Cmd_ready arg who) \<Longrightarrow> thread_run env (bot_perms b) arg who = (ps, Inr calls) \<Longrightarrow>
     bot_step cmdprefix allowed b (b\<lparr>bot_perms := ps, bot_pool := set_slot (bot_pool b) n (Cmd_done arg),
       bot_out := bot_out b @ map (Pair who) calls\<rparr>)"
| run_fault:
    "slot_holds (bot_pool b) n (Cmd_ready arg who) \<Longrightarrow> thread_run env (bot_perms b) arg who = (ps, Inl f) \<Longrightarrow> f \<noteq> Blocked \<Longrightarrow>
     bot_step cmdprefix allowed b (b\<lparr>bot_perms := ps, bot_pool := set_slot (bot_pool b) n (Cmd_done arg)\<rparr>)"
| leave:
    "slot_holds (bot_pool b) n (Cmd_done arg) \<Longrightarrow> thread_exit (bot_pool b) n = Some pool \<Longrightarrow>
     bot_step cmdprefix allowed b (b\<lparr>bot_pool := pool\<rparr>)"

inductive_cases bot_stepE: "bot_step cmdprefix allowed b b'"

section \<open>Every handler keeps the contract\<close>

lemma line_handler_weaken: "line_handler run P \<Longrightarrow> (Q \<Longrightarrow> P) \<Longrightarrow> line_handler run Q"
  by (simp add: line_handler_def line_handler_axioms_def)

interpretation handler: line_handler "\<lambda>ps who. run_handler env ps h cmdname who where' args"
    "clean_call env where' args \<and> h \<noteq> Geoip_cmd"
  for env h cmdname where' args
  unfolding run_handler_def
  by (cases h; simp only: bot_handler.case;
      rule help_cmd.line_handler_axioms [THEN line_handler_weaken]
        hello.line_handler_axioms [THEN line_handler_weaken]
        cookie.line_handler_axioms [THEN line_handler_weaken]
        hug.line_handler_axioms [THEN line_handler_weaken]
        celebrate.line_handler_axioms [THEN line_handler_weaken]
        shrug.line_handler_axioms [THEN line_handler_weaken]
        potato.line_handler_axioms [THEN line_handler_weaken]
        fw.line_handler_axioms [THEN line_handler_weaken]
        perms.line_handler_axioms [THEN line_handler_weaken]
        reload.line_handler_axioms [THEN line_handler_weaken]
        admin.line_handler_axioms [THEN line_handler_weaken]
        raw.line_handler_axioms [THEN line_handler_weaken]
        chanop.line_handler_axioms [THEN line_handler_weaken]
        urban.line_handler_axioms [THEN line_handler_weaken]
        google.line_handler_axioms [THEN line_handler_weaken]
        wolfram.line_handler_axioms [THEN line_handler_weaken]
        geoip.line_handler_axioms [THEN line_handler_weaken]
        crypto.line_handler_axioms [THEN line_handler_weaken]
        calc.line_handler_axioms [THEN line_handler_weaken];
      simp add: clean_call_def)

section \<open>What a message can turn into\<close>

lemma command_walk_text:
  "command_walk t message n = Some (h, k, args) \<Longrightarrow> \<exists>pre. message = pre @ args"
proof (induction t message n rule: command_walk.induct)
  case (2 ptr n)
  then show ?case by auto
next
  case (3 ptr real message n)
  show ?case
  proof (cases "real = CHR '' ''")
    case True
    with 3 show ?thesis by (auto intro: exI [of _ "[real]"])
  next
    case False
    with 3 obtain pre where "message = pre @ args" by (auto split: option.splits)
    then show ?thesis by (intro exI [of _ "real # pre"]) simp
  qed
qed simp

lemma check_cmd_fields:
  assumes "modules_check_cmd cmdprefix t user target message = Some q"
  shows "q_from q = user \<and> q_where q = target \<and> set (q_cmdname q) \<subseteq> set message \<and> set (q_args q) \<subseteq> set message \<and>
    length (q_args q) \<le> length message"
proof -
  from assms obtain h n args where
    w: "command_walk (Some t) (drop 1 message) 0 = Some (h, n, args)" and
    q: "q = \<lparr>q_handler = h, q_cmdname = take n (drop 1 message), q_from = user, q_where = target, q_args = args\<rparr>"
    by (auto simp: modules_check_cmd_def Let_def split: if_splits)
  from command_walk_text [OF w] obtain pre where pre: "drop 1 message = pre @ args" by auto
  have "set (drop 1 message) \<subseteq> set message" by (rule set_drop_subset)
  moreover have "length args \<le> length message" using arg_cong [OF pre, of length] by simp
  ultimately show ?thesis using q pre by (auto dest: in_set_takeD)
qed

lemma c_str_subset: "c_str s \<Longrightarrow> set t \<subseteq> set s \<Longrightarrow> c_str t"
  by (auto simp: c_str_def)

lemma clean_subset: "clean s \<Longrightarrow> set t \<subseteq> set s \<Longrightarrow> clean t"
  by (auto simp: clean_def)

text \<open>The slots after a command was queued, with and without memory for it.\<close>

lemma queue_cmd_slots:
  assumes "\<forall>m. length (fresh m) = m" and "c_str cmdname" "c_str from" "c_str where'" "c_str args"
    and run: "threadpool_queue_cmd realloc_ok malloc_ok create_ok junk fresh a tp h cmdname from where' args = Inr (tp', started)"
    and th: "Some th \<in> set (pool_slots tp')"
  shows "Some th \<in> set (pool_slots tp) \<or>
    (\<exists>arg. holds_command arg h cmdname from where' args \<and> (th = Cmd_start arg \<or> th = Cmd_orphan arg))"
proof -
  obtain tp1 space where s: "threadpool_queue_findspace realloc_ok junk tp = Inr (tp1, space)"
    using run by (auto simp: threadpool_queue_cmd_def and_then_Inr_iff)
  note old = findspace_members [OF s]
  show ?thesis
  proof (cases space)
    case None
    then show ?thesis using run s old th by (auto simp: threadpool_queue_cmd_def)
  next
    case (Some n)
    obtain arg where arg: "make_cmd_args fresh a n h cmdname from where' args = Inr arg"
      "holds_command arg h cmdname from where' args"
      using make_cmd_args_ok [OF assms(1-5), of a n h] by blast
    define new where "new = (if malloc_ok then Some (if create_ok then Cmd_start arg else Cmd_orphan arg) else None)"
    have "threadpool_queue_cmd realloc_ok malloc_ok create_ok junk fresh a tp h cmdname from where' args =
        and_then (arr_write (pool_slots tp1) (int n) new)
          (\<lambda>cs. Inr (tp1\<lparr>pool_slots := cs\<rparr>, if malloc_ok \<and> create_ok then Some n else None))"
      using s Some arg(1) by (simp add: threadpool_queue_cmd_def new_def)
    then obtain cs where "arr_write (pool_slots tp1) (int n) new = Inr cs" "tp' = tp1\<lparr>pool_slots := cs\<rparr>"
      using run by (cases "arr_write (pool_slots tp1) (int n) new") auto
    then have "set (pool_slots tp') \<subseteq> insert new (set (pool_slots tp1))" using arr_write_members by fastforce
    then show ?thesis using old th arg(2) by (auto simp: new_def split: if_splits)
  qed
qed

lemma set_slot_members: "Some th \<in> set (pool_slots (set_slot tp n th')) \<Longrightarrow> th = th' \<or> Some th \<in> set (pool_slots tp)"
  using set_update_subset_insert [of "pool_slots tp" n "Some th'"] by (auto simp: set_slot_def)

lemma thread_exit_members: "thread_exit tp n = Some tp' \<Longrightarrow> Some th \<in> set (pool_slots tp') \<Longrightarrow> Some th \<in> set (pool_slots tp)"
  using set_update_subset_insert [of "pool_slots tp" n None] by (auto simp: thread_exit_def split: if_splits)

lemma slot_holds_member: "slot_holds tp n th \<Longrightarrow> Some th \<in> set (pool_slots tp)"
  unfolding slot_holds_def by (metis nth_mem)

section \<open>Threads and the contract\<close>

lemma thread_run_permitted:
  assumes "thread_run env ps arg who = (ps', Inr calls)" and "c \<in> set calls"
  shows "permitted (permission_level who) c"
proof -
  from assms(1) obtain cmdname where' args where "run_handler env ps (arg_handler arg) cmdname who where' args = (ps', Inr calls)"
    by (auto simp: thread_run_def split: sum.splits)
  then show ?thesis using assms(2) by (rule handler.run_permitted)
qed

lemma thread_run_stranger:
  assumes "permission_level who < PERMS_HOP"
  shows "fst (thread_run env ps arg who) = ps"
  using handler.run_below_hop [OF assms] by (auto simp: thread_run_def split: sum.splits)

lemma thread_check_sender:
  assumes "perm_ok ps" and "c_string_at (arg_block arg) (arg_from arg) = Inr (n @ ''!'' @ i @ ''@'' @ h)"
    and "CHR ''!'' \<notin> set n" "CHR ''@'' \<notin> set i" "c_str h" "length h \<le> 126"
  shows "\<exists>ps'. thread_check sender ps arg =
      (ps', Inr \<lparr>sender_nick = n, sender_ident = Some i, sender_host = Some h, permission_level = level_of (perm_map ps) h\<rparr>) \<and>
    perm_ok ps' \<and> perm_map ps' = perm_map ps"
proof -
  have "irc_parsesender sender (n @ ''!'' @ i @ ''@'' @ h) = sender\<lparr>sender_nick := n, sender_ident := Some i, sender_host := Some h\<rparr>"
    using assms(3,4) by (simp add: irc_parsesender_def strchr_append Let_def)
  with permissions_get_ok [OF assms(1,5,6)] assms(2) show ?thesis
    by (auto simp: thread_check_def Let_def)
qed

section \<open>Strangers\<close>

text \<open>
  A sender \<open>nick!ident@host\<close> whose host has less than the level of a half-operator, and the fresh
  bot: a table in good order, no commands under way, nothing sent.
\<close>

definition stranger :: "hashmap \<Rightarrow> string \<Rightarrow> bool" where
  "stranger m user \<longleftrightarrow> c_str user \<and> (\<exists>n i h. user = n @ ''!'' @ i @ ''@'' @ h \<and> CHR ''!'' \<notin> set n \<and> CHR ''@'' \<notin> set i \<and>
     length h \<le> 126 \<and> level_of m h < PERMS_HOP)"

definition idle :: "bot \<Rightarrow> bool" where
  "idle b \<longleftrightarrow> perm_ok (bot_perms b) \<and> pool_ok (bot_pool b) \<and> (\<forall>th. Some th \<notin> set (pool_slots (bot_pool b))) \<and> bot_out b = []"

fun thread_harmless :: "hashmap \<Rightarrow> bot_handler thread \<Rightarrow> bool" where
  "thread_harmless m (Cmd_start arg) = (\<exists>user. c_string_at (arg_block arg) (arg_from arg) = Inr user \<and> stranger m user)"
| "thread_harmless m (Cmd_ready arg who) = (permission_level who < PERMS_HOP)"
| "thread_harmless m (Cmd_done arg) = True"
| "thread_harmless m (Cmd_orphan arg) = True"

definition harmless :: "hashmap \<Rightarrow> bot \<Rightarrow> bool" where
  "harmless m b \<longleftrightarrow> perm_ok (bot_perms b) \<and> perm_map (bot_perms b) = m \<and>
     (\<forall>th. Some th \<in> set (pool_slots (bot_pool b)) \<longrightarrow> thread_harmless m th) \<and>
     (\<forall>oc \<in> set (bot_out b). is_talk (snd oc))"

lemma stranger_check:
  assumes "harmless m b" and "slot_holds (bot_pool b) n (Cmd_start arg)"
  shows "\<exists>ps who. thread_check sender (bot_perms b) arg = (ps, Inr who) \<and> permission_level who < PERMS_HOP \<and>
    perm_ok ps \<and> perm_map ps = m"
proof -
  have "thread_harmless m (Cmd_start arg)"
    using slot_holds_member [OF assms(2)] assms(1) unfolding harmless_def by blast
  then obtain n i h where u: "c_string_at (arg_block arg) (arg_from arg) = Inr (n @ ''!'' @ i @ ''@'' @ h)"
    "CHR ''!'' \<notin> set n" "CHR ''@'' \<notin> set i" "c_str h" "length h \<le> 126" "level_of m h < PERMS_HOP"
    by (auto simp: stranger_def)
  have ok: "perm_ok (bot_perms b)" "perm_map (bot_perms b) = m" using assms(1) by (auto simp: harmless_def)
  from thread_check_sender [OF ok(1) u(1-5), of sender] ok(2) u(6) show ?thesis by auto
qed

lemma harmless_step:
  assumes allowed: "\<And>user target message. allowed user target message \<Longrightarrow> stranger m user \<and> c_str target \<and> c_str message"
    and step: "bot_step cmdprefix allowed b b'" and ok: "harmless m b"
  shows "harmless m b'"
  using step
proof (cases rule: bot_step.cases)
  case (receive user target message q fresh realloc_ok malloc_ok create_ok junk a pool started)
  have f: "q_from q = user" "c_str user" "stranger m user" "c_str (q_cmdname q)" "c_str (q_where q)" "c_str (q_args q)"
    using check_cmd_fields [OF receive(3)] allowed [OF receive(2)] by (auto simp: stranger_def intro: c_str_subset)
  from queue_cmd_slots [OF receive(4) f(4) _ f(5,6) receive(5)] f(1,2)
  have "\<And>th. Some th \<in> set (pool_slots pool) \<Longrightarrow> Some th \<in> set (pool_slots (bot_pool b)) \<or>
    (\<exists>arg. holds_command arg (q_handler q) (q_cmdname q) user (q_where q) (q_args q) \<and> (th = Cmd_start arg \<or> th = Cmd_orphan arg))"
    by simp
  with ok f(3) receive(1) show ?thesis by (fastforce simp: harmless_def holds_command_def)
next
  case (check n arg sender ps who)
  with stranger_check [OF ok check(2), of sender] ok show ?thesis
    by (auto simp: harmless_def dest!: set_slot_members)
next
  case (check_fault n arg sender ps f)
  with stranger_check [OF ok check_fault(2), of sender] show ?thesis by auto
next
  case (run n arg who env ps calls)
  from slot_holds_member [OF run(2)] ok have "thread_harmless m (Cmd_ready arg who)" unfolding harmless_def by blast
  then have low: "permission_level who < PERMS_HOP" by simp
  have "ps = bot_perms b" using thread_run_stranger [OF low, of env "bot_perms b" arg] run(3) by simp
  moreover have "\<forall>c \<in> set calls. is_talk c" using thread_run_permitted [OF run(3)] permitted_low [OF low] by blast
  ultimately show ?thesis using ok run(1) by (auto simp: harmless_def dest!: set_slot_members)
next
  case (run_fault n arg who env ps f)
  from slot_holds_member [OF run_fault(2)] ok have "thread_harmless m (Cmd_ready arg who)" unfolding harmless_def by blast
  then have low: "permission_level who < PERMS_HOP" by simp
  have "ps = bot_perms b" using thread_run_stranger [OF low, of env "bot_perms b" arg] run_fault(3) by simp
  then show ?thesis using ok run_fault(1) by (auto simp: harmless_def dest!: set_slot_members)
next
  case (leave n arg pool)
  with ok show ?thesis by (auto simp: harmless_def dest: thread_exit_members)
qed

text \<open>Commands wait for ever once the mutex is lost.\<close>

fun not_running :: "bot_handler thread \<Rightarrow> bool" where
  "not_running (Cmd_ready arg who) = False"
| "not_running th = True"

definition stuck :: "bot \<Rightarrow> bot \<Rightarrow> bool" where
  "stuck b0 b \<longleftrightarrow> perm_locked (bot_perms b) \<and> bot_out b = bot_out b0 \<and> bot_perms b = bot_perms b0 \<and>
     (\<forall>th. Some th \<in> set (pool_slots (bot_pool b)) \<longrightarrow> not_running th)"

lemma thread_check_locked:
  assumes "perm_locked ps" and "thread_check sender ps arg = (ps', r)"
  shows "ps' = ps \<and> (\<exists>f. r = Inl f)"
  using assms by (auto simp: thread_check_def Let_def permissions_get_def split: sum.splits)

lemma stuck_step:
  assumes allowed: "\<And>user target message. allowed user target message \<Longrightarrow> c_str user \<and> c_str target \<and> c_str message"
    and step: "bot_step cmdprefix allowed b b'" and ok: "stuck b0 b"
  shows "stuck b0 b'"
  using step
proof (cases rule: bot_step.cases)
  case (receive user target message q fresh realloc_ok malloc_ok create_ok junk a pool started)
  have f: "c_str (q_cmdname q)" "c_str (q_from q)" "c_str (q_where q)" "c_str (q_args q)"
    using check_cmd_fields [OF receive(3)] allowed [OF receive(2)] by (auto intro: c_str_subset)
  from queue_cmd_slots [OF receive(4) f receive(5)]
  have "\<And>th. Some th \<in> set (pool_slots pool) \<Longrightarrow> Some th \<in> set (pool_slots (bot_pool b)) \<or> not_running th"
    by fastforce
  with ok receive(1) show ?thesis by (auto simp: stuck_def)
next
  case (check n arg sender ps who)
  then show ?thesis using ok thread_check_locked [OF _ check(3)] by (auto simp: stuck_def)
next
  case (check_fault n arg sender ps f)
  then show ?thesis using ok thread_check_locked [OF _ check_fault(3)]
    by (auto simp: stuck_def dest!: set_slot_members)
next
  case (run n arg who env ps calls)
  from slot_holds_member [OF run(2)] ok have "not_running (Cmd_ready arg who)" unfolding stuck_def by blast
  then show ?thesis by simp
next
  case (run_fault n arg who env ps f)
  from slot_holds_member [OF run_fault(2)] ok have "not_running (Cmd_ready arg who)" unfolding stuck_def by blast
  then show ?thesis by simp
next
  case (leave n arg pool)
  with ok show ?thesis by (auto simp: stuck_def dest: thread_exit_members)
qed

text \<open>
  Where a thread comes from. The command of a thread at work was asked for by a message the bot was allowed to get, and the level
  its sender has been given is what \<open>permissions_get\<close> returned for his host in a state in between.
\<close>

definition asked :: "string \<Rightarrow> (string \<Rightarrow> string \<Rightarrow> string \<Rightarrow> bool) \<Rightarrow> bot_handler command_tree \<Rightarrow> bot_handler cmd_args \<Rightarrow> string \<Rightarrow> bool" where
  "asked cmdprefix allowed t arg user \<longleftrightarrow> (\<exists>target message q. allowed user target message \<and>
     modules_check_cmd cmdprefix t user target message = Some q \<and>
     holds_command arg (q_handler q) (q_cmdname q) user (q_where q) (q_args q))"

definition looked_up :: "string \<Rightarrow> (string \<Rightarrow> string \<Rightarrow> string \<Rightarrow> bool) \<Rightarrow> bot \<Rightarrow> bot \<Rightarrow> string \<Rightarrow> command_sender \<Rightarrow> bool" where
  "looked_up cmdprefix allowed b0 b user who \<longleftrightarrow> (\<exists>b1 sender ps level.
     (bot_step cmdprefix allowed)\<^sup>*\<^sup>* b0 b1 \<and> (bot_step cmdprefix allowed)\<^sup>*\<^sup>* b1 b \<and>
     permissions_get (bot_perms b1) (sender_host (irc_parsesender sender user)) = (ps, Inr level) \<and>
     who = (irc_parsesender sender user)\<lparr>permission_level := level\<rparr>)"

fun thread_known :: "string \<Rightarrow> (string \<Rightarrow> string \<Rightarrow> string \<Rightarrow> bool) \<Rightarrow> bot \<Rightarrow> bot \<Rightarrow> bot_handler thread \<Rightarrow> bool" where
  "thread_known cmdprefix allowed b0 b (Cmd_start arg) = (\<exists>user. asked cmdprefix allowed (bot_cmds b0) arg user)"
| "thread_known cmdprefix allowed b0 b (Cmd_ready arg who) =
     (\<exists>user. asked cmdprefix allowed (bot_cmds b0) arg user \<and> looked_up cmdprefix allowed b0 b user who)"
| "thread_known cmdprefix allowed b0 b th = True"

definition call_known :: "string \<Rightarrow> (string \<Rightarrow> string \<Rightarrow> string \<Rightarrow> bool) \<Rightarrow> bot \<Rightarrow> bot \<Rightarrow> command_sender \<times> core_call \<Rightarrow> bool" where
  "call_known cmdprefix allowed b0 b oc \<longleftrightarrow> (\<exists>user arg env ps ps' calls. asked cmdprefix allowed (bot_cmds b0) arg user \<and>
     looked_up cmdprefix allowed b0 b user (fst oc) \<and> thread_run env ps arg (fst oc) = (ps', Inr calls) \<and> snd oc \<in> set calls)"

definition accounted :: "string \<Rightarrow> (string \<Rightarrow> string \<Rightarrow> string \<Rightarrow> bool) \<Rightarrow> bot \<Rightarrow> bot \<Rightarrow> bool" where
  "accounted cmdprefix allowed b0 b \<longleftrightarrow> (bot_step cmdprefix allowed)\<^sup>*\<^sup>* b0 b \<and> bot_cmds b = bot_cmds b0 \<and>
     (\<forall>th. Some th \<in> set (pool_slots (bot_pool b)) \<longrightarrow> thread_known cmdprefix allowed b0 b th) \<and>
     (\<forall>oc \<in> set (bot_out b). call_known cmdprefix allowed b0 b oc)"

lemma looked_up_later:
  "looked_up cmdprefix allowed b0 b user who \<Longrightarrow> bot_step cmdprefix allowed b b' \<Longrightarrow> looked_up cmdprefix allowed b0 b' user who"
  unfolding looked_up_def by (elim exE conjE, intro exI conjI, assumption, rule rtranclp.rtrancl_into_rtrancl) assumption+

lemma thread_known_later:
  "thread_known cmdprefix allowed b0 b th \<Longrightarrow> bot_step cmdprefix allowed b b' \<Longrightarrow> thread_known cmdprefix allowed b0 b' th"
  by (cases th) (auto intro: looked_up_later)

lemma call_known_later:
  "call_known cmdprefix allowed b0 b oc \<Longrightarrow> bot_step cmdprefix allowed b b' \<Longrightarrow> call_known cmdprefix allowed b0 b' oc"
  unfolding call_known_def by (meson looked_up_later)

lemma call_knownI:
  "asked cmdprefix allowed (bot_cmds b0) arg user \<Longrightarrow> looked_up cmdprefix allowed b0 b user who \<Longrightarrow>
   thread_run env ps arg who = (ps', Inr calls) \<Longrightarrow> c \<in> set calls \<Longrightarrow> call_known cmdprefix allowed b0 b (who, c)"
  unfolding call_known_def fst_conv snd_conv by blast

lemma thread_check_looked_up:
  assumes "asked cmdprefix allowed t arg user" and "thread_check sender ps arg = (ps', Inr who)"
  shows "\<exists>level. permissions_get ps (sender_host (irc_parsesender sender user)) = (ps', Inr level) \<and>
    who = (irc_parsesender sender user)\<lparr>permission_level := level\<rparr>"
  using assms by (auto simp: thread_check_def asked_def holds_command_def Let_def split: prod.splits sum.splits)

lemma accounted_step:
  assumes allowed: "\<And>user target message. allowed user target message \<Longrightarrow> c_str user \<and> c_str target \<and> c_str message"
    and step: "bot_step cmdprefix allowed b b'" and ok: "accounted cmdprefix allowed b0 b"
  shows "accounted cmdprefix allowed b0 b'"
proof -
  let ?known = "thread_known cmdprefix allowed b0" and ?call = "call_known cmdprefix allowed b0"
  have reach: "(bot_step cmdprefix allowed)\<^sup>*\<^sup>* b0 b" and tree: "bot_cmds b = bot_cmds b0"
    and threads: "\<And>th. Some th \<in> set (pool_slots (bot_pool b)) \<Longrightarrow> ?known b th" and calls: "\<And>oc. oc \<in> set (bot_out b) \<Longrightarrow> ?call b oc"
    using ok by (auto simp: accounted_def)
  have new: "accounted cmdprefix allowed b0 b'"
    if same: "bot_cmds b' = bot_cmds b" and slots: "\<And>th. Some th \<in> set (pool_slots (bot_pool b')) \<Longrightarrow> Some th \<in> set (pool_slots (bot_pool b)) \<or> ?known b' th"
      and out: "\<And>oc. oc \<in> set (bot_out b') \<Longrightarrow> oc \<in> set (bot_out b) \<or> ?call b' oc"
    unfolding accounted_def
  proof (intro conjI allI impI ballI)
    show "(bot_step cmdprefix allowed)\<^sup>*\<^sup>* b0 b'" using reach step by (rule rtranclp.rtrancl_into_rtrancl)
    show "bot_cmds b' = bot_cmds b0" using same tree by simp
    show "?known b' th" if th: "Some th \<in> set (pool_slots (bot_pool b'))" for th
      using slots [OF th] threads thread_known_later [OF _ step] by blast
    show "?call b' oc" if oc: "oc \<in> set (bot_out b')" for oc
      using out [OF oc] calls call_known_later [OF _ step] by blast
  qed
  show ?thesis
    using step
  proof (cases rule: bot_step.cases)
    case (receive user target message q fresh realloc_ok malloc_ok create_ok junk a pool started)
    have f: "q_from q = user" "c_str user" "c_str (q_cmdname q)" "c_str (q_where q)" "c_str (q_args q)"
      using check_cmd_fields [OF receive(3)] allowed [OF receive(2)] by (auto intro: c_str_subset)
    have "asked cmdprefix allowed (bot_cmds b0) arg user" if "holds_command arg (q_handler q) (q_cmdname q) user (q_where q) (q_args q)" for arg
      using that receive(2,3) tree unfolding asked_def by auto
    then have "Some th \<in> set (pool_slots (bot_pool b)) \<or> ?known b' th" if "Some th \<in> set (pool_slots pool)" for th
      using queue_cmd_slots [OF receive(4) f(3) _ f(4,5) receive(5) that] f(1,2) by fastforce
    with receive(1) show ?thesis by (intro new) simp_all
  next
    case (check n arg sender ps who)
    obtain user where user: "asked cmdprefix allowed (bot_cmds b0) arg user" using threads [OF slot_holds_member [OF check(2)]] by auto
    have "looked_up cmdprefix allowed b0 b' user who"
      using thread_check_looked_up [OF user check(3)] reach step unfolding looked_up_def by blast
    with user have "?known b' (Cmd_ready arg who)" by auto
    with check(1) show ?thesis by (intro new) (auto dest!: set_slot_members)
  next
    case (check_fault n arg sender ps f)
    then show ?thesis by (intro new) (auto dest!: set_slot_members)
  next
    case (run n arg who env ps cs)
    obtain user where user: "asked cmdprefix allowed (bot_cmds b0) arg user" "looked_up cmdprefix allowed b0 b' user who"
      using threads [OF slot_holds_member [OF run(2)]] looked_up_later [OF _ step] by auto
    have "?call b' (who, c)" if "c \<in> set cs" for c by (rule call_knownI [OF user run(3) that])
    with run(1) show ?thesis by (intro new) (auto dest!: set_slot_members)
  next
    case (run_fault n arg who env ps f)
    then show ?thesis by (intro new) (auto dest!: set_slot_members)
  next
    case (leave n arg pool)
    then show ?thesis by (intro new) (auto dest: thread_exit_members)
  qed
qed

lemma accounted_start:
  "bot_out b0 = [] \<Longrightarrow> (\<And>th. Some th \<notin> set (pool_slots (bot_pool b0))) \<Longrightarrow> accounted cmdprefix allowed b0 b0"
  by (simp add: accounted_def)

text \<open>Small concrete states: an empty permission table, a tree with one command, an idle pool.\<close>

lemma empty_table: "perm_ok (perm_state_of empty_map)" "level_of empty_map h = 0"
  by (simp_all add: perm_ok_def perm_state_of_def empty_map_wf level_of_def first_level_def stored_level_def)

lemma one_command: "name_path name \<noteq> None \<Longrightarrow> \<exists>t. cmd_lookup t name = Some h"
proof -
  assume "name_path name \<noteq> None"
  moreover obtain t r where run: "modules_register_cmd (length name) new_node name h = (t, r)" by fastforce
  ultimately have "r = 0" "same_command name name"
    using register_result [OF run] by (auto simp: same_command_def)
  then show ?thesis using cmd_lookup_register [OF tree_wf_new_node run, of name] by auto
qed

definition idle_bot :: "bot_handler command_tree \<Rightarrow> bot" where
  "idle_bot t = \<lparr>bot_cmds = t, bot_pool = \<lparr>pool_slots = [None, None], pool_len = 2, pool_flags = 0\<rparr>,
     bot_perms = perm_state_of empty_map, bot_out = []\<rparr>"

lemma idle_bot_idle: "idle (idle_bot t)"
  by (simp add: idle_def idle_bot_def pool_ok_def empty_table)

definition with_thread :: "bot_handler thread \<Rightarrow> bot" where
  "with_thread th = (idle_bot new_node)\<lparr>bot_pool := \<lparr>pool_slots = [Some th, None], pool_len = 2, pool_flags = 0\<rparr>\<rparr>"

text \<open>A message with a command puts a thread into a slot.\<close>

lemma receive_step:
  assumes "pool_ok (bot_pool b)" and "allowed user target message"
    and "modules_check_cmd cmdprefix (bot_cmds b) user target message = Some q"
    and "c_str (q_cmdname q)" "c_str (q_from q)" "c_str (q_where q)" "c_str (q_args q)"
  obtains pool n arg where "bot_step cmdprefix allowed b (b\<lparr>bot_pool := pool\<rparr>)" and "slot_holds pool n (Cmd_start arg)"
    and "holds_command arg (q_handler q) (q_cmdname q) (q_from q) (q_where q) (q_args q)"
proof -
  have f: "\<forall>m. length (replicate m NUL) = m" by simp
  obtain pool n arg k where run: "threadpool_queue_cmd True True True None (\<lambda>m. replicate m NUL) 64 (bot_pool b)
      (q_handler q) (q_cmdname q) (q_from q) (q_where q) (q_args q) = Inr (pool, Some n)" and ok: "pool_ok pool" "n < pool_len pool"
    and arg: "holds_command arg (q_handler q) (q_cmdname q) (q_from q) (q_where q) (q_args q)"
    and slots: "pool_slots pool = (pool_slots (bot_pool b) @ replicate k None)[n := Some (Cmd_start arg)]"
    using queue_cmd_ok [OF assms(1) f assms(4-7), of None 64 "q_handler q"] by blast
  have "slot_holds pool n (Cmd_start arg)" using ok slots by (simp add: slot_holds_def pool_ok_def)
  moreover have "bot_step cmdprefix allowed b (b\<lparr>bot_pool := pool\<rparr>)" by (rule bot_step.receive [OF _ assms(3) f run]) (rule assms(2))
  ultimately show ?thesis using arg by (intro that)
qed

section \<open>Properties\<close>

text \<open>
  C1: Strangers stay powerless. While every message the bot gets comes from hosts below the level of a
  half-operator, whatever commands with whatever arguments they send and however their threads are
  interleaved, the permission table does not change, its mutex is never lost, and the bot does
  nothing but talk: no join, part, kick, mode change, raw line or signal.
\<close>

theorem strangers_stay_powerless:
  assumes "idle b0" and "(bot_step cmdprefix allowed)\<^sup>*\<^sup>* b0 b"
    and "\<And>user target message. allowed user target message \<Longrightarrow>
      stranger (perm_map (bot_perms b0)) user \<and> c_str target \<and> c_str message"
  shows "perm_map (bot_perms b) = perm_map (bot_perms b0) \<and> \<not> perm_locked (bot_perms b) \<and>
    (\<forall>oc \<in> set (bot_out b). is_talk (snd oc))"
proof -
  have "harmless (perm_map (bot_perms b0)) b0" using assms(1) by (auto simp: idle_def harmless_def)
  with assms(2) have "harmless (perm_map (bot_perms b0)) b"
    by (induction rule: rtranclp_induct) (auto intro: harmless_step [OF assms(3)])
  then show ?thesis by (auto simp: harmless_def perm_ok_def)
qed

theorem strangers_stay_powerless_witness:
  "\<exists>b0 b. idle b0 \<and> b \<noteq> b0 \<and>
    (bot_step '','' (\<lambda>user target message. user = ''joe!j@h'' \<and> target = ''#c'' \<and> message = '',hug x''))\<^sup>*\<^sup>* b0 b \<and>
    \<not> perm_locked (bot_perms b) \<and> (\<forall>oc \<in> set (bot_out b). is_talk (snd oc))"
proof -
  let ?allowed = "\<lambda>user target message. user = ''joe!j@h'' \<and> target = ''#c'' \<and> message = '',hug x''"
  have "name_path ''hug'' \<noteq> None" by (simp add: child_index_def)
  then obtain t where t: "cmd_lookup t ''hug'' = Some Fun_hug" using one_command [of "''hug''" Fun_hug] by blast
  let ?q = "\<lparr>q_handler = Fun_hug, q_cmdname = ''hug'', q_from = ''joe!j@h'', q_where = ''#c'', q_args = ''x''\<rparr>"
  have q: "modules_check_cmd '','' (bot_cmds (idle_bot t)) ''joe!j@h'' ''#c'' '',hug x'' = Some ?q"
    using check_cmd_resolves [of "'',''" "''hug''" "'' x''" "''x''" t "''joe!j@h''" "''#c''"] t by (simp add: idle_bot_def)
  have pool: "pool_ok (bot_pool (idle_bot t))" using idle_bot_idle by (simp add: idle_def)
  obtain pool' n arg where step: "bot_step '','' ?allowed (idle_bot t) ((idle_bot t)\<lparr>bot_pool := pool'\<rparr>)" and slot: "slot_holds pool' n (Cmd_start arg)"
    by (rule receive_step [where allowed = ?allowed, OF pool _ q]) simp_all
  have reach: "(bot_step '','' ?allowed)\<^sup>*\<^sup>* (idle_bot t) ((idle_bot t)\<lparr>bot_pool := pool'\<rparr>)" using step by blast
  have "Some (Cmd_start arg) \<notin> set (pool_slots (bot_pool (idle_bot t)))" by (simp add: idle_bot_def)
  then have neq: "(idle_bot t)\<lparr>bot_pool := pool'\<rparr> \<noteq> idle_bot t" using slot_holds_member [OF slot] by (auto simp: idle_bot_def)
  have str: "stranger (perm_map (bot_perms (idle_bot t))) ''joe!j@h''"
    unfolding stranger_def
    by (intro conjI exI [of _ "''joe''"] exI [of _ "''j''"] exI [of _ "''h''"])
      (simp_all add: idle_bot_def perm_state_of_def empty_table perms_defs)
  from strangers_stay_powerless [OF idle_bot_idle reach] str
  have "\<not> perm_locked (bot_perms ((idle_bot t)\<lparr>bot_pool := pool'\<rparr>))"
    "\<forall>oc \<in> set (bot_out ((idle_bot t)\<lparr>bot_pool := pool'\<rparr>)). is_talk (snd oc)" by auto
  with neq reach idle_bot_idle [of t] show ?thesis by blast
qed

text \<open>
  C2: Every call the bot makes is accounted for, whatever the faults and interleavings were. From a bot without commands under
  way, each call is one the handler makes that a received message resolves to, called with that message's place and arguments; it is made for the
  sender of that message, with the level that \<open>permissions_get\<close> returned for his host in a state after the start, which is the
  level the table has for the host; and that level is high enough for the call.
\<close>

theorem calls_are_authorised:
  assumes start: "bot_out b0 = []" "\<And>th. Some th \<notin> set (pool_slots (bot_pool b0))"
    and reach: "(bot_step cmdprefix allowed)\<^sup>*\<^sup>* b0 b" and out: "(who, c) \<in> set (bot_out b)"
    and texts: "\<And>user target message. allowed user target message \<Longrightarrow> c_str user \<and> c_str target \<and> c_str message"
  shows "\<exists>b1 user target message q sender ps level env ps1 ps2 calls.
    (bot_step cmdprefix allowed)\<^sup>*\<^sup>* b0 b1 \<and> (bot_step cmdprefix allowed)\<^sup>*\<^sup>* b1 b \<and> allowed user target message \<and>
    modules_check_cmd cmdprefix (bot_cmds b0) user target message = Some q \<and>
    permissions_get (bot_perms b1) (sender_host (irc_parsesender sender user)) = (ps, Inr level) \<and>
    who = (irc_parsesender sender user)\<lparr>permission_level := level\<rparr> \<and>
    (perm_ok (bot_perms b1) \<longrightarrow> (\<forall>h. sender_host who = Some h \<longrightarrow> c_str h \<longrightarrow> length h \<le> 126 \<longrightarrow> level = level_of (perm_map (bot_perms b1)) h)) \<and>
    run_handler env ps1 (q_handler q) (q_cmdname q) who (q_where q) (q_args q) = (ps2, Inr calls) \<and> c \<in> set calls \<and>
    permitted level c"
proof -
  have "accounted cmdprefix allowed b0 b"
    using reach
    by (induction rule: rtranclp_induct) (rule accounted_start [OF start], rule accounted_step [OF texts])
  then have "call_known cmdprefix allowed b0 b (who, c)" using out by (auto simp: accounted_def)
  then obtain user arg env ps1 ps2 calls where a: "asked cmdprefix allowed (bot_cmds b0) arg user" "looked_up cmdprefix allowed b0 b user who"
    and run: "thread_run env ps1 arg who = (ps2, Inr calls)" "c \<in> set calls" by (auto simp: call_known_def)
  obtain target message q where q: "allowed user target message" "modules_check_cmd cmdprefix (bot_cmds b0) user target message = Some q"
    "holds_command arg (q_handler q) (q_cmdname q) user (q_where q) (q_args q)" using a(1) by (auto simp: asked_def)
  obtain b1 sender ps level where l: "(bot_step cmdprefix allowed)\<^sup>*\<^sup>* b0 b1" "(bot_step cmdprefix allowed)\<^sup>*\<^sup>* b1 b"
    "permissions_get (bot_perms b1) (sender_host (irc_parsesender sender user)) = (ps, Inr level)"
    "who = (irc_parsesender sender user)\<lparr>permission_level := level\<rparr>" using a(2) unfolding looked_up_def by blast
  have "level = level_of (perm_map (bot_perms b1)) h"
    if "perm_ok (bot_perms b1)" "sender_host who = Some h" "c_str h" "length h \<le> 126" for h
    using permissions_get_ok [OF that(1,3,4)] l(3,4) that(2) by auto
  moreover have "run_handler env ps1 (q_handler q) (q_cmdname q) who (q_where q) (q_args q) = (ps2, Inr calls)"
    using run(1) q(3) by (simp add: thread_run_def holds_command_def)
  moreover have "permitted level c" using thread_run_permitted [OF run] l(4) by simp
  ultimately show ?thesis using q(1,2) l run(2) by blast
qed

theorem calls_are_authorised_witness:
  "\<exists>b0 b who. bot_out b0 = [] \<and> (bot_step '','' (\<lambda>user target message. user = ''boss!b@h'' \<and> target = ''#c'' \<and> message = '',join #x''))\<^sup>*\<^sup>* b0 b \<and>
    (who, Join ''#x'') \<in> set (bot_out b) \<and> PERMS_ADMIN \<le> permission_level who"
proof -
  let ?allowed = "\<lambda>user target message. user = ''boss!b@h'' \<and> target = ''#c'' \<and> message = '',join #x''"
  have "name_path ''join'' \<noteq> None" by (simp add: child_index_def)
  then obtain t where t: "cmd_lookup t ''join'' = Some Admin_cmd" using one_command [of "''join''" Admin_cmd] by blast
  obtain m where m: "hashmap_vals m = (\<lambda>_. [])(''h'' := [50000])" "perm_ok (perm_state_of m)" using one_entry [of "''h''" 50000] by blast
  define b0 where "b0 = (idle_bot t)\<lparr>bot_perms := perm_state_of m\<rparr>"
  have start: "bot_out b0 = []" "Some th \<notin> set (pool_slots (bot_pool b0))" "pool_ok (bot_pool b0)" "bot_cmds b0 = t"
    "bot_perms b0 = perm_state_of m" for th by (simp_all add: b0_def idle_bot_def pool_ok_def)
  let ?q = "\<lparr>q_handler = Admin_cmd, q_cmdname = ''join'', q_from = ''boss!b@h'', q_where = ''#c'', q_args = ''#x''\<rparr>"
  have q: "modules_check_cmd '','' (bot_cmds b0) ''boss!b@h'' ''#c'' '',join #x'' = Some ?q"
    using check_cmd_resolves [of "'',''" "''join''" "'' #x''" "''#x''" t "''boss!b@h''" "''#c''"] t by (simp add: start)
  obtain pool n arg where 1: "bot_step '','' ?allowed b0 (b0\<lparr>bot_pool := pool\<rparr>)" and slot: "slot_holds pool n (Cmd_start arg)"
    and arg: "holds_command arg (q_handler ?q) (q_cmdname ?q) (q_from ?q) (q_where ?q) (q_args ?q)"
    by (rule receive_step [where allowed = ?allowed, OF start(3) _ q]) simp_all
  let ?b1 = "b0\<lparr>bot_pool := pool\<rparr>"
  have level: "level_of m ''h'' = 50000" by (simp add: level_of_def candidates_def stored_level_def m(1))
  have "c_string_at (arg_block arg) (arg_from arg) = Inr (''boss'' @ ''!'' @ ''b'' @ ''@'' @ ''h'')" using arg by (simp add: holds_command_def)
  from thread_check_sender [OF m(2) this, of undefined] obtain ps
    where chk: "thread_check undefined (bot_perms ?b1) arg = (ps, Inr \<lparr>sender_nick = ''boss'', sender_ident = Some ''b'', sender_host = Some ''h'',
      permission_level = 50000\<rparr>)" by (auto simp: start level perm_state_of_def)
  let ?who = "\<lparr>sender_nick = ''boss'', sender_ident = Some ''b'', sender_host = Some ''h'', permission_level = 50000\<rparr>"
  let ?b2 = "?b1\<lparr>bot_perms := ps, bot_pool := set_slot (bot_pool ?b1) n (Cmd_ready arg ?who)\<rparr>"
  have 2: "bot_step '','' ?allowed ?b1 ?b2" using slot by (intro bot_step.check [OF _ chk]) simp
  have run: "thread_run undefined (bot_perms ?b2) arg ?who = (bot_perms ?b2, Inr [Join ''#x''])"
    using arg by (simp add: thread_run_def holds_command_def run_handler_def admin_handle_cmd_def perms_defs)
  have slot2: "slot_holds (bot_pool ?b2) n (Cmd_ready arg ?who)" using slot by (simp add: slot_holds_def set_slot_def)
  let ?b3 = "?b2\<lparr>bot_perms := bot_perms ?b2, bot_pool := set_slot (bot_pool ?b2) n (Cmd_done arg), bot_out := bot_out ?b2 @ map (Pair ?who) [Join ''#x'']\<rparr>"
  have 3: "bot_step '','' ?allowed ?b2 ?b3" by (rule bot_step.run [OF slot2 run])
  have "(bot_step '','' ?allowed)\<^sup>*\<^sup>* b0 ?b1" using 1 by (rule r_into_rtranclp)
  then have "(bot_step '','' ?allowed)\<^sup>*\<^sup>* b0 ?b2" using 2 by (rule rtranclp.rtrancl_into_rtrancl)
  then have reach: "(bot_step '','' ?allowed)\<^sup>*\<^sup>* b0 ?b3" using 3 by (rule rtranclp.rtrancl_into_rtrancl)
  have out: "(?who, Join ''#x'') \<in> set (bot_out ?b3)" by simp
  have texts: "?allowed user target message \<Longrightarrow> c_str user \<and> c_str target \<and> c_str message" for user target message by simp
  have "\<exists>level sender user. ?who = (irc_parsesender sender user)\<lparr>permission_level := level\<rparr> \<and> permitted level (Join ''#x'')"
    using calls_are_authorised [OF start(1,2) reach out texts] by blast
  then obtain level sender user where "?who = (irc_parsesender sender user)\<lparr>permission_level := level\<rparr>" "PERMS_ADMIN \<le> level" by auto
  from arg_cong [OF this(1), of permission_level] this(2) have "PERMS_ADMIN \<le> permission_level ?who" by simp
  with start(1) reach out show ?thesis by blast
qed

text \<open>
  C31: One message from a sender without a host, such as a server name, stops the bot for good: its thread
  dies inside \<open>permissions_get\<close> with the mutex taken, and from then on no message ever gets an
  answer, whoever sends it.
\<close>

theorem hostless_sender_silences_bot:
  assumes "\<not> perm_locked (bot_perms b)" and "pool_ok (bot_pool b)"
    and "\<And>th. Some th \<in> set (pool_slots (bot_pool b)) \<Longrightarrow> not_running th"
    and "slot_holds (bot_pool b) n (Cmd_start arg)" and "c_string_at (arg_block arg) (arg_from arg) = Inr user"
    and "CHR ''!'' \<notin> set user"
    and "\<And>user target message. allowed user target message \<Longrightarrow> c_str user \<and> c_str target \<and> c_str message"
  shows "\<exists>b1. bot_step cmdprefix allowed b b1 \<and> bot_out b1 = bot_out b \<and>
    (\<forall>b2. (bot_step cmdprefix allowed)\<^sup>*\<^sup>* b1 b2 \<longrightarrow> bot_out b2 = bot_out b)"
proof -
  let ?ps = "(bot_perms b)\<lparr>perm_locked := True\<rparr>"
  let ?b1 = "b\<lparr>bot_perms := ?ps, bot_pool := set_slot (bot_pool b) n (Cmd_done arg)\<rparr>"
  have "sender_host (irc_parsesender sender user) = None" for sender
    using assms(6) by (simp add: irc_parsesender_def iffD2 [OF strchr_None])
  then have "thread_check sender (bot_perms b) arg = (?ps, Inl Null_Pointer)" for sender
    using assms(1,5) by (simp add: thread_check_def Let_def permissions_get_def)
  then have step: "bot_step cmdprefix allowed b ?b1"
    by (intro bot_step.check_fault [OF assms(4)]) auto
  have base: "stuck ?b1 ?b1"
    using assms(2,3) by (auto simp: stuck_def dest!: set_slot_members)
  have "stuck ?b1 b2" if "(bot_step cmdprefix allowed)\<^sup>*\<^sup>* ?b1 b2" for b2
    using that by (induction rule: rtranclp_induct) (rule base, rule stuck_step [OF assms(7)])
  then have "bot_out b2 = bot_out b" if "(bot_step cmdprefix allowed)\<^sup>*\<^sup>* ?b1 b2" for b2
    using that by (auto simp: stuck_def)
  with step show ?thesis by (intro exI [of _ ?b1]) simp
qed

theorem hostless_sender_silences_bot_witness:
  "\<exists>b b1. \<not> perm_locked (bot_perms b) \<and>
    bot_step '','' (\<lambda>user target message. c_str user \<and> c_str target \<and> message = '',hug'') b b1 \<and>
    (\<forall>b2. (bot_step '','' (\<lambda>user target message. c_str user \<and> c_str target \<and> message = '',hug''))\<^sup>*\<^sup>* b1 b2 \<longrightarrow> bot_out b2 = [])"
proof -
  let ?allowed = "\<lambda>user target message. c_str user \<and> c_str target \<and> message = '',hug''"
  have f: "\<forall>m. length (replicate m NUL) = m" by simp
  have c: "c_str ''hug''" "c_str ''irc.net''" "c_str ''#c''" "c_str ''x''" by simp_all
  obtain arg where arg: "holds_command arg Fun_hug ''hug'' ''irc.net'' ''#c'' ''x''"
    using make_cmd_args_ok [OF f c, of 64 0 Fun_hug] by blast
  let ?b = "with_thread (Cmd_start arg)"
  have "\<not> perm_locked (bot_perms ?b)" "pool_ok (bot_pool ?b)" "bot_out ?b = []"
    "\<And>th. Some th \<in> set (pool_slots (bot_pool ?b)) \<Longrightarrow> not_running th"
    "slot_holds (bot_pool ?b) 0 (Cmd_start arg)"
    by (auto simp: with_thread_def idle_bot_def perm_state_of_def pool_ok_def slot_holds_def)
  with hostless_sender_silences_bot [of ?b 0 arg "''irc.net''" ?allowed "'',''"] arg show ?thesis
    by (auto simp: holds_command_def)
qed

text \<open>
  C12: The 513-byte mode array of the channel commands is large enough for everything the network can
  send: no command that arrives in a line of at most 510 characters makes their handler fault, with
  any sender, name and command prefix.
\<close>

theorem network_args_fit_mode_buffer:
  assumes "whole_line line" and "Check_cmd user target message \<in> set (line_events line)"
    and "modules_check_cmd cmdprefix t user target message = Some q" and "length (stack_cells env) = 513"
  shows "\<exists>calls. chanop_handle_cmd env (q_cmdname q) who (q_where q) (q_args q) = Inr calls"
proof -
  note ev = line_events_check [OF assms(2)] and q = check_cmd_fields [OF assms(3)]
  have "length (q_args q) \<le> 509" using ev q assms(1) by (auto simp: whole_line_def)
  moreover have "c_str (q_args q)" using ev q assms(1) c_str_subset unfolding whole_line_def by blast
  ultimately show ?thesis
    using mode_text_ok [OF assms(4)]
    by (auto simp: chanop_handle_cmd_def chanop_hop_def chanop_op_def split: option.split)
qed

theorem network_args_fit_mode_buffer_witness:
  "\<exists>(t :: bot_handler command_tree) env q. modules_check_cmd '','' t ''joe!j@h'' ''#c'' '',voice x'' = Some q \<and>
    (\<forall>who. \<exists>calls. chanop_handle_cmd env (q_cmdname q) who (q_where q) (q_args q) = Inr calls)"
proof -
  have "name_path ''voice'' \<noteq> None" by (simp add: child_index_def)
  then obtain t where t: "cmd_lookup t ''voice'' = Some Chanop_cmd" using one_command [of "''voice''" Chanop_cmd] by blast
  let ?q = "\<lparr>q_handler = Chanop_cmd, q_cmdname = ''voice'', q_from = ''joe!j@h'', q_where = ''#c'', q_args = ''x''\<rparr>"
  let ?env = "(quiet_env (replicate 513 NUL))"
  have q: "modules_check_cmd '','' t ''joe!j@h'' ''#c'' '',voice x'' = Some ?q"
    using check_cmd_resolves [of "'',''" "''voice''" "'' x''" "''x''" t "''joe!j@h''" "''#c''"] t by simp
  have line: "whole_line '':joe!j@h PRIVMSG #c :,voice x''" by (simp add: whole_line_def)
  have "Check_cmd ''joe!j@h'' ''#c'' '',voice x'' \<in> set (line_events '':joe!j@h PRIVMSG #c :,voice x'')"
    using line_events_message [of "''joe!j@h''" "''PRIVMSG''" "''#c''" "'',voice x''"]
    by (simp add: strncmp_eq_def target_of_def)
  moreover have "length (stack_cells ?env) = 513" by simp
  ultimately have "\<forall>who. \<exists>calls. chanop_handle_cmd ?env (q_cmdname ?q) who (q_where ?q) (q_args ?q) = Inr calls"
    using network_args_fit_mode_buffer [OF line _ q] by blast
  with q show ?thesis by (intro exI [of _ t] exI [of _ ?env] exI [of _ ?q]) (rule conjI)
qed

text \<open>The handlers that send no request and call no library of their own.\<close>

abbreviation library_handlers :: "bot_handler set" where
  "library_handlers \<equiv> {Urban_cmd, Google_cmd, Wolfram_cmd, Geoip_cmd, Crypto_cmd, Calc_cmd}"

lemma run_handler_library_free:
  assumes "h \<notin> library_handlers"
  shows "run_handler env ps h cmdname who where' args =
    run_handler (env\<lparr>web_lib := quiet_web, leo_lib := quiet_leo\<rparr>) ps h cmdname who where' args"
  using assms
  by (cases h) (simp_all add: run_handler_def handle_cookie_def handle_fw_def perms_handle_cmd_def perms_set_cmd_def
      chanop_handle_cmd_def chanop_hop_def chanop_op_def Let_def split: option.split)

lemma run_handler_injects_nothing:
  assumes "h \<notin> library_handlers" and "length (stack_cells env) = 513" and "clean where'" and "clean args"
    and "clean (sender_nick who)" and run: "run_handler env ps h cmdname who where' args = (ps', Inr calls)"
  shows "count_list (concat (map perform calls)) LF \<le> length calls" and "\<forall>c \<in> set calls. single_line c"
proof -
  let ?env = "env\<lparr>web_lib := quiet_web, leo_lib := quiet_leo\<rparr>"
  have c: "clean_call ?env where' args \<and> h \<noteq> Geoip_cmd"
    using assms(1-4)
    by (simp add: clean_call_def libraries_clean_def web_clean_def leo_clean_def quiet_web_def quiet_leo_def)
  have run': "run_handler ?env ps h cmdname who where' args = (ps', Inr calls)"
    using run run_handler_library_free [OF assms(1)] by simp
  show "count_list (concat (map perform calls)) LF \<le> length calls" "\<forall>c \<in> set calls. single_line c"
    using handler.run_lines_bound [OF c assms(5) run'] handler.run_single_line [OF c assms(5) run'] by blast+
qed

text \<open>
  C11: A sender cannot inject lines. For a message that came in one line, whatever the level of the sender, the
  calls a handler makes put at most one line end on the wire each, at their end, so that nothing the sender wrote
  begins a line of its own. The property is about the handlers that answer by themselves. The six that repeat the
  answer of a service or of a library (urban, google, wolfram, geoip, crypto, calc) are excluded, and nothing is
  assumed of those services: an answer with a line break in it does begin a line of its own
  (\<open>wolfram_answer_injects_line\<close>).
\<close>

theorem network_command_injects_no_line:
  assumes "whole_line line" "clean line" and "Check_cmd user target message \<in> set (line_events line)"
    and "modules_check_cmd cmdprefix t user target message = Some q" and "length (stack_cells env) = 513"
    and "q_handler q \<notin> {Urban_cmd, Google_cmd, Wolfram_cmd, Geoip_cmd, Crypto_cmd, Calc_cmd}"
    and "sender_nick who = sender_nick (irc_parsesender sender user)"
    and "run_handler env ps (q_handler q) (q_cmdname q) who (q_where q) (q_args q) = (ps', Inr calls)"
  shows "count_list (concat (map perform calls)) LF \<le> length calls \<and> (\<forall>c \<in> set calls. LF \<notin> set (butlast (perform c)))"
proof -
  note ev = line_events_check [OF assms(3)] and q = check_cmd_fields [OF assms(4)]
  have w: "clean (q_where q)" "clean (q_args q)" "clean user" using ev q assms(2) clean_subset by blast+
  moreover have "set (sender_nick (irc_parsesender sender user)) \<subseteq> set user"
    by (auto simp: irc_parsesender_def Let_def split: option.splits dest: in_set_takeD)
  ultimately have "clean (sender_nick who)" using assms(7) clean_subset by simp
  then show ?thesis
    using run_handler_injects_nothing [OF assms(6,5) w(1,2) _ assms(8)] by (auto simp: single_line_def)
qed

theorem network_command_injects_no_line_witness:
  "\<exists>t q env who calls. modules_check_cmd '','' t ''joe!j@h'' ''#c'' '',raw x'' = Some q \<and>
    (\<forall>ps. run_handler env ps (q_handler q) (q_cmdname q) who (q_where q) (q_args q) = (ps, Inr calls)) \<and>
    calls = [Raw ''x''] \<and> count_list (concat (map perform calls)) LF \<le> 1"
proof -
  have "name_path ''raw'' \<noteq> None" by (simp add: child_index_def)
  then obtain t where t: "cmd_lookup t ''raw'' = Some Admin_raw" using one_command [of "''raw''" Admin_raw] by blast
  let ?q = "\<lparr>q_handler = Admin_raw, q_cmdname = ''raw'', q_from = ''joe!j@h'', q_where = ''#c'', q_args = ''x''\<rparr>"
  let ?env = "(quiet_env (replicate 513 NUL))"
  let ?who = "\<lparr>sender_nick = ''joe'', sender_ident = Some ''j'', sender_host = Some ''h'', permission_level = 100000\<rparr>"
  have q: "modules_check_cmd '','' t ''joe!j@h'' ''#c'' '',raw x'' = Some ?q"
    using check_cmd_resolves [of "'',''" "''raw''" "'' x''" "''x''" t "''joe!j@h''" "''#c''"] t by simp
  have line: "whole_line '':joe!j@h PRIVMSG #c :,raw x''" "clean '':joe!j@h PRIVMSG #c :,raw x''"
    by (simp_all add: whole_line_def)
  have ev: "Check_cmd ''joe!j@h'' ''#c'' '',raw x'' \<in> set (line_events '':joe!j@h PRIVMSG #c :,raw x'')"
    using line_events_message [of "''joe!j@h''" "''PRIVMSG''" "''#c''" "'',raw x''"]
    by (simp add: strncmp_eq_def target_of_def)
  have run: "run_handler ?env ps (q_handler ?q) (q_cmdname ?q) ?who (q_where ?q) (q_args ?q) = (ps, Inr [Raw ''x''])" for ps
    by (simp add: run_handler_def handle_raw_def perms_defs)
  have "length (stack_cells ?env) = 513" by simp
  moreover have "q_handler ?q \<notin> {Urban_cmd, Google_cmd, Wolfram_cmd, Geoip_cmd, Crypto_cmd, Calc_cmd}" "sender_nick ?who = sender_nick (irc_parsesender ?who ''joe!j@h'')"
    by (simp_all add: irc_parsesender_def)
  moreover note run
  ultimately have "count_list (concat (map perform [Raw ''x''])) LF \<le> 1"
    using network_command_injects_no_line [OF line ev q _ _ _ run] by simp
  with q run show ?thesis
    by (intro exI [of _ t] exI [of _ ?q] exI [of _ ?env] exI [of _ ?who] exI [of _ "[Raw ''x'']"]) blast
qed

lemma line_runs_handler:
  assumes "length buf = 513" and "perm_ok ps" and "\<forall>m. length (fresh m) = m"
    and words: "CHR '' '' \<notin> set nick" "CHR ''!'' \<notin> set nick" "CHR '' '' \<notin> set ident" "CHR ''@'' \<notin> set ident"
      "CHR '' '' \<notin> set host" "length host \<le> 126" "CHR '' '' \<notin> set chan" "CHR '' '' \<notin> set name"
    and line: "whole_line (CHR '':'' # (nick @ ''!'' @ ident @ ''@'' @ host) @ '' PRIVMSG #'' @ chan @ '' :'' @ [p] @ name @ '' '' @ args)"
    and lookup: "cmd_lookup t name = Some h"
  shows "\<exists>q arg ps'.
    irc_loop (irc_start buf) [Bytes (wire [CHR '':'' # (nick @ ''!'' @ ident @ ''@'' @ host) @ '' PRIVMSG #'' @ chan @
        '' :'' @ [p] @ name @ '' '' @ args])] =
      Inr ([Check_cmd (nick @ ''!'' @ ident @ ''@'' @ host) (''#'' @ chan) ([p] @ name @ '' '' @ args)], False) \<and>
    modules_check_cmd [p] t (nick @ ''!'' @ ident @ ''@'' @ host) (''#'' @ chan) ([p] @ name @ '' '' @ args) = Some q \<and>
    make_cmd_args fresh a n (q_handler q) (q_cmdname q) (q_from q) (q_where q) (q_args q) = Inr arg \<and>
    perm_ok ps' \<and> perm_map ps' = perm_map ps \<and>
    threadpool_wrapper_cmd env sender ps arg = run_handler env ps' h name
      \<lparr>sender_nick = nick, sender_ident = Some ident, sender_host = Some host, permission_level = level_of (perm_map ps) host\<rparr>
      (''#'' @ chan) args"
proof -
  let ?user = "nick @ ''!'' @ ident @ ''@'' @ host" and ?msg = "[p] @ name @ '' '' @ args"
  let ?line = "CHR '':'' # ?user @ '' PRIVMSG #'' @ chan @ '' :'' @ ?msg"
  have user: "CHR '' '' \<notin> set ?user" using words by simp
  have c: "c_str ?user" "c_str (''#'' @ chan)" "c_str ?msg" "c_str name" "c_str args" "c_str host"
    using line by (simp_all add: whole_line_def)
  have "line_events (CHR '':'' # ?user @ CHR '' '' # ''PRIVMSG'' @ CHR '' '' # (''#'' @ chan) @ CHR '' '' # CHR '':'' # ?msg)
      = [Check_cmd ?user (target_of (''#'' @ chan) ?user) ?msg]"
    by (rule line_events_message) (use user words in \<open>simp_all add: strncmp_eq_def\<close>)
  then have ev: "line_events ?line = [Check_cmd ?user (''#'' @ chan) ?msg]" by (simp add: target_of_def)
  have "\<forall>bs \<in> set (map wire [[?line]]). c_str bs" using line wire_c_str [of "[?line]"] by auto
  from irc_loop_reads [OF holds_line_start [OF assms(1)] _ this] split_reads_wire [of "[[?line]]"] line ev
  have read: "irc_loop (irc_start buf) [Bytes (wire [?line])] = Inr ([Check_cmd ?user (''#'' @ chan) ?msg], False)" by simp
  have q: "modules_check_cmd [p] t ?user (''#'' @ chan) ?msg = Some \<lparr>q_handler = h, q_cmdname = name, q_from = ?user,
      q_where = ''#'' @ chan, q_args = args\<rparr>"
    using check_cmd_resolves [of "[p]" name "'' '' @ args" args t ?user "''#'' @ chan"] words(8) lookup by simp
  obtain arg where arg: "make_cmd_args fresh a n h name ?user (''#'' @ chan) args = Inr arg"
    and holds: "holds_command arg h name ?user (''#'' @ chan) args"
    using make_cmd_args_ok [OF assms(3) c(4,1,2,5), of a n h] by blast
  have from_eq: "c_string_at (arg_block arg) (arg_from arg) = Inr ?user" using holds by (simp add: holds_command_def)
  obtain ps' where ps': "thread_check sender ps arg =
      (ps', Inr \<lparr>sender_nick = nick, sender_ident = Some ident, sender_host = Some host, permission_level = level_of (perm_map ps) host\<rparr>)"
    "perm_ok ps'" "perm_map ps' = perm_map ps"
    using thread_check_sender [OF assms(2) from_eq words(2,4) c(6) words(6), of sender] by blast
  have "threadpool_wrapper_cmd env sender ps arg = run_handler env ps' h name
      \<lparr>sender_nick = nick, sender_ident = Some ident, sender_host = Some host, permission_level = level_of (perm_map ps) host\<rparr>
      (''#'' @ chan) args"
    using ps'(1) holds by (simp add: threadpool_wrapper_cmd_def thread_run_def holds_command_def)
  with read q arg ps'(2,3) show ?thesis
    by (intro exI [of _ "\<lparr>q_handler = h, q_cmdname = name, q_from = ?user, q_where = ''#'' @ chan, q_args = args\<rparr>"]
        exI [of _ arg] exI [of _ ps']) simp
qed

text \<open>
  C4: From the wire to the handler. A channel message that holds the one-character prefix, a registered name and
  arguments, sent by \<open>nick!ident@host\<close> in one line, is read, resolved and handed to a thread, which runs
  exactly the handler the name resolves to, with the name as typed, the channel, everything behind
  the first space, and the sender with the level the permission table gives the host.
\<close>

theorem command_line_runs_handler:
  assumes "length buf = 513" and "perm_ok ps" and "\<forall>m. length (fresh m) = m"
    and words: "CHR '' '' \<notin> set nick" "CHR ''!'' \<notin> set nick" "CHR '' '' \<notin> set ident" "CHR ''@'' \<notin> set ident"
      "CHR '' '' \<notin> set host" "length host \<le> 126" "CHR '' '' \<notin> set chan" "CHR '' '' \<notin> set name"
    and line: "whole_line (CHR '':'' # (nick @ ''!'' @ ident @ ''@'' @ host) @ '' PRIVMSG #'' @ chan @ '' :'' @ [p] @ name @ '' '' @ args)"
    and lookup: "cmd_lookup t name = Some h"
  shows "\<exists>q arg ps'.
    irc_loop (irc_start buf) [Bytes (wire [CHR '':'' # (nick @ ''!'' @ ident @ ''@'' @ host) @ '' PRIVMSG #'' @ chan @
        '' :'' @ [p] @ name @ '' '' @ args])] =
      Inr ([Check_cmd (nick @ ''!'' @ ident @ ''@'' @ host) (''#'' @ chan) ([p] @ name @ '' '' @ args)], False) \<and>
    modules_check_cmd [p] t (nick @ ''!'' @ ident @ ''@'' @ host) (''#'' @ chan) ([p] @ name @ '' '' @ args) = Some q \<and>
    make_cmd_args fresh a n (q_handler q) (q_cmdname q) (q_from q) (q_where q) (q_args q) = Inr arg \<and>
    perm_ok ps' \<and> perm_map ps' = perm_map ps \<and>
    threadpool_wrapper_cmd env sender ps arg = run_handler env ps' h name
      \<lparr>sender_nick = nick, sender_ident = Some ident, sender_host = Some host, permission_level = level_of (perm_map ps) host\<rparr>
      (''#'' @ chan) args"
  by (rule line_runs_handler [OF assms])

theorem command_line_runs_handler_witness:
  "\<exists>t q arg ps ps'. irc_loop (irc_start (replicate 513 NUL)) [Bytes (wire ['':joe!j@h PRIVMSG #c :,Hug x''])] =
      Inr ([Check_cmd ''joe!j@h'' ''#c'' '',Hug x''], False) \<and>
    modules_check_cmd '','' t ''joe!j@h'' ''#c'' '',Hug x'' = Some q \<and>
    make_cmd_args (\<lambda>m. replicate m NUL) 64 0 (q_handler q) (q_cmdname q) (q_from q) (q_where q) (q_args q) = Inr arg \<and>
    threadpool_wrapper_cmd undefined undefined ps arg = (ps', Inr [Msgva ''#c'' (CHR 0x01 # ''ACTION hugs x'' @ [CHR 0x01])])"
proof -
  have "name_path ''Hug'' \<noteq> None" by (simp add: child_index_def)
  then obtain t where t: "cmd_lookup t ''Hug'' = Some Fun_hug" using one_command [of "''Hug''" Fun_hug] by blast
  let ?ps = "perm_state_of empty_map" and ?fresh = "\<lambda>m. replicate m NUL"
  have b: "length (replicate 513 NUL) = 513" and f: "\<forall>m. length (?fresh m) = m" by simp_all
  have w: "CHR '' '' \<notin> set ''joe''" "CHR ''!'' \<notin> set ''joe''" "CHR '' '' \<notin> set ''j''" "CHR ''@'' \<notin> set ''j''"
      "CHR '' '' \<notin> set ''h''" "length ''h'' \<le> 126" "CHR '' '' \<notin> set ''c''" "CHR '' '' \<notin> set ''Hug''" by simp_all
  have line: "whole_line (CHR '':'' # (''joe'' @ ''!'' @ ''j'' @ ''@'' @ ''h'') @ '' PRIVMSG #'' @ ''c'' @ '' :'' @ '','' @ ''Hug'' @ '' '' @ ''x'')"
    by (simp add: whole_line_def)
  have hug: "run_handler env ps Fun_hug ''Hug'' who ''#c'' ''x'' =
      (ps, Inr [Msgva ''#c'' (CHR 0x01 # ''ACTION hugs x'' @ [CHR 0x01])])" for env ps who
    by (simp add: run_handler_def handle_hug_def)
  note end_to_end = command_line_runs_handler [OF b empty_table(1) f w line t, where n = 0 and a = 64 and sender = undefined]
  from end_to_end [of undefined] obtain q arg ps' where
    "irc_loop (irc_start (replicate 513 NUL)) [Bytes (wire ['':joe!j@h PRIVMSG #c :,Hug x''])] =
      Inr ([Check_cmd ''joe!j@h'' ''#c'' '',Hug x''], False)"
    "modules_check_cmd '','' t ''joe!j@h'' ''#c'' '',Hug x'' = Some q"
    "make_cmd_args ?fresh 64 0 (q_handler q) (q_cmdname q) (q_from q) (q_where q) (q_args q) = Inr arg"
    "threadpool_wrapper_cmd undefined undefined ?ps arg = (ps', Inr [Msgva ''#c'' (CHR 0x01 # ''ACTION hugs x'' @ [CHR 0x01])])"
    by (auto simp: hug)
  then show ?thesis by blast
qed

end
