(* ===== verification/Module_Catalogue.thy ===== *)
theory Module_Catalogue
  imports Bot_System Module_Loader "HOL-Library.Multiset"
begin

text \<open>
  All modules of the repository under the contract \<open>command_module\<close> of the loader, and the commands they register
  together.
\<close>

section \<open>The modules\<close>

interpretation misc_module: command_module "misc_init mem" misc_cleanup misc_cmds mem for mem
  by unfold_locales (simp_all add: misc_init_def misc_cleanup_def misc_cmds_def)

interpretation fun_module: command_module "fun_init mem" fun_cleanup fun_cmds mem for mem
  by unfold_locales (simp_all add: fun_init_def fun_cleanup_def fun_cmds_def)

interpretation perms_module: command_module "perms_init mem" perms_cleanup perms_cmds mem for mem
  by unfold_locales (simp_all add: perms_init_def perms_cleanup_def perms_cmds_def)

interpretation admin_module: command_module "admin_init mem" admin_cleanup admin_cmds mem for mem
  by unfold_locales (simp_all add: admin_init_def admin_cleanup_def admin_cmds_def)

interpretation chanop_module: command_module "chanop_init mem" chanop_cleanup chanop_cmds mem for mem
  by unfold_locales (simp_all add: chanop_init_def chanop_cleanup_def chanop_cmds_def)

interpretation math_module: command_module "math_init mem" math_cleanup math_cmds mem for mem
  by unfold_locales (simp_all add: math_init_def math_cleanup_def math_cmds_def)

interpretation urban_module: command_module "urban_init mem" urban_cleanup urban_cmds mem for mem
  by unfold_locales (simp_all add: urban_init_def urban_cleanup_def urban_cmds_def)

interpretation google_module: command_module "google_init mem" google_cleanup google_cmds mem for mem
  by unfold_locales (simp_all add: google_init_def google_cleanup_def google_cmds_def)

interpretation wolfram_module: command_module "wolfram_init mem key" wolfram_cleanup wolfram_cmds mem for mem key
  by unfold_locales (simp_all add: wolfram_init_def wolfram_cleanup_def wolfram_cmds_def split: if_splits)

interpretation geoip_module: command_module "geoip_init mem key" geoip_cleanup geoip_cmds mem for mem key
  by unfold_locales (simp_all add: geoip_init_def geoip_cleanup_def geoip_cmds_def split: if_splits)

interpretation crypto_module: command_module "crypto_init mem" crypto_cleanup crypto_cmds mem for mem
  by unfold_locales (simp_all add: crypto_init_def crypto_cleanup_def crypto_cmds_def)

section \<open>All of them together\<close>

definition catalogue :: "(string \<times> bot_handler) list" where
  "catalogue = misc_cmds @ fun_cmds @ perms_cmds @ admin_cmds @ chanop_cmds @ math_cmds @ urban_cmds @ google_cmds @
     wolfram_cmds @ geoip_cmds @ crypto_cmds"

text \<open>The names are valid and no two of them are the same command.\<close>

lemmas cmds_defs = misc_cmds_def fun_cmds_def perms_cmds_def admin_cmds_def chanop_cmds_def math_cmds_def urban_cmds_def
  google_cmds_def wolfram_cmds_def geoip_cmds_def crypto_cmds_def

lemma catalogue_distinct: "distinct (map (\<lambda>c. name_path (fst c)) catalogue) \<and> (\<forall>c \<in> set catalogue. name_path (fst c) \<noteq> None)"
  unfolding catalogue_def cmds_defs by code_simp

lemma last_binding_None:
  "\<forall>c \<in> set cs. \<not> same_command (fst c) m \<Longrightarrow> last_binding same_command cs m = None"
  by (induction cs rule: list.induct) auto

lemma last_binding_distinct:
  assumes "distinct (map (\<lambda>c. name_path (fst c)) cs)" and "(n, h) \<in> set cs" and "same_command n m"
  shows "last_binding same_command cs m = Some h"
  using assms
proof (induction cs)
  case (Cons c cs)
  obtain n' h' where c: "c = (n', h')" by (cases c)
  show ?case
  proof (cases "(n, h) = c")
    case True
    have "\<forall>e \<in> set cs. \<not> same_command (fst e) m"
      using Cons.prems(1,3) True by (force simp: same_command_def)
    then have "last_binding same_command cs m = None" by (rule last_binding_None)
    then show ?thesis using True [symmetric] Cons.prems(3) by simp
  next
    case False
    then have "last_binding same_command cs m = Some h" using Cons by auto
    then show ?thesis by (simp add: c)
  qed
qed simp

lemma same_command_no_space:
  assumes "same_command n m"
  shows "CHR '' '' \<notin> set m"
proof -
  have "name_path m \<noteq> None" using assms unfolding same_command_def by metis
  then show ?thesis by (induction m) (auto simp: child_index_def split: option.splits)
qed

lemma register_list_succeeds:
  assumes "\<forall>c \<in> set cs. name_path (fst c) \<noteq> None \<and> length (fst c) \<le> mem"
  shows "\<exists>t'. register_list (modules_register_cmd mem) t cs = (t', 0)"
  using assms
proof (induction cs arbitrary: t)
  case (Cons c cs)
  obtain n h where c: "c = (n, h)" by (cases c)
  obtain t1 r where r: "modules_register_cmd mem t n h = (t1, r)" by fastforce
  have "r = 0" using register_result(2,3) [OF r] Cons.prems c by auto
  moreover obtain t' where "register_list (modules_register_cmd mem) t1 cs = (t', 0)" using Cons by auto
  ultimately show ?case using r c by auto
qed simp

lemma catalogue_short: "\<forall>c \<in> set catalogue. length (fst c) \<le> 12"
  unfolding catalogue_def cmds_defs by code_simp

lemma catalogue_registered:
  assumes wf: "tree_wf t" and order: "mset cs = mset catalogue" and run: "register_list (modules_register_cmd mem) t cs = (t', 0)"
  shows "cmd_lookup t' m = (case last_binding same_command cs m of Some h \<Rightarrow> Some h | None \<Rightarrow> cmd_lookup t m)"
    and "(name, h) \<in> set catalogue \<Longrightarrow> same_command name m \<Longrightarrow> cmd_lookup t' m = Some h"
proof -
  have same: "set cs = set catalogue" using order by (rule mset_eq_setD)
  have dist: "distinct (map (\<lambda>c. name_path (fst c)) cs)"
  proof -
    have "mset (map (\<lambda>c. name_path (fst c)) cs) = mset (map (\<lambda>c. name_path (fst c)) catalogue)" using order by simp
    then show ?thesis using catalogue_distinct mset_eq_imp_distinct_iff by blast
  qed
  show at: "cmd_lookup t' m = (case last_binding same_command cs m of Some h \<Rightarrow> Some h | None \<Rightarrow> cmd_lookup t m)"
    using wf run by (rule ct.register_list_lookup)
  show "cmd_lookup t' m = Some h" if "(name, h) \<in> set catalogue" and "same_command name m"
    using at last_binding_distinct [OF dist, of name h m] that same by simp
qed

lemma catalogue_valid: "mset cs = mset catalogue \<Longrightarrow> 12 \<le> mem \<Longrightarrow> \<forall>c \<in> set cs. name_path (fst c) \<noteq> None \<and> length (fst c) \<le> mem"
  using catalogue_distinct catalogue_short mset_eq_setD [of cs catalogue] by fastforce

text \<open>
  the modules of the repository do not get in each other's way. In whatever order their commands are registered, with memory for
  12 nodes at a time every registration succeeds, and then a message of the prefix, a name of any module in any mix of
  cases and a text runs the handler of that module with that text; all other names mean what they meant.
\<close>

lemma catalogue_resolves:
  assumes wf: "tree_wf t" and order: "mset cs = mset catalogue" and mem: "12 \<le> mem"
  shows "\<exists>t'. register_list (modules_register_cmd mem) t cs = (t', 0) \<and>
    (\<forall>(name, h) \<in> set catalogue. \<forall>m p from where' args. same_command name m \<longrightarrow>
       modules_check_cmd [p] t' from where' (p # m @ CHR '' '' # args) =
         Some \<lparr>q_handler = h, q_cmdname = m, q_from = from, q_where = where', q_args = args\<rparr>) \<and>
    (\<forall>m. (\<forall>c \<in> set catalogue. \<not> same_command (fst c) m) \<longrightarrow> cmd_lookup t' m = cmd_lookup t m)"
proof -
  obtain t' where run: "register_list (modules_register_cmd mem) t cs = (t', 0)"
    using register_list_succeeds [OF catalogue_valid [OF order mem]] by blast
  note at = catalogue_registered [OF wf order run]
  have "modules_check_cmd [p] t' from where' (p # m @ CHR '' '' # args) =
      Some \<lparr>q_handler = h, q_cmdname = m, q_from = from, q_where = where', q_args = args\<rparr>"
    if "(name, h) \<in> set catalogue" and "same_command name m" for name h m p "from" where' args
  proof -
    have "CHR '' '' \<notin> set m" using that(2) by (rule same_command_no_space)
    then have "command_walk (Some t') (m @ CHR '' '' # args) 0 = Some (h, length m, args)"
      using command_walk_name [of m "CHR '' '' # args" args t' 0] at(2) [OF that] by simp
    then show ?thesis by (simp add: modules_check_cmd_def strncmp_eq_def)
  qed
  moreover have "cmd_lookup t' m = cmd_lookup t m" if "\<forall>c \<in> set catalogue. \<not> same_command (fst c) m" for m
  proof -
    have "\<forall>c \<in> set cs. \<not> same_command (fst c) m" using that mset_eq_setD [OF order] by simp
    then have "last_binding same_command cs m = None" by (rule last_binding_None)
    then show ?thesis using at(1) by simp
  qed
  ultimately show ?thesis using run by blast
qed

end
