(* ===== verification/Bot_Start.thy ===== *)
theory Bot_Start
  imports Main_Loop Module_Catalogue
begin

text \<open>
  The start of the whole bot: the scan of the module directory, the init threads it leaves behind in the order the scheduler
  gives them, and the first command. The last section has what happens when a module refuses to start.
\<close>

section \<open>The scan with memory for everything\<close>

text \<open>A file of the directory that gets a slot and an init thread, for the library \<open>h\<close>.\<close>

definition starts :: "'h dl_env \<Rightarrow> string \<Rightarrow> string \<times> luck \<Rightarrow> bool" where
  "starts dl mod_dir e \<longleftrightarrow> wanted (fst e) \<and> loadable dl mod_dir (snd e) (fst e) \<and> slot_malloc (snd e) \<and> thread_create (snd e)"

definition library :: "'h dl_env \<Rightarrow> string \<Rightarrow> string \<times> luck \<Rightarrow> nat" where
  "library dl mod_dir e = the (dl_open dl (mod_dir @ fst e))"

lemma loadmod_starts:
  assumes ok: "loader_ok st" and entry: "starts dl mod_dir (name, luck)" "slot_realloc luck" "path_ok luck mod_dir name"
    and fresh: "\<And>a. ctx_block luck = Some a \<Longrightarrow> ctxs st a = None"
  obtains st' j where "modules_loadmod dl mod_dir luck name st = Inr st'" and "loader_ok st'"
    and "threads st' = Init_job j # threads st" and "job_handler j = library dl mod_dir (name, luck)"
    and "handles st' = job_handler j # handles st" and "cmds st' = cmds st" and "loaded_use st' = loaded_use st + 1"
    and "\<forall>a. ctxs st' a \<noteq> None \<longleftrightarrow> ctxs st a \<noteq> None \<or> ctx_block luck = Some a" and "ctxs st' (job_ctx j) \<noteq> None"
    and "fst (job_pos j) = loaded_block st'"
    and "loaded_use st + 1 < int (loaded_len st) \<longrightarrow> loaded_block st' = loaded_block st \<and> loaded_len st' = loaded_len st"
    and "loaded_use st + 1 \<ge> int (loaded_len st) \<longrightarrow> Some (loaded_block st') = array_block luck"
    and "loaded_block st' = loaded_block st \<or> Some (loaded_block st') = array_block luck"
proof -
  obtain h b a where h: "dl_open dl (mod_dir @ name) = Some h" "code_init (dl_code dl h) \<noteq> None"
    and b: "array_block luck = Some b" and a: "ctx_block luck = Some a" and thread: "slot_malloc luck" "thread_create luck"
    using entry(1) by (auto simp: starts_def loadable_def split: option.splits)
  have "grow_loaded luck (st\<lparr>handles := h # handles st\<rparr>) \<noteq> None" using b by (simp add: grow_loaded_def)
  then obtain st1 where g: "grow_loaded luck (st\<lparr>handles := h # handles st\<rparr>) = Some st1" by blast
  have run: "modules_loadmod dl mod_dir luck name st = place_module luck h name st1"
    using h g local_path_ok [OF entry(3)] ok by (auto simp: modules_loadmod_def loader_ok_def)
  have "loader_ok (st\<lparr>handles := h # handles st\<rparr>)" using ok by simp
  from grow_loaded_ok [OF this g] have st1: "loader_ok st1" by simp
  have grown: "loaded_use st1 = loaded_use st" "handles st1 = h # handles st" "cmds st1 = cmds st" "threads st1 = threads st" "ctxs st1 = ctxs st"
    "loaded_use st + 1 < int (loaded_len st) \<longrightarrow> loaded_block st1 = loaded_block st \<and> loaded_len st1 = loaded_len st"
    "loaded_use st + 1 \<ge> int (loaded_len st) \<longrightarrow> Some (loaded_block st1) = array_block luck"
    "loaded_block st1 = loaded_block st \<or> Some (loaded_block st1) = array_block luck"
    using g b by (auto simp: grow_loaded_def split: if_splits)
  have pre: "length (loaded st1) = loaded_len st1" "pool_ok (job_pool st1)" "used (loaded st1) < loaded_len st1"
    using st1 by (auto simp: loader_ok_def)
  obtain k tp n ths where placed: "place_module luck h name st1 = Inr (st1\<lparr>ctxs := (ctxs st1)(a := Some \<lparr>ctx_dlsym = h, ctx_fn = name\<rparr>),
      loaded := (loaded st1)[k := Some a], job_pool := tp, threads := ths, loaded_use := loaded_use st1 + 1\<rparr>)" (is "_ = Inr ?st'")
    and ths: "ths = (if slot_malloc luck \<and> thread_create luck
      then Init_job \<lparr>job_n = n, job_handler = h, job_ctx = a, job_pos = (loaded_block st1, k)\<rparr> # threads st1 else threads st1)"
    by (rule place_module_some [OF pre entry(2) a, where h = h and mod_file = name])
  have "loader_ok ?st'"
    using loadmod_ok [OF ok entry(2,3) fresh, where dl = dl] run placed by auto
  with run placed ths thread grown h a show ?thesis
    by (intro that [of ?st' "\<lparr>job_n = n, job_handler = h, job_ctx = a, job_pos = (loaded_block st1, k)\<rparr>"])
      (auto simp: library_def)
qed

text \<open>Every file of the scan leaves one init thread, the newest first.\<close>

lemma rescan_starts:
  assumes "loader_ok st" and "entries_ok mod_dir (ctxs st) dir" and "\<forall>e \<in> set dir. starts dl mod_dir e"
  shows "\<exists>st' js. rescan_loop dl mod_dir dir st = Inr st' \<and> loader_ok st' \<and> threads st' = map Init_job (rev js) @ threads st \<and>
    map job_handler js = map (library dl mod_dir) dir \<and> set (handles st') = set (handles st) \<union> set (map job_handler js) \<and>
    cmds st' = cmds st \<and> loaded_use st' = loaded_use st + int (length dir) \<and>
    (\<forall>a. ctxs st' a \<noteq> None \<longleftrightarrow> ctxs st a \<noteq> None \<or> (\<exists>e \<in> set dir. ctx_block (snd e) = Some a)) \<and>
    (\<forall>j \<in> set js. ctxs st' (job_ctx j) \<noteq> None) \<and>
    (\<forall>k < length js. loaded_use st + int k + 1 < int (loaded_len st) \<longrightarrow> fst (job_pos (js ! k)) = loaded_block st) \<and>
    (loaded_block st' = loaded_block st \<or> (\<exists>e \<in> set dir. Some (loaded_block st') = array_block (snd e))) \<and>
    (dir \<noteq> [] \<longrightarrow> loaded_use st + int (length dir) \<ge> int (loaded_len st) \<longrightarrow> (\<exists>e \<in> set dir. Some (loaded_block st') = array_block (snd e)))"
  using assms
proof (induction dir arbitrary: st)
  case Nil
  then show ?case by simp
next
  case (Cons e dir)
  obtain name luck where e: "e = (name, luck)" by (cases e)
  note entry = entries_ok_Cons [OF Cons.prems(2) [unfolded e]]
  have wanted: "wanted name" and starts: "starts dl mod_dir (name, luck)" using Cons.prems(3) e by (auto simp: starts_def)
  obtain st1 j where st1: "modules_loadmod dl mod_dir luck name st = Inr st1" "loader_ok st1" "threads st1 = Init_job j # threads st"
    "job_handler j = library dl mod_dir (name, luck)" "handles st1 = job_handler j # handles st" "cmds st1 = cmds st"
    "loaded_use st1 = loaded_use st + 1" "\<forall>a. ctxs st1 a \<noteq> None \<longleftrightarrow> ctxs st a \<noteq> None \<or> ctx_block luck = Some a"
    "ctxs st1 (job_ctx j) \<noteq> None" "fst (job_pos j) = loaded_block st1"
    "loaded_use st + 1 < int (loaded_len st) \<longrightarrow> loaded_block st1 = loaded_block st \<and> loaded_len st1 = loaded_len st"
    "loaded_use st + 1 \<ge> int (loaded_len st) \<longrightarrow> Some (loaded_block st1) = array_block luck"
    "loaded_block st1 = loaded_block st \<or> Some (loaded_block st1) = array_block luck"
    by (rule loadmod_starts [OF Cons.prems(1) starts entry(1-3)])
  have rest: "entries_ok mod_dir (ctxs st1) dir" by (rule entry(4)) (use st1(8) in blast)
  have "\<forall>e \<in> set dir. starts dl mod_dir e" using Cons.prems(3) by simp
  from Cons.IH [OF st1(2) rest this] obtain st2 js where st2: "rescan_loop dl mod_dir dir st1 = Inr st2" "loader_ok st2"
    "threads st2 = map Init_job (rev js) @ threads st1" "map job_handler js = map (library dl mod_dir) dir"
    "set (handles st2) = set (handles st1) \<union> set (map job_handler js)" "cmds st2 = cmds st1"
    "loaded_use st2 = loaded_use st1 + int (length dir)"
    "\<forall>a. ctxs st2 a \<noteq> None \<longleftrightarrow> ctxs st1 a \<noteq> None \<or> (\<exists>e \<in> set dir. ctx_block (snd e) = Some a)"
    "\<forall>j \<in> set js. ctxs st2 (job_ctx j) \<noteq> None"
    "\<forall>k < length js. loaded_use st1 + int k + 1 < int (loaded_len st1) \<longrightarrow> fst (job_pos (js ! k)) = loaded_block st1"
    "loaded_block st2 = loaded_block st1 \<or> (\<exists>e \<in> set dir. Some (loaded_block st2) = array_block (snd e))"
    "dir \<noteq> [] \<longrightarrow> loaded_use st1 + int (length dir) \<ge> int (loaded_len st1) \<longrightarrow> (\<exists>e \<in> set dir. Some (loaded_block st2) = array_block (snd e))"
    by - (elim exE conjE, rule that; assumption)
  have run: "rescan_loop dl mod_dir (e # dir) st = Inr st2" using wanted st1(1) st2(1) by (simp add: e wanted_def)
  have stay: "fst (job_pos ((j # js) ! k)) = loaded_block st" if "k < length (j # js)" and "loaded_use st + int k + 1 < int (loaded_len st)" for k
    using that st1(7,10,11) st2(10) by (cases k) auto
  have moved: "loaded_block st2 = loaded_block st \<or> (\<exists>e \<in> set (e # dir). Some (loaded_block st2) = array_block (snd e))"
    using st1(13) st2(11) e by auto
  have grown: "\<exists>e \<in> set (e # dir). Some (loaded_block st2) = array_block (snd e)" if "loaded_use st + int (length (e # dir)) \<ge> int (loaded_len st)"
    using st1(7,11,12) that st2(11,12) e by (cases "loaded_use st + 1 < int (loaded_len st)") auto
  have alive: "\<forall>a. ctxs st2 a \<noteq> None \<longleftrightarrow> ctxs st a \<noteq> None \<or> (\<exists>e \<in> set (e # dir). ctx_block (snd e) = Some a)"
    using st1(8) st2(8) e by auto
  have jobs: "\<forall>j \<in> set (j # js). ctxs st2 (job_ctx j) \<noteq> None" using st1(9) st2(8,9) by auto
  show ?case
    by (intro exI [of _ st2] exI [of _ "j # js"] conjI)
      (use run st2(2) stay moved grown alive jobs st1(3-7) st2(3-7) e in simp_all)
qed

section \<open>The init threads in any order\<close>

text \<open>The thread at place \<open>k\<close> is about to call the \<open>module_init\<close> of a library that registers the commands \<open>cs\<close>.\<close>

definition will_register :: "'h dl_env \<Rightarrow> nat \<Rightarrow> 'h loader \<Rightarrow> nat \<Rightarrow> (string \<times> 'h) list \<Rightarrow> bool" where
  "will_register dl mem st k cs \<longleftrightarrow> k < length (threads st) \<and>
     (case threads st ! k of
        Init_job arg \<Rightarrow> job_handler arg \<in> set (handles st) \<and>
          code_init (dl_code dl (job_handler arg)) = Some (\<lambda>t. register_list (modules_register_cmd mem) t cs)
      | _ \<Rightarrow> False)"

lemma run_thread_registers:
  assumes "will_register dl mem st k cs" and "register_list (modules_register_cmd mem) (cmds st) cs = (t', 0)"
  shows "\<exists>job. run_thread dl k st = Inr (st\<lparr>threads := (threads st)[k := Done_job job], cmds := t'\<rparr>)"
  using assms
  by (cases "threads st ! k") (auto simp: will_register_def run_thread_def threadpool_wrapper_init_def)

text \<open>However the init threads are scheduled, their commands are all registered.\<close>

lemma run_threads_register:
  assumes "distinct ks" and "\<forall>k \<in> set ks. will_register dl mem st k (cs k)"
    and "\<forall>k \<in> set ks. \<forall>c \<in> set (cs k). name_path (fst c) \<noteq> None \<and> length (fst c) \<le> mem"
  shows "\<exists>st'. run_threads dl ks st = Inr st' \<and>
    register_list (modules_register_cmd mem) (cmds st) (concat (map cs ks)) = (cmds st', 0)"
  using assms
proof (induction ks arbitrary: st)
  case Nil
  then show ?case by simp
next
  case (Cons k ks)
  obtain t' where t': "register_list (modules_register_cmd mem) (cmds st) (cs k) = (t', 0)"
    using register_list_succeeds [of "cs k" mem "cmds st"] Cons.prems(3) by auto
  obtain job where job: "run_thread dl k st = Inr (st\<lparr>threads := (threads st)[k := Done_job job], cmds := t'\<rparr>)" (is "_ = Inr ?st")
    using run_thread_registers [OF _ t', of dl k] Cons.prems(2) by auto
  have "will_register dl mem ?st l (cs l)" if "l \<in> set ks" for l
  proof -
    have "l \<noteq> k" and "will_register dl mem st l (cs l)" using that Cons.prems(1,2) by auto
    then show ?thesis by (cases "threads st ! l") (simp_all add: will_register_def)
  qed
  with Cons.IH [of ?st] Cons.prems(1,3) obtain st' where "run_threads dl ks ?st = Inr st'"
    "register_list (modules_register_cmd mem) t' (concat (map cs ks)) = (cmds st', 0)" by auto
  moreover have "register_list (modules_register_cmd mem) (cmds st) (cs k @ concat (map cs ks)) =
      register_list (modules_register_cmd mem) t' (concat (map cs ks))"
    by (rule ct.register_list_append [OF t'])
  ultimately show ?case using job by simp
qed

section \<open>The start of the program\<close>

text \<open>The state \<open>main\<close> starts in: the static values of the source and no threads.\<close>

definition at_rest :: "'h main_state \<Rightarrow> bool" where
  "at_rest st \<longleftrightarrow> loaded_len (main_loader st) = 6 \<and> loaded_use (main_loader st) = 0 \<and> \<not> array_mutex (main_loader st) \<and>
     pool_len (job_pool (main_loader st)) = 2 \<and> pool_flags (job_pool (main_loader st)) = 0 \<and> threads (main_loader st) = [] \<and>
     tree_wf (cmds (main_loader st)) \<and> \<not> perm_locked (main_perms st) \<and> length (pbuf (main_perms st)) = 128"

text \<open>Memory for the tables and for every file of the directory.\<close>

definition enough_memory :: "start_luck \<Rightarrow> nat \<Rightarrow> bool" where
  "enough_memory luck b \<longleftrightarrow> perm_calloc luck \<and> perm_realloc luck \<and> perm_strdup luck \<and> loaded_malloc luck = Some b \<and> pool_malloc luck"

lemma main_start_threads:
  assumes memory: "enough_memory luck b" and rest: "at_rest st"
    and dir: "entries_ok (module_dir (env_modules_dir env)) (ctxs (main_loader st)) dir"
      "\<forall>e \<in> set dir. starts dl (module_dir (env_modules_dir env)) e"
  obtains st' js where "main_start dl luck lucks (Some dir) env st = Inr (st', None)" and "perm_ok (main_perms st')"
    and "\<forall>h. level_of (perm_map (main_perms st')) h = (if env_owner_host env \<in> Some ` set (candidates h) then 100000 else 0)"
    and "threads (main_loader st') = map Init_job (rev js)"
    and "map job_handler js = map (library dl (module_dir (env_modules_dir env))) dir"
    and "set (map job_handler js) \<subseteq> set (handles (main_loader st'))" and "cmds (main_loader st') = cmds (main_loader st)"
    and "\<forall>j \<in> set js. ctxs (main_loader st') (job_ctx j) \<noteq> None" and "\<forall>k < length js. k < 5 \<longrightarrow> fst (job_pos (js ! k)) = b"
    and "length dir \<ge> 6 \<longrightarrow> (\<exists>e \<in> set dir. Some (loaded_block (main_loader st')) = array_block (snd e))"
proof -
  let ?mod_dir = "module_dir (env_modules_dir env)"
  let ?ld = "fst (modules_init (Some b) True (main_loader st))"
  have rest: "loaded_len (main_loader st) = 6" "loaded_use (main_loader st) = 0" "\<not> array_mutex (main_loader st)"
    "pool_len (job_pool (main_loader st)) = 2" "pool_flags (job_pool (main_loader st)) = 0" "threads (main_loader st) = []"
    "\<not> perm_locked (main_perms st)" "length (pbuf (main_perms st)) = 128" using rest by (simp_all add: at_rest_def)
  have ok: "loader_ok ?ld" and ld: "loaded_use ?ld = 0" "loaded_len ?ld = 6" "ctxs ?ld = ctxs (main_loader st)" "loaded_block ?ld = b"
    "threads ?ld = []" "cmds ?ld = cmds (main_loader st)" "\<not> array_mutex ?ld" "snd (modules_init (Some b) True (main_loader st)) = 0"
    using rest by (simp_all add: modules_init_def loader_ok_def threadpool_init_def pool_ok_def used_def slots_live_def)
  obtain perms where p: "permissions_init True True True (env_owner_host env) (main_perms st) = (perms, Inr 0)" "perm_ok perms"
    "\<forall>h. level_of (perm_map perms) h = (if env_owner_host env \<in> Some ` set (candidates h) then 100000 else 0)"
    using permissions_init_owner_only [of "env_owner_host env" "main_perms st"] rest(7,8) by blast
  obtain ld js where l: "rescan_loop dl ?mod_dir dir ?ld = Inr ld" "loader_ok ld" "threads ld = map Init_job (rev js) @ threads ?ld"
    "map job_handler js = map (library dl ?mod_dir) dir" "set (handles ld) = set (handles ?ld) \<union> set (map job_handler js)"
    "cmds ld = cmds ?ld" "\<forall>j \<in> set js. ctxs ld (job_ctx j) \<noteq> None"
    "\<forall>k < length js. loaded_use ?ld + int k + 1 < int (loaded_len ?ld) \<longrightarrow> fst (job_pos (js ! k)) = loaded_block ?ld"
    "dir \<noteq> [] \<longrightarrow> loaded_use ?ld + int (length dir) \<ge> int (loaded_len ?ld) \<longrightarrow> (\<exists>e \<in> set dir. Some (loaded_block ld) = array_block (snd e))"
    using rescan_starts [OF ok dir(1) [folded ld(3)] dir(2)] by blast
  have "ld\<lparr>array_mutex := False\<rparr> = ld" using l(2) by (simp add: loader_ok_def)
  then have "modules_rescanall dl ?mod_dir lucks (Some dir) ?ld = Inr ld" using l(1) ld(1) by (simp add: modules_rescanall_def)
  then have "main_start dl luck lucks (Some dir) env st = Inr (st\<lparr>main_perms := perms, main_loader := ld\<rparr>, None)"
    using memory p(1) ld(8) by (simp add: main_start_def enough_memory_def split_beta)
  then show ?thesis
    by (rule that) (use p(2,3) l(3-9) ld in auto)
qed

text \<open>The threads of the scan register the commands of their libraries, all of them in any order.\<close>

lemma mset_concat_order:
  assumes "mset ks = mset ls"
  shows "mset (concat (map f ks)) = mset (concat (map f ls))"
proof -
  have "mset (concat (map f ks)) = sum_mset (image_mset (\<lambda>k. mset (f k)) (mset ks))" for ks by (induction ks) simp_all
  then show ?thesis using assms by simp
qed

lemma init_threads_register:
  assumes jobs: "threads st = map Init_job (rev js)" "map job_handler js = map (library dl mod_dir) dir" "set (map job_handler js) \<subseteq> set (handles st)"
    and modules: "\<forall>e \<in> set dir. code_init (dl_code dl (library dl mod_dir e)) = Some (\<lambda>t. register_list (modules_register_cmd mem) t (cs e))"
    and catalogue: "mset (concat (map cs dir)) = mset catalogue" and mem: "12 \<le> mem" and wf: "tree_wf (cmds st)"
    and order: "mset ks = mset [0..<length dir]"
  shows "\<exists>st'. run_threads dl ks st = Inr st' \<and>
    (\<forall>(name, h) \<in> set catalogue. \<forall>m. same_command name m \<longrightarrow> cmd_lookup (cmds st') m = Some h)"
proof -
  let ?cs = "\<lambda>k. cs (rev dir ! k)"
  have len: "length js = length dir" using jobs(2) map_eq_imp_length_eq by blast
  have ks: "set ks = {0..<length dir}" "distinct ks"
    using mset_eq_setD [OF order] mset_eq_imp_distinct_iff [OF order] by simp_all
  have will: "will_register dl mem st k (?cs k)" if "k \<in> set ks" for k
  proof -
    have k: "k < length dir" using that ks(1) by simp
    have "map job_handler (rev js) = map (library dl mod_dir) (rev dir)" using jobs(2) by (metis rev_map)
    from arg_cong [OF this, of "\<lambda>xs. xs ! k"]
    have handler: "job_handler (rev js ! k) = library dl mod_dir (rev dir ! k)" using k len by (simp only: nth_map length_rev)
    have "rev js ! k \<in> set (rev js)" and "rev dir ! k \<in> set (rev dir)" using k len by (intro nth_mem; simp)+
    then show ?thesis using k len jobs(1,3) modules handler by (auto simp: will_register_def)
  qed
  have "map ?cs [0..<length dir] = map cs (rev dir)" by (rule nth_equalityI) simp_all
  then have "mset (concat (map ?cs ks)) = mset (concat (map cs (rev dir)))" using mset_concat_order [OF order, of ?cs] by simp
  also have "\<dots> = mset catalogue" using catalogue mset_concat_order [of "rev dir" dir cs] by simp
  finally have all: "mset (concat (map ?cs ks)) = mset catalogue" .
  have "\<forall>k \<in> set ks. \<forall>c \<in> set (?cs k). name_path (fst c) \<noteq> None \<and> length (fst c) \<le> mem"
    using catalogue_valid [OF all mem] by auto
  then obtain st' where run: "run_threads dl ks st = Inr st'"
    and reg: "register_list (modules_register_cmd mem) (cmds st) (concat (map ?cs ks)) = (cmds st', 0)"
    using run_threads_register [OF ks(2), where cs = ?cs and mem = mem and st = st] will by blast
  show ?thesis using run catalogue_registered(2) [OF wf all reg] by blast
qed

section \<open>A concrete start\<close>

definition full_luck :: "nat \<Rightarrow> luck" where
  "full_luck a = \<lparr>array_block = Some 2, ctx_block = Some a, slot_realloc = True, slot_malloc = True, thread_create = True,
     slot_junk = None, path_cells = replicate 4096 NUL\<rparr>"

definition full_start :: start_luck where
  "full_start = \<lparr>perm_calloc = True, perm_realloc = True, perm_strdup = True, loaded_malloc = Some 1, pool_malloc = True\<rparr>"

definition home_env :: environ where
  "home_env = \<lparr>env_nick = None, env_user = None, env_name = None, env_verbosity = None, env_host = None, env_port = None, env_ssl = None,
     env_password = None, env_prefix = None, env_modules_dir = None, env_owner_host = Some ''home''\<rparr>"

definition fresh_state :: "bot_handler main_state" where
  "fresh_state = \<lparr>main_perms = perm_state_of empty_map, main_loader = \<lparr>loaded = [], loaded_block = 0, loaded_len = 6, loaded_use = 0,
     array_mutex = False, ctxs = \<lambda>_. None, handles = [], cmds = new_node,
     job_pool = \<lparr>pool_slots = [], pool_len = 2, pool_flags = 0\<rparr>, threads = []\<rparr>\<rparr>"

lemma fixtures: "enough_memory full_start 1" "at_rest fresh_state"
  by (simp_all add: enough_memory_def full_start_def at_rest_def fresh_state_def perm_state_of_def)

section \<open>Properties\<close>

text \<open>
  C5: From the start of the program to the first command. With the modules of the repository in the directory, in any order and with
  memory for all of them, \<open>main\<close> starts; after the init threads have run, in any order, a line with the prefix and the name of any
  command of any module is read, resolved and runs the handler of that module with the level 100000 for the host of the
  owner and 0 for all others.
\<close>

theorem started_bot_runs_commands:
  assumes memory: "enough_memory luck b" "12 \<le> mem" and rest: "at_rest st"
    and dir: "entries_ok (module_dir (env_modules_dir menv)) (ctxs (main_loader st)) dir"
      "\<forall>e \<in> set dir. starts dl (module_dir (env_modules_dir menv)) e"
    and modules: "\<forall>e \<in> set dir. code_init (dl_code dl (library dl (module_dir (env_modules_dir menv)) e)) =
        Some (\<lambda>t. register_list (modules_register_cmd mem) t (cs e))" "mset (concat (map cs dir)) = mset catalogue"
    and order: "mset ks = mset [0..<length dir]"
    and command: "(name, h) \<in> set catalogue" "same_command name m"
    and words: "CHR '' '' \<notin> set nick" "CHR ''!'' \<notin> set nick" "CHR '' '' \<notin> set ident" "CHR ''@'' \<notin> set ident"
      "CHR '' '' \<notin> set host" "length host \<le> 126" "CHR '' '' \<notin> set chan"
    and line: "whole_line (CHR '':'' # (nick @ ''!'' @ ident @ ''@'' @ host) @ '' PRIVMSG #'' @ chan @ '' :'' @ [p] @ m @ '' '' @ args)"
    and cells: "length buf = 513" "\<forall>m. length (fresh m) = m"
  shows "\<exists>st' ld q arg ps'. main_start dl luck lucks (Some dir) menv st = Inr (st', None) \<and>
    run_threads dl ks (main_loader st') = Inr ld \<and>
    irc_loop (irc_start buf) [Bytes (wire [CHR '':'' # (nick @ ''!'' @ ident @ ''@'' @ host) @ '' PRIVMSG #'' @ chan @
        '' :'' @ [p] @ m @ '' '' @ args])] =
      Inr ([Check_cmd (nick @ ''!'' @ ident @ ''@'' @ host) (''#'' @ chan) ([p] @ m @ '' '' @ args)], False) \<and>
    modules_check_cmd [p] (cmds ld) (nick @ ''!'' @ ident @ ''@'' @ host) (''#'' @ chan) ([p] @ m @ '' '' @ args) = Some q \<and>
    make_cmd_args fresh a n (q_handler q) (q_cmdname q) (q_from q) (q_where q) (q_args q) = Inr arg \<and>
    threadpool_wrapper_cmd env sender (main_perms st') arg = run_handler env ps' h m
      \<lparr>sender_nick = nick, sender_ident = Some ident, sender_host = Some host,
        permission_level = (if env_owner_host menv \<in> Some ` set (candidates host) then 100000 else 0)\<rparr>
      (''#'' @ chan) args"
proof -
  obtain st' js where start: "main_start dl luck lucks (Some dir) menv st = Inr (st', None)" "perm_ok (main_perms st')"
    "\<forall>h. level_of (perm_map (main_perms st')) h = (if env_owner_host menv \<in> Some ` set (candidates h) then 100000 else 0)"
    "threads (main_loader st') = map Init_job (rev js)"
    "map job_handler js = map (library dl (module_dir (env_modules_dir menv))) dir"
    "set (map job_handler js) \<subseteq> set (handles (main_loader st'))" "cmds (main_loader st') = cmds (main_loader st)"
    by (rule main_start_threads [OF memory(1) rest dir, of lucks]) rule
  have wf: "tree_wf (cmds (main_loader st'))" using rest start(7) by (simp add: at_rest_def)
  obtain ld where ld: "run_threads dl ks (main_loader st') = Inr ld"
    and all: "\<forall>(name, h) \<in> set catalogue. \<forall>m. same_command name m \<longrightarrow> cmd_lookup (cmds ld) m = Some h"
    using init_threads_register [OF start(4-6) modules memory(2) wf order] by blast
  have "cmd_lookup (cmds ld) m = Some h" using all command by blast
  from line_runs_handler [OF cells(1) start(2) cells(2) words same_command_no_space [OF command(2)] line this, of a n env sender]
  show ?thesis using start(1,3) ld by auto
qed

theorem started_bot_runs_commands_witness:
  "\<exists>(dl :: bot_handler dl_env) luck lucks dir menv st st' ld q arg ps'. map fst dir = [''bot_op.so'', ''bot_rest.so''] \<and>
    main_start dl luck lucks (Some dir) menv st = Inr (st', None) \<and> run_threads dl [1, 0] (main_loader st') = Inr ld \<and>
    irc_loop (irc_start (replicate 513 NUL)) [Bytes (wire ['':joe!j@home PRIVMSG #c :,oP ann''])] =
      Inr ([Check_cmd ''joe!j@home'' ''#c'' '',oP ann''], False) \<and>
    modules_check_cmd '','' (cmds ld) ''joe!j@home'' ''#c'' '',oP ann'' = Some q \<and>
    make_cmd_args (\<lambda>m. replicate m NUL) 64 0 (q_handler q) (q_cmdname q) (q_from q) (q_where q) (q_args q) = Inr arg \<and>
    threadpool_wrapper_cmd (quiet_env (replicate 513 NUL)) undefined (main_perms st') arg = (ps', Inr [Chmode ''#c'' ''+o ann''])"
proof -
  let ?rest = "misc_cmds @ fun_cmds @ perms_cmds @ admin_cmds @ math_cmds @ urban_cmds @ google_cmds @ wolfram_cmds @ geoip_cmds @ crypto_cmds"
  define dl where "dl = \<lparr>dl_open = (\<lambda>f. if f = ''modules/bot_op.so'' then Some 7 else Some 8),
    dl_code = (\<lambda>h. \<lparr>code_init = Some (\<lambda>t. register_list (modules_register_cmd 12) t (if h = 7 then chanop_cmds else ?rest)),
      code_cleanup = Some (\<lambda>t. t)\<rparr>)\<rparr>"
  define dir where "dir = [(''bot_op.so'', full_luck 3), (''bot_rest.so'', full_luck 4)]"
  define cs where "cs = (\<lambda>e :: string \<times> luck. if fst e = ''bot_op.so'' then chanop_cmds else ?rest)"
  have dir1: "entries_ok (module_dir (env_modules_dir home_env)) (ctxs (main_loader fresh_state)) dir"
    by (simp add: entries_ok_def path_ok_def PATH_MAX_def List.map_filter_simps module_dir_def home_env_def fresh_state_def dir_def full_luck_def)
  have dir2: "\<forall>e \<in> set dir. starts dl (module_dir (env_modules_dir home_env)) e"
    by (simp add: starts_def wanted_def loadable_def is_module_file_def strncmp_eq_def module_dir_def home_env_def dir_def full_luck_def dl_def)
  have mods: "\<forall>e \<in> set dir. code_init (dl_code dl (library dl (module_dir (env_modules_dir home_env)) e)) =
      Some (\<lambda>t. register_list (modules_register_cmd 12) t (cs e))"
    by (simp add: library_def module_dir_def home_env_def dir_def dl_def cs_def)
  have all: "mset (concat (map cs dir)) = mset catalogue" by (simp add: cs_def dir_def catalogue_def)
  have order: "mset [1, 0] = mset [0..<length dir]" by (simp add: dir_def numeral_2_eq_2)
  have op: "(''op'', Chanop_cmd) \<in> set catalogue" by (simp add: catalogue_def chanop_cmds_def)
  have same: "same_command ''op'' ''oP''" by (simp add: same_command_def child_index_def)
  have words: "CHR '' '' \<notin> set ''joe''" "CHR ''!'' \<notin> set ''joe''" "CHR '' '' \<notin> set ''j''" "CHR ''@'' \<notin> set ''j''"
    "CHR '' '' \<notin> set ''home''" "length ''home'' \<le> 126" "CHR '' '' \<notin> set ''c''" by simp_all
  have line: "whole_line (CHR '':'' # (''joe'' @ ''!'' @ ''j'' @ ''@'' @ ''home'') @ '' PRIVMSG #'' @ ''c'' @ '' :'' @ '','' @ ''oP'' @ '' '' @ ''ann'')"
    by (simp add: whole_line_def)
  have cells: "length (replicate 513 NUL) = 513" "\<forall>m. length (replicate m NUL) = m" by simp_all
  have owner: "env_owner_host home_env \<in> Some ` set (candidates ''home'')" by (simp add: home_env_def candidates_def)
  have oper: "run_handler (quiet_env (replicate 513 NUL)) ps Chanop_cmd ''oP'' \<lparr>sender_nick = ''joe'', sender_ident = Some ''j'',
      sender_host = Some ''home'', permission_level = 100000\<rparr> ''#c'' ''ann'' = (ps, Inr [Chmode ''#c'' ''+o ann''])" for ps
    by (simp add: run_handler_def chanop_handle_cmd_def chanop_hop_def chanop_op_def mode_text_ok perms_defs)
  have "\<exists>st' ld q arg ps'. main_start dl full_start (\<lambda>_. full_luck 5) (Some dir) home_env fresh_state = Inr (st', None) \<and> run_threads dl [1, 0] (main_loader st') = Inr ld \<and>
    irc_loop (irc_start (replicate 513 NUL)) [Bytes (wire [CHR '':'' # (''joe'' @ ''!'' @ ''j'' @ ''@'' @ ''home'') @ '' PRIVMSG #'' @ ''c'' @
        '' :'' @ '','' @ ''oP'' @ '' '' @ ''ann''])] =
      Inr ([Check_cmd (''joe'' @ ''!'' @ ''j'' @ ''@'' @ ''home'') (''#'' @ ''c'') ('','' @ ''oP'' @ '' '' @ ''ann'')], False) \<and>
    modules_check_cmd '','' (cmds ld) (''joe'' @ ''!'' @ ''j'' @ ''@'' @ ''home'') (''#'' @ ''c'') ('','' @ ''oP'' @ '' '' @ ''ann'') = Some q \<and>
    make_cmd_args (\<lambda>m. replicate m NUL) 64 0 (q_handler q) (q_cmdname q) (q_from q) (q_where q) (q_args q) = Inr arg \<and>
    threadpool_wrapper_cmd (quiet_env (replicate 513 NUL)) undefined (main_perms st') arg =
      run_handler (quiet_env (replicate 513 NUL)) ps' Chanop_cmd ''oP'' \<lparr>sender_nick = ''joe'', sender_ident = Some ''j'', sender_host = Some ''home'',
        permission_level = (if env_owner_host home_env \<in> Some ` set (candidates ''home'') then 100000 else 0)\<rparr> (''#'' @ ''c'') ''ann''"
    by (rule started_bot_runs_commands [OF fixtures(1) _ fixtures(2) dir1 dir2 mods all order op same words line cells]) simp
  then obtain st' ld q arg ps' where
    "main_start dl full_start (\<lambda>_. full_luck 5) (Some dir) home_env fresh_state = Inr (st', None)" "run_threads dl [1, 0] (main_loader st') = Inr ld"
    "irc_loop (irc_start (replicate 513 NUL)) [Bytes (wire ['':joe!j@home PRIVMSG #c :,oP ann''])] =
      Inr ([Check_cmd ''joe!j@home'' ''#c'' '',oP ann''], False)"
    "modules_check_cmd '','' (cmds ld) ''joe!j@home'' ''#c'' '',oP ann'' = Some q"
    "make_cmd_args (\<lambda>m. replicate m NUL) 64 0 (q_handler q) (q_cmdname q) (q_from q) (q_where q) (q_args q) = Inr arg"
    "threadpool_wrapper_cmd (quiet_env (replicate 513 NUL)) undefined (main_perms st') arg = (ps', Inr [Chmode ''#c'' ''+o ann''])"
    using owner by (simp add: oper) blast
  moreover have "map fst dir = [''bot_op.so'', ''bot_rest.so'']" by (simp add: dir_def)
  ultimately show ?thesis
    by (intro exI [of _ dl] exI [of _ full_start] exI [of _ "\<lambda>_. full_luck 5"] exI [of _ dir] exI [of _ home_env] exI [of _ fresh_state] exI [of _ st']
        exI [of _ ld] exI [of _ q] exI [of _ arg] exI [of _ ps'] conjI)
qed

text \<open>
  C27: A module that refuses to start while the directory is scanned, as \<open>bot_wolfram\<close> and \<open>bot_geoip\<close> do without their keys. The sixth
  module makes the array of contexts grow; when \<open>realloc\<close> moves it, the pointers that the init threads of the first five were given
  point into the freed block, and if the \<open>module_init\<close> of one of them then gives an error, its thread writes there.
\<close>

theorem refusing_module_writes_freed_array:
  assumes memory: "enough_memory luck b" and rest: "at_rest st"
    and dir: "entries_ok (module_dir (env_modules_dir menv)) (ctxs (main_loader st)) dir"
      "\<forall>e \<in> set dir. starts dl (module_dir (env_modules_dir menv)) e"
    and moved: "6 \<le> length dir" "\<forall>e \<in> set dir. array_block (snd e) \<noteq> Some b"
    and refuses: "k < 5" "code_init (dl_code dl (library dl (module_dir (env_modules_dir menv)) (dir ! k))) = Some f"
      "snd (f (cmds (main_loader st))) \<noteq> 0"
  shows "\<exists>st' arg. main_start dl luck lucks (Some dir) menv st = Inr (st', None) \<and>
    threads (main_loader st') ! (length dir - 1 - k) = Init_job arg \<and>
    job_handler arg = library dl (module_dir (env_modules_dir menv)) (dir ! k) \<and>
    run_thread dl (length dir - 1 - k) (main_loader st') = Inl Out_Of_Bounds"
proof -
  obtain st' js where start: "main_start dl luck lucks (Some dir) menv st = Inr (st', None)"
    "threads (main_loader st') = map Init_job (rev js)"
    "map job_handler js = map (library dl (module_dir (env_modules_dir menv))) dir"
    "set (map job_handler js) \<subseteq> set (handles (main_loader st'))" "cmds (main_loader st') = cmds (main_loader st)"
    "\<forall>j \<in> set js. ctxs (main_loader st') (job_ctx j) \<noteq> None" "\<forall>k < length js. k < 5 \<longrightarrow> fst (job_pos (js ! k)) = b"
    "length dir \<ge> 6 \<longrightarrow> (\<exists>e \<in> set dir. Some (loaded_block (main_loader st')) = array_block (snd e))"
    by (rule main_start_threads [OF memory rest dir, of lucks]) rule
  have len: "length js = length dir" using start(3) map_eq_imp_length_eq by blast
  have k: "k < length js" using len moved(1) refuses(1) by simp
  have handler: "job_handler (js ! k) = library dl (module_dir (env_modules_dir menv)) (dir ! k)"
    using arg_cong [OF start(3), of "\<lambda>xs. xs ! k"] k len by simp
  have thread: "threads (main_loader st') ! (length dir - 1 - k) = Init_job (js ! k)"
    and there: "length dir - 1 - k < length (threads (main_loader st'))" using k len by (simp_all add: start(2) rev_nth)
  have "fst (job_pos (js ! k)) \<noteq> loaded_block (main_loader st')" using start(7,8) k refuses(1) moved by fastforce
  moreover have "job_handler (js ! k) \<in> set (handles (main_loader st'))" and "ctxs (main_loader st') (job_ctx (js ! k)) \<noteq> None"
    using start(4,6) k by auto
  ultimately have "run_thread dl (length dir - 1 - k) (main_loader st') = Inl Out_Of_Bounds"
    using thread there refuses(2,3) handler start(5)
    by (auto simp: run_thread_def threadpool_wrapper_init_def clear_pos_def ctx_at_def Let_def split: prod.split)
  with start(1) thread handler show ?thesis by blast
qed

theorem refusing_module_writes_freed_array_witness:
  "\<exists>(dl :: bot_handler dl_env) luck lucks dir menv st st'. map fst dir = [''wolfram.so'', ''1.so'', ''2.so'', ''3.so'', ''4.so'', ''5.so''] \<and>
    code_init (dl_code dl 7) = Some (wolfram_init 26 None) \<and> dl_open dl ''modules/wolfram.so'' = Some 7 \<and>
    main_start dl luck lucks (Some dir) menv st = Inr (st', None) \<and> run_thread dl 5 (main_loader st') = Inl Out_Of_Bounds"
proof -
  define dl where "dl = \<lparr>dl_open = (\<lambda>f. if f = ''modules/wolfram.so'' then Some 7 else Some 8),
    dl_code = (\<lambda>h. \<lparr>code_init = Some (if h = 7 then wolfram_init 26 None else misc_init 26), code_cleanup = Some (\<lambda>t. t)\<rparr>)\<rparr>"
  define dir where "dir = [(''wolfram.so'', full_luck 3), (''1.so'', full_luck 4), (''2.so'', full_luck 5), (''3.so'', full_luck 6), (''4.so'', full_luck 7), (''5.so'', full_luck 8)]"
  have dir1: "entries_ok (module_dir (env_modules_dir home_env)) (ctxs (main_loader fresh_state)) dir"
    by (simp add: entries_ok_def path_ok_def PATH_MAX_def List.map_filter_simps module_dir_def home_env_def fresh_state_def dir_def full_luck_def)
  have dir2: "\<forall>e \<in> set dir. starts dl (module_dir (env_modules_dir home_env)) e"
    by (simp add: starts_def wanted_def loadable_def is_module_file_def strncmp_eq_def module_dir_def home_env_def dir_def full_luck_def dl_def)
  have moved: "6 \<le> length dir" "\<forall>e \<in> set dir. array_block (snd e) \<noteq> Some 1" by (simp_all add: dir_def full_luck_def)
  have refuses: "code_init (dl_code dl (library dl (module_dir (env_modules_dir home_env)) (dir ! 0))) = Some (wolfram_init 26 None)"
    by (simp add: library_def module_dir_def home_env_def dir_def dl_def)
  have err: "snd (wolfram_init 26 None (cmds (main_loader fresh_state))) \<noteq> 0" by (simp add: wolfram_init_def)
  obtain st' arg where "main_start dl full_start (\<lambda>_. full_luck 9) (Some dir) home_env fresh_state = Inr (st', None)"
    "run_thread dl (length dir - 1 - 0) (main_loader st') = Inl Out_Of_Bounds"
    using refusing_module_writes_freed_array [OF fixtures(1,2) dir1 dir2 moved _ refuses err] by fastforce
  moreover have "map fst dir = [''wolfram.so'', ''1.so'', ''2.so'', ''3.so'', ''4.so'', ''5.so'']" "length dir - 1 - 0 = 5"
    "code_init (dl_code dl 7) = Some (wolfram_init 26 None)" "dl_open dl ''modules/wolfram.so'' = Some 7"
    by (simp_all add: dir_def dl_def)
  ultimately show ?thesis by (metis (no_types))
qed

end
