(* ===== verification/Bot_Reload.thy ===== *)
theory Bot_Reload
  imports Bot_Start
begin

text \<open>
  A module file that is written while its module is loaded. The watcher queues the cleanup of the old module and the start of the
  new one, each in a thread of its own, and nothing orders the two.
\<close>

lemma last_binding_eq_None: "last_binding same cs m = None \<longleftrightarrow> (\<forall>c \<in> set cs. \<not> same (fst c) m)"
  by (induction same cs m rule: last_binding.induct) (auto split: option.splits)

text \<open>The state the watcher leaves behind, and each of the two threads on it.\<close>

lemma rewrite_event:
  assumes ok: "loader_ok st" and none: "threads st = []" and there: "module_loaded st name" and free: "used (loaded st) < loaded_len st"
    and old: "\<forall>a c. ctxs st a = Some c \<longrightarrow> ctx_fn c = name \<longrightarrow> code_cleanup (dl_code dl (ctx_dlsym c)) \<noteq> None"
    and opens: "dl_open dl (mod_dir @ name) = Some h" "path_ok luck' mod_dir name" "code_init (dl_code dl h) \<noteq> None"
    and luck: "slot_realloc luck" "slot_malloc luck" "thread_create luck"
    and luck': "slot_realloc luck'" "slot_malloc luck'" "thread_create luck'" "ctx_block luck' = Some b" "ctxs st b = None"
  obtains a c i k n n' tp where "i < loaded_len st" and "loaded st ! i = Some a" and "ctxs st a = Some c" and "ctx_fn c = name"
    and "k < loaded_len st" and "loaded st ! k = None"
    and "watch_event dl mod_dir luck luck' name False st = Inr (st\<lparr>handles := h # handles st, job_pool := tp,
      ctxs := (ctxs st)(b := Some \<lparr>ctx_dlsym = h, ctx_fn = name\<rparr>), loaded := (loaded st)[k := Some b],
      threads := [Init_job \<lparr>job_n = n', job_handler = h, job_ctx = b, job_pos = (loaded_block st, k)\<rparr>,
        Deinit_job \<lparr>job_n = n, job_handler = ctx_dlsym c, job_ctx = a, job_pos = (loaded_block st, i)\<rparr>]\<rparr>)"
proof -
  have len: "length (loaded st) = loaded_len st" and live: "slots_live (loaded st) (ctxs st)" and pool: "pool_ok (job_pool st)"
    and mutex: "\<not> array_mutex st" and use: "loaded_use st < int (loaded_len st)" using ok by (auto simp: loader_ok_def)
  obtain a i c where f: "find_file st name 0 = Inr (Some (a, i))" and i: "i < loaded_len st" "loaded st ! i = Some a" "ctxs st a = Some c"
    "ctx_fn c = name" using find_file_loaded(1) [OF len live there] by blast
  obtain tp n where u: "modules_unloadmod dl luck a (loaded_block st, i) True st = Inr (st\<lparr>job_pool := tp,
      threads := (if slot_malloc luck \<and> thread_create luck
        then Deinit_job \<lparr>job_n = n, job_handler = ctx_dlsym c, job_ctx = a, job_pos = (loaded_block st, i)\<rparr> # threads st else threads st),
      loaded_use := loaded_use st - 1\<rparr>)" (is "_ = Inr ?st") and tp: "pool_ok tp" "n < pool_len tp"
    by (rule unloadmod_ok [OF pool luck(1) i(3), of dl "(loaded_block st, i)" True]) (use old i(3,4) in blast)+
  have load: "modules_loadmod dl mod_dir luck' name ?st = place_module luck' h name (?st\<lparr>handles := h # handles ?st\<rparr>)"
    by (rule loadmod_no_growth [where st = ?st, OF opens(2,1,3)]) (use mutex use in simp_all)
  let ?mid = "?st\<lparr>handles := h # handles ?st\<rparr>"
  obtain k tp' n' ths where k: "k < loaded_len ?mid" "loaded ?mid ! k = None"
    and place: "place_module luck' h name ?mid = Inr (?mid\<lparr>ctxs := (ctxs ?mid)(b := Some \<lparr>ctx_dlsym = h, ctx_fn = name\<rparr>),
      loaded := (loaded ?mid)[k := Some b], job_pool := tp', threads := ths, loaded_use := loaded_use ?mid + 1\<rparr>)"
    and ths: "ths = (if slot_malloc luck' \<and> thread_create luck'
      then Init_job \<lparr>job_n = n', job_handler = h, job_ctx = b, job_pos = (loaded_block ?mid, k)\<rparr> # threads ?mid else threads ?mid)"
    by (rule place_module_some [where st = ?mid and h = h and mod_file = name, OF _ _ _ luck'(1,4)]) (use len tp free in simp_all)
  have "watch_event dl mod_dir luck luck' name False st = modules_loadmod dl mod_dir luck' name ?st"
    using f u mutex by (simp add: watch_event_def)
  then show ?thesis using i k place ths load luck luck' none by (intro that [of i a c k n' n tp']) simp_all
qed

text \<open>The cleanup thread of one slot and the init thread of another, each at its place among the threads.\<close>

lemma run_init:
  assumes "k < length (threads st)" and "threads st ! k = Init_job arg" and "job_handler arg \<in> set (handles st)"
    and "code_init (dl_code dl (job_handler arg)) = Some f" and "f (cmds st) = (t, 0)"
  shows "run_thread dl k st = Inr (st\<lparr>threads := (threads st)[k := Done_job arg], cmds := t\<rparr>)"
  using assms by (simp add: run_thread_def threadpool_wrapper_init_def)

lemma run_deinit:
  assumes "k < length (threads st)" and "threads st ! k = Deinit_job arg" and "job_handler arg \<in> set (handles st)"
    and "code_cleanup (dl_code dl (job_handler arg)) = Some f" and "job_pos arg = (loaded_block st, i)" and "i < length (loaded st)"
    and "ctxs st (job_ctx arg) = Some c"
  shows "run_thread dl k st = Inr (st\<lparr>threads := (threads st)[k := Done_job arg], cmds := f (cmds st), loaded := (loaded st)[i := None],
    handles := remove1 (ctx_dlsym c) (handles st), ctxs := (ctxs st)(job_ctx arg := None)\<rparr>)"
  using assms by (simp add: run_thread_def threadpool_wrapper_deinit_def clear_pos_def close_free_def ctx_at_def)

context command_module
begin

lemma rewrite_race:
  assumes ok: "loader_ok st" and none: "threads st = []" and there: "module_loaded st name" and free: "used (loaded st) < loaded_len st"
    and old: "\<forall>a c. ctxs st a = Some c \<longrightarrow> ctx_fn c = name \<longrightarrow>
      ctx_dlsym c \<in> set (handles st) \<and> code_cleanup (dl_code dl (ctx_dlsym c)) = Some cleanup"
    and opens: "dl_open dl (mod_dir @ name) = Some h" "path_ok luck' mod_dir name" "code_init (dl_code dl h) = Some init"
    and tree: "tree_wf (cmds st)" "init (cmds st) = (t1, 0)" "init (cleanup (cmds st)) = (t2, 0)"
    and luck: "slot_realloc luck" "slot_malloc luck" "thread_create luck"
    and luck': "slot_realloc luck'" "slot_malloc luck'" "thread_create luck'" "ctx_block luck' = Some b" "ctxs st b = None"
  shows "\<exists>st1 st2 st3. watch_event dl mod_dir luck luck' name False st = Inr st1 \<and> length (threads st1) = 2 \<and>
    run_threads dl [1, 0] st1 = Inr st2 \<and> module_loaded st2 name \<and>
    (\<forall>m. cmd_lookup (cmds st2) m = (case last_binding same_command cs m of Some h \<Rightarrow> Some h | None \<Rightarrow> cmd_lookup (cmds st) m)) \<and>
    run_threads dl [0, 1] st1 = Inr st3 \<and> module_loaded st3 name \<and>
    (\<forall>m. cmd_lookup (cmds st3) m = (if \<exists>c \<in> set cs. same_command (fst c) m then None else cmd_lookup (cmds st) m))"
proof -
  have len: "length (loaded st) = loaded_len st" using ok by (simp add: loader_ok_def)
  have cleanup: "\<forall>a c. ctxs st a = Some c \<longrightarrow> ctx_fn c = name \<longrightarrow> code_cleanup (dl_code dl (ctx_dlsym c)) \<noteq> None" using old by auto
  have start: "code_init (dl_code dl h) \<noteq> None" using opens(3) by simp
  obtain a c i k n n' tp where a: "i < loaded_len st" "loaded st ! i = Some a" "ctxs st a = Some c" "ctx_fn c = name"
    and k: "k < loaded_len st" "loaded st ! k = None"
    and run: "watch_event dl mod_dir luck luck' name False st = Inr (st\<lparr>handles := h # handles st, job_pool := tp,
      ctxs := (ctxs st)(b := Some \<lparr>ctx_dlsym = h, ctx_fn = name\<rparr>), loaded := (loaded st)[k := Some b],
      threads := [Init_job \<lparr>job_n = n', job_handler = h, job_ctx = b, job_pos = (loaded_block st, k)\<rparr>,
        Deinit_job \<lparr>job_n = n, job_handler = ctx_dlsym c, job_ctx = a, job_pos = (loaded_block st, i)\<rparr>]\<rparr>)" (is "_ = Inr ?st1")
    by (rule rewrite_event [OF ok none there free cleanup opens(1,2) start luck luck'])
  have lib: "ctx_dlsym c \<in> set (handles st)" "code_cleanup (dl_code dl (ctx_dlsym c)) = Some cleanup" using old a(3,4) by auto
  have ne: "a \<noteq> b" "i \<noteq> k" using a(2,3) k(2) luck'(5) by auto
  have stays: "module_loaded st' name" if "loaded st' = (loaded st)[k := Some b, i := None]" "loaded_len st' = loaded_len st"
    "ctxs st' = ((ctxs st)(b := Some \<lparr>ctx_dlsym = h, ctx_fn = name\<rparr>))(a := None)" for st' :: "'a loader"
    using that ne k(1) len unfolding module_loaded_def by (intro exI [of _ k]) simp
  have rest: "h \<in> set (remove1 (ctx_dlsym c) (h # handles st))" using lib(1) by auto
  have first: "\<exists>st2. run_threads dl [1, 0] ?st1 = Inr st2 \<and> module_loaded st2 name \<and> cmds st2 = t2"
    using a k lib rest opens(3) tree(3) len ne by (simp add: run_deinit [where i = i and c = c] run_init [where f = init] stays)
  have second: "\<exists>st3. run_threads dl [0, 1] ?st1 = Inr st3 \<and> module_loaded st3 name \<and> cmds st3 = cleanup t1"
    using a k lib opens(3) tree(2) len ne by (simp add: run_deinit [where i = i and c = c] run_init [where f = init] stays)
  have wf: "tree_wf (cleanup (cmds st))" using ct.unregister_list_lookup [OF tree(1), of "map fst cs"] by (simp add: cleanup_unregisters)
  have "cmd_lookup t2 m = (case last_binding same_command cs m of Some h \<Rightarrow> Some h | None \<Rightarrow> cmd_lookup (cmds st) m)" for m
    using init_lookup(2) [OF wf tree(3)] cleanup_lookup [OF tree(1)] last_binding_eq_None [of same_command cs m]
    by (auto split: option.split)
  moreover have "cmd_lookup (cleanup t1) m = (if \<exists>c \<in> set cs. same_command (fst c) m then None else cmd_lookup (cmds st) m)" for m
    using init_lookup [OF tree(1,2)] cleanup_lookup last_binding_eq_None [of same_command cs m] by (auto split: option.split)
  moreover have "length (threads ?st1) = 2" by simp
  ultimately show ?thesis using run first second by metis
qed

end

section \<open>Properties\<close>

text \<open>
  C26: A module file that is written while its module is loaded, by the code of the same commands. If the cleanup thread runs before the
  init thread the commands resolve to the new handlers; if it runs after it, the new module is in the array and not one of its
  commands resolves. The watcher asks to wait for the cleanup, but the join of a detached thread fails at once, so both orders are possible.
\<close>

theorem reload_race_loses_commands:
  assumes ok: "loader_ok st" and none: "threads st = []" and there: "module_loaded st name" and free: "used (loaded st) < loaded_len st"
    and old: "\<forall>a c. ctxs st a = Some c \<longrightarrow> ctx_fn c = name \<longrightarrow> ctx_dlsym c \<in> set (handles st) \<and>
      code_cleanup (dl_code dl (ctx_dlsym c)) = Some (\<lambda>t. unregister_list modules_unregister_cmd t (map fst cs))"
    and opens: "dl_open dl (mod_dir @ name) = Some h" "path_ok luck' mod_dir name"
      "code_init (dl_code dl h) = Some (\<lambda>t. register_list (modules_register_cmd mem) t cs)"
    and tree: "tree_wf (cmds st)" "register_list (modules_register_cmd mem) (cmds st) cs = (t1, 0)"
      "register_list (modules_register_cmd mem) (unregister_list modules_unregister_cmd (cmds st) (map fst cs)) cs = (t2, 0)"
    and luck: "slot_realloc luck" "slot_malloc luck" "thread_create luck"
    and luck': "slot_realloc luck'" "slot_malloc luck'" "thread_create luck'" "ctx_block luck' = Some b" "ctxs st b = None"
  shows "\<exists>st1 st2 st3. watch_event dl mod_dir luck luck' name False st = Inr st1 \<and> length (threads st1) = 2 \<and>
    run_threads dl [1, 0] st1 = Inr st2 \<and> module_loaded st2 name \<and>
    (\<forall>m. cmd_lookup (cmds st2) m = (case last_binding same_command cs m of Some h \<Rightarrow> Some h | None \<Rightarrow> cmd_lookup (cmds st) m)) \<and>
    run_threads dl [0, 1] st1 = Inr st3 \<and> module_loaded st3 name \<and>
    (\<forall>m. cmd_lookup (cmds st3) m = (if \<exists>c \<in> set cs. same_command (fst c) m then None else cmd_lookup (cmds st) m))"
  by (rule listed.rewrite_race [OF assms])

theorem reload_race_loses_commands_witness:
  "\<exists>(dl :: bot_handler dl_env) st st1 st2 st3. watch_event dl ''m/'' (full_luck 8) (full_luck 9) ''op.so'' False st = Inr st1 \<and>
    cmd_lookup (cmds st) ''op'' = Some Chanop_cmd \<and>
    run_threads dl [1, 0] st1 = Inr st2 \<and> cmd_lookup (cmds st2) ''op'' = Some Chanop_cmd \<and>
    run_threads dl [0, 1] st1 = Inr st3 \<and> module_loaded st3 ''op.so'' \<and> cmd_lookup (cmds st3) ''op'' = None"
proof -
  let ?cs = "[(''op'', Chanop_cmd)]"
  define dl where "dl = \<lparr>dl_open = \<lambda>_. Some 7, dl_code = (\<lambda>h. \<lparr>code_init = Some (\<lambda>t. register_list (modules_register_cmd 12) t ?cs),
    code_cleanup = Some (\<lambda>t. unregister_list modules_unregister_cmd t (map fst ?cs))\<rparr>)\<rparr>"
  have reg: "\<exists>t'. register_list (modules_register_cmd 12) t ?cs = (t', 0)" for t :: "bot_handler command_tree"
    by (rule register_list_succeeds) (simp add: child_index_def)
  obtain t0 where t0: "register_list (modules_register_cmd 12) new_node ?cs = (t0, 0)" using reg by blast
  define st where "st = \<lparr>loaded = Some 3 # replicate 5 None, loaded_block = 1, loaded_len = 6, loaded_use = 1, array_mutex = False,
    ctxs = [3 \<mapsto> \<lparr>ctx_dlsym = 7, ctx_fn = ''op.so''\<rparr>], handles = [7], cmds = t0,
    job_pool = \<lparr>pool_slots = [None, None], pool_len = 2, pool_flags = 0\<rparr>, threads = []\<rparr>"
  have ok: "loader_ok st" by (auto simp: st_def loader_ok_def pool_ok_def used_def slots_live_def nth_Cons')
  have there: "module_loaded st ''op.so''" by (auto simp: module_loaded_def st_def intro: exI [of _ 0])
  have old: "\<forall>a c. ctxs st a = Some c \<longrightarrow> ctx_fn c = ''op.so'' \<longrightarrow> ctx_dlsym c \<in> set (handles st) \<and>
      code_cleanup (dl_code dl (ctx_dlsym c)) = Some (\<lambda>t. unregister_list modules_unregister_cmd t (map fst ?cs))"
    by (simp add: st_def dl_def)
  have same: "same_command ''op'' ''op''" by (simp add: same_command_def child_index_def)
  have wf: "tree_wf (cmds st)" and at: "cmd_lookup (cmds st) ''op'' = Some Chanop_cmd"
    using ct.register_list_inv [OF tree_wf_new_node t0] ct.register_list_lookup [OF tree_wf_new_node t0, of "''op''"] same by (simp_all add: st_def)
  obtain t1 where t1: "register_list (modules_register_cmd 12) (cmds st) ?cs = (t1, 0)" using reg by blast
  obtain t2 where t2: "register_list (modules_register_cmd 12) (unregister_list modules_unregister_cmd (cmds st) (map fst ?cs)) ?cs = (t2, 0)"
    using reg by blast
  have rest: "threads st = []" "used (loaded st) < loaded_len st" "dl_open dl (''m/'' @ ''op.so'') = Some 7"
    "path_ok (full_luck 9) ''m/'' ''op.so''" "code_init (dl_code dl 7) = Some (\<lambda>t. register_list (modules_register_cmd 12) t ?cs)"
    by (simp_all add: st_def dl_def full_luck_def path_ok_def PATH_MAX_def used_def)
  obtain st1 st2 st3 where "watch_event dl ''m/'' (full_luck 8) (full_luck 9) ''op.so'' False st = Inr st1"
    "run_threads dl [1, 0] st1 = Inr st2" "run_threads dl [0, 1] st1 = Inr st3" "module_loaded st3 ''op.so''"
    "\<forall>m. cmd_lookup (cmds st2) m = (case last_binding same_command ?cs m of Some h \<Rightarrow> Some h | None \<Rightarrow> cmd_lookup (cmds st) m)"
    "\<forall>m. cmd_lookup (cmds st3) m = (if \<exists>c \<in> set ?cs. same_command (fst c) m then None else cmd_lookup (cmds st) m)"
    using reload_race_loses_commands [where b = 9 and luck = "full_luck 8" and luck' = "full_luck 9" and cs = ?cs and mem = 12 and dl = dl
        and mod_dir = "''m/''", OF ok rest(1) there rest(2) old rest(3-5) wf t1 t2]
    by (auto simp: full_luck_def st_def)
  with at same show ?thesis by (intro exI [of _ dl] exI [of _ st] exI [of _ st1] exI [of _ st2] exI [of _ st3]) simp
qed

end
