(* ===== verification/Loader_Steps.thy ===== *)
theory Loader_Steps
  imports Module_Loader
begin

text \<open>
  The loader as a state machine: loads, events of the watcher and threads in any order. When nothing is unloaded or moved while a
  thread still holds a slot, every reachable state is in order and no step faults.
\<close>

section \<open>The threads that hold a slot\<close>

fun pending :: "loader_job \<Rightarrow> job_args option" where
  "pending (Init_job arg) = Some arg"
| "pending (Deinit_job arg) = Some arg"
| "pending (Done_job arg) = None"

fun job_of :: "loader_job \<Rightarrow> job_args" where
  "job_of (Init_job arg) = arg"
| "job_of (Deinit_job arg) = arg"
| "job_of (Done_job arg) = arg"

fun is_deinit :: "loader_job \<Rightarrow> bool" where
  "is_deinit (Deinit_job arg) = True"
| "is_deinit _ = False"

definition unloading :: "loader_job list \<Rightarrow> nat" where
  "unloading js = length (filter is_deinit js)"

definition threads_idle :: "'h loader \<Rightarrow> bool" where
  "threads_idle st \<longleftrightarrow> (\<forall>j \<in> set (threads st). pending j = None)"

text \<open>Two threads at different places do not hold the same slot.\<close>

definition jobs_hold :: "loader_job list \<Rightarrow> nat \<Rightarrow> nat option list \<Rightarrow> bool" where
  "jobs_hold js block xs \<longleftrightarrow>
     (\<forall>k arg. k < length js \<longrightarrow> pending (js ! k) = Some arg \<longrightarrow>
        fst (job_pos arg) = block \<and> snd (job_pos arg) < length xs \<and> xs ! snd (job_pos arg) = Some (job_ctx arg) \<and>
        (\<forall>k' arg'. k' < length js \<longrightarrow> pending (js ! k') = Some arg' \<longrightarrow> snd (job_pos arg') = snd (job_pos arg) \<longrightarrow> k' = k))"

text \<open>
  The invariant. A module that is being unloaded is no longer counted but still has its slot.
\<close>

definition loader_safe :: "'h loader \<Rightarrow> bool" where
  "loader_safe st \<longleftrightarrow> length (loaded st) = loaded_len st \<and> \<not> array_mutex st \<and> pool_ok (job_pool st) \<and>
     slots_live (loaded st) (ctxs st) \<and> int (used (loaded st)) \<le> loaded_use st + int (unloading (threads st)) \<and>
     loaded_use st < int (loaded_len st) \<and> (\<forall>j \<in> set (threads st). job_n (job_of j) < pool_len (job_pool st)) \<and>
     jobs_hold (threads st) (loaded_block st) (loaded st)"

lemma is_deinit_pending: "is_deinit j \<Longrightarrow> pending j \<noteq> None"
  by (cases j) auto

lemma idle_unloading: "threads_idle st \<Longrightarrow> unloading (threads st) = 0"
  by (auto simp: threads_idle_def unloading_def filter_empty_conv dest: is_deinit_pending)

lemma loader_safe_idle: "threads_idle st \<Longrightarrow> loader_safe st \<Longrightarrow> loader_ok st"
  by (simp add: loader_safe_def loader_ok_def idle_unloading)

lemma jobs_hold_idle: "\<forall>j \<in> set js. pending j = None \<Longrightarrow> jobs_hold js block xs"
  by (auto simp: jobs_hold_def)

lemma jobs_holdD:
  assumes "jobs_hold js block xs" and "k < length js" and "pending (js ! k) = Some arg"
  shows "fst (job_pos arg) = block" and "snd (job_pos arg) < length xs" and "xs ! snd (job_pos arg) = Some (job_ctx arg)"
    and "k' < length js \<Longrightarrow> pending (js ! k') = Some arg' \<Longrightarrow> snd (job_pos arg') = snd (job_pos arg) \<Longrightarrow> k' = k"
  using assms unfolding jobs_hold_def by blast+

text \<open>A thread that is done holds nothing, a new one may hold a slot that was free.\<close>

lemma jobs_hold_done:
  assumes "jobs_hold js block xs" and "k < length js" and "pending (js ! k) = Some arg"
    and xs': "length xs' = length xs" "\<And>i. i \<noteq> snd (job_pos arg) \<Longrightarrow> xs' ! i = xs ! i"
  shows "jobs_hold (js[k := Done_job arg']) block xs'"
  unfolding jobs_hold_def
proof (intro allI impI)
  fix l b assume "l < length (js[k := Done_job arg'])" and b: "pending (js[k := Done_job arg'] ! l) = Some b"
  then have l: "l < length js" "l \<noteq> k" by (auto simp: nth_list_update split: if_splits)
  then have lb: "pending (js ! l) = Some b" using b by simp
  note hold = jobs_holdD [OF assms(1) l(1) lb]
  have "snd (job_pos b) \<noteq> snd (job_pos arg)" using jobs_holdD(4) [OF assms(1) l(1) lb assms(2,3)] l(2) by auto
  moreover have "k' = l" if "k' < length js" and "pending (js[k := Done_job arg'] ! k') = Some c" and "snd (job_pos c) = snd (job_pos b)" for k' c
  proof -
    have "k' \<noteq> k" using that(2) assms(2) by auto
    then show ?thesis using hold(4) [OF that(1) _ that(3)] that(2) by simp
  qed
  ultimately show "fst (job_pos b) = block \<and> snd (job_pos b) < length xs' \<and> xs' ! snd (job_pos b) = Some (job_ctx b) \<and>
      (\<forall>k' c. k' < length (js[k := Done_job arg']) \<longrightarrow> pending (js[k := Done_job arg'] ! k') = Some c \<longrightarrow>
        snd (job_pos c) = snd (job_pos b) \<longrightarrow> k' = l)"
    using hold(1-3) xs' by auto
qed

lemma jobs_hold_new:
  assumes "jobs_hold js block xs" and "pending j = Some arg" and "fst (job_pos arg) = block" and "snd (job_pos arg) < length xs"
    and "xs' = xs[snd (job_pos arg) := Some (job_ctx arg)]"
    and free: "\<And>k b. k < length js \<Longrightarrow> pending (js ! k) = Some b \<Longrightarrow> snd (job_pos b) \<noteq> snd (job_pos arg)"
  shows "jobs_hold (j # js) block xs'"
  unfolding jobs_hold_def
proof (intro allI impI)
  fix l b assume l: "l < length (j # js)" and b: "pending ((j # js) ! l) = Some b"
  have others: "k' = l" if "k' < length (j # js)" and "pending ((j # js) ! k') = Some c" and "snd (job_pos c) = snd (job_pos b)" for k' c
    using that l b free jobs_holdD(4) [OF assms(1)] assms(2) by (cases k'; cases l) force+
  have "fst (job_pos b) = block \<and> snd (job_pos b) < length xs' \<and> xs' ! snd (job_pos b) = Some (job_ctx b)"
  proof (cases l)
    case 0
    then show ?thesis using b assms(2-5) by simp
  next
    case (Suc m)
    then have m: "m < length js" "pending (js ! m) = Some b" using l b by simp_all
    show ?thesis using jobs_holdD [OF assms(1) m] free [OF m] assms(5) by simp
  qed
  with others show "fst (job_pos b) = block \<and> snd (job_pos b) < length xs' \<and> xs' ! snd (job_pos b) = Some (job_ctx b) \<and>
      (\<forall>k' c. k' < length (j # js) \<longrightarrow> pending ((j # js) ! k') = Some c \<longrightarrow> snd (job_pos c) = snd (job_pos b) \<longrightarrow> k' = l)" by blast
qed

lemma jobs_hold_remove:
  assumes "jobs_hold js block xs"
  shows "jobs_hold (take k js @ drop (Suc k) js) block xs"
proof (cases "k < length js")
  case False
  then show ?thesis using assms by simp
next
  case True
  define f where "f l = (if l < k then l else Suc l)" for l
  have at: "(take k js @ drop (Suc k) js) ! l = js ! f l \<and> f l < length js" if "l < length (take k js @ drop (Suc k) js)" for l
    using that True by (auto simp: f_def nth_append min_def)
  have inj: "f l = f m \<Longrightarrow> l = m" for l m by (auto simp: f_def split: if_splits)
  show ?thesis
    unfolding jobs_hold_def
  proof (intro allI impI)
    fix l b assume l: "l < length (take k js @ drop (Suc k) js)" and b: "pending ((take k js @ drop (Suc k) js) ! l) = Some b"
    have hb: "f l < length js" "pending (js ! f l) = Some b" using at [OF l] b by simp_all
    have "k' = l" if "k' < length (take k js @ drop (Suc k) js)" and "pending ((take k js @ drop (Suc k) js) ! k') = Some c"
      and "snd (job_pos c) = snd (job_pos b)" for k' c
      using jobs_holdD(4) [OF assms hb, of "f k'" c] at [OF that(1)] that(2,3) inj by simp
    then show "fst (job_pos b) = block \<and> snd (job_pos b) < length xs \<and> xs ! snd (job_pos b) = Some (job_ctx b) \<and>
        (\<forall>k' c. k' < length (take k js @ drop (Suc k) js) \<longrightarrow> pending ((take k js @ drop (Suc k) js) ! k') = Some c \<longrightarrow>
          snd (job_pos c) = snd (job_pos b) \<longrightarrow> k' = l)"
      using jobs_holdD(1-3) [OF assms hb] by blast
  qed
qed

lemma used_clear_taken: "i < length xs \<Longrightarrow> xs ! i = Some a \<Longrightarrow> used (xs[i := None]) + 1 = used xs"
  using used_split(1) [of i xs None] used_split(2) [of i xs] by (simp add: used_def)

lemma unloading_update:
  "k < length js \<Longrightarrow> js ! k = Deinit_job arg \<Longrightarrow> unloading (js[k := Done_job arg]) + 1 = unloading js"
  "k < length js \<Longrightarrow> js ! k = Init_job arg \<Longrightarrow> unloading (js[k := Done_job arg]) = unloading js"
proof -
  assume k: "k < length js"
  have split: "js = take k js @ js ! k # drop (Suc k) js" using k by (rule id_take_nth_drop)
  have upd: "js[k := Done_job arg] = take k js @ Done_job arg # drop (Suc k) js" using k by (rule upd_conv_take_nth_drop)
  have "unloading js = unloading (take k js) + (if is_deinit (js ! k) then 1 else 0) + unloading (drop (Suc k) js)"
    by (subst split) (simp add: unloading_def)
  moreover have "unloading (js[k := Done_job arg]) = unloading (take k js) + unloading (drop (Suc k) js)"
    unfolding upd by (simp add: unloading_def)
  ultimately show "js ! k = Deinit_job arg \<Longrightarrow> unloading (js[k := Done_job arg]) + 1 = unloading js"
    and "js ! k = Init_job arg \<Longrightarrow> unloading (js[k := Done_job arg]) = unloading js" by simp_all
qed

lemma unloading_done: "k < length js \<Longrightarrow> pending (js ! k) = Some arg \<Longrightarrow> unloading js \<le> unloading (js[k := Done_job arg]) + 1"
  using unloading_update [of k js arg] by (cases "js ! k") auto

section \<open>A thread step\<close>

lemma loader_safeD:
  assumes "loader_safe st"
  shows "length (loaded st) = loaded_len st" and "\<not> array_mutex st" and "pool_ok (job_pool st)"
    and "slots_live (loaded st) (ctxs st)" and "int (used (loaded st)) \<le> loaded_use st + int (unloading (threads st))"
    and "loaded_use st < int (loaded_len st)" and "j \<in> set (threads st) \<Longrightarrow> job_n (job_of j) < pool_len (job_pool st)"
    and "jobs_hold (threads st) (loaded_block st) (loaded st)"
  using assms by (auto simp: loader_safe_def)

lemma job_of_update:
  assumes "\<forall>j \<in> set js. job_n (job_of j) < m" and "k < length js" and "job_of (js ! k) = arg"
  shows "\<forall>j \<in> set (js[k := Done_job arg]). job_n (job_of j) < m"
proof -
  have "job_n arg < m" using assms nth_mem [OF assms(2)] by blast
  then show ?thesis using assms(1) set_update_subset_insert [of js k "Done_job arg"] by fastforce
qed

text \<open>The thread ends with its slot kept, or with its slot and its context given up.\<close>

lemma safe_keep:
  assumes safe: "loader_safe st" and k: "k < length (threads st)" "threads st ! k = Init_job arg"
  shows "loader_safe (st\<lparr>threads := (threads st)[k := Done_job arg], cmds := t\<rparr>)"
  using loader_safeD [OF safe] job_of_update [of "threads st" _ k arg] k
    jobs_hold_done [OF loader_safeD(8) [OF safe] k(1), of arg "loaded st" arg] unloading_update(2) [OF k]
  by (simp add: loader_safe_def)

lemma safe_drop:
  assumes safe: "loader_safe st" and k: "k < length (threads st)" "pending (threads st ! k) = Some arg"
  shows "loader_safe (st\<lparr>threads := (threads st)[k := Done_job arg], cmds := t, loaded := (loaded st)[snd (job_pos arg) := None],
    handles := hs, ctxs := (ctxs st)(job_ctx arg := None)\<rparr>)"
proof -
  note hold = jobs_holdD [OF loader_safeD(8) [OF safe] k]
  have "jobs_hold ((threads st)[k := Done_job arg]) (loaded_block st) ((loaded st)[snd (job_pos arg) := None])"
    by (rule jobs_hold_done [OF loader_safeD(8) [OF safe] k]) simp_all
  moreover have "slots_live ((loaded st)[snd (job_pos arg) := None]) ((ctxs st)(job_ctx arg := None))"
    using loader_safeD(4) [OF safe] hold(2,3) by (rule slots_live_drop)
  moreover have "used ((loaded st)[snd (job_pos arg) := None]) + 1 = used (loaded st)"
    using hold(2,3) by (rule used_clear_taken)
  moreover have "job_of (threads st ! k) = arg" using k(2) by (cases "threads st ! k") simp_all
  then have "\<forall>j \<in> set ((threads st)[k := Done_job arg]). job_n (job_of j) < pool_len (job_pool st)"
    using loader_safeD(7) [OF safe] k(1) by (intro job_of_update) auto
  ultimately show ?thesis using loader_safeD [OF safe] unloading_done [OF k] by (simp add: loader_safe_def)
qed

lemma run_thread_safe:
  assumes safe: "loader_safe st" and k: "k < length (threads st)"
  shows "\<exists>st'. run_thread dl k st = Inr st' \<and> loader_safe st'"
proof -
  have drop: "\<exists>st'. and_then (clear_pos (st\<lparr>threads := (threads st)[k := Done_job arg], cmds := t\<rparr>) (job_pos arg))
        (\<lambda>st. close_free st (job_ctx arg)) = Inr st' \<and> loader_safe st'"
    and live: "ctxs st (job_ctx arg) \<noteq> None" if p: "pending (threads st ! k) = Some arg" for arg t
  proof -
    note hold = jobs_holdD [OF loader_safeD(8) [OF safe] k p]
    show l: "ctxs st (job_ctx arg) \<noteq> None" using slots_liveD(1) [OF loader_safeD(4) [OF safe] hold(2,3)] .
    then obtain c where c: "ctxs st (job_ctx arg) = Some c" by blast
    then show "\<exists>st'. and_then (clear_pos (st\<lparr>threads := (threads st)[k := Done_job arg], cmds := t\<rparr>) (job_pos arg))
        (\<lambda>st. close_free st (job_ctx arg)) = Inr st' \<and> loader_safe st'"
      using hold safe_drop [OF safe k p] by (simp add: clear_pos_def close_free_def ctx_at_def)
  qed
  show ?thesis
  proof (cases "threads st ! k")
    case (Init_job arg)
    have p: "pending (threads st ! k) = Some arg" using Init_job by simp
    let ?st = "st\<lparr>threads := (threads st)[k := Done_job arg]\<rparr>"
    obtain c where c: "ctxs st (job_ctx arg) = Some c" using live [OF p] by blast
    have same: "?st\<lparr>cmds := cmds st\<rparr> = ?st" by simp
    have run: "run_thread dl k st = threadpool_wrapper_init dl arg ?st" using k Init_job by (simp add: run_thread_def)
    have "(\<exists>t. threadpool_wrapper_init dl arg ?st = Inr (?st\<lparr>cmds := t\<rparr>)) \<or> (\<exists>t. threadpool_wrapper_init dl arg ?st =
        and_then (clear_pos (?st\<lparr>cmds := t\<rparr>) (job_pos arg)) (\<lambda>st. close_free st (job_ctx arg)))"
    proof (cases "job_handler arg \<in> set (handles st) \<and> code_init (dl_code dl (job_handler arg)) \<noteq> None")
      case True
      then obtain f t r where "code_init (dl_code dl (job_handler arg)) = Some f" "f (cmds st) = (t, r)" by fastforce
      then show ?thesis using True c by (cases "r = 0") (auto simp: threadpool_wrapper_init_def Let_def ctx_at_def)
    next
      case False
      then have "threadpool_wrapper_init dl arg ?st = and_then (clear_pos ?st (job_pos arg)) (\<lambda>st. close_free st (job_ctx arg))"
        using c by (auto simp: threadpool_wrapper_init_def Let_def ctx_at_def)
      then show ?thesis using same by metis
    qed
    then show ?thesis using run safe_keep [OF safe k Init_job] drop [OF p] by auto
  next
    case (Deinit_job arg)
    then have p: "pending (threads st ! k) = Some arg" by simp
    have "\<exists>t. run_thread dl k st = and_then (clear_pos (st\<lparr>threads := (threads st)[k := Done_job arg], cmds := t\<rparr>) (job_pos arg))
        (\<lambda>st. close_free st (job_ctx arg))"
      using k Deinit_job
      by (auto simp: run_thread_def threadpool_wrapper_deinit_def Let_def split: option.split intro: exI [of _ "cmds st"])
    then show ?thesis using drop [OF p] by auto
  next
    case (Done_job arg)
    have n: "job_n arg < pool_len (job_pool st)" using loader_safeD(7) [OF safe nth_mem [OF k]] Done_job by simp
    define tp where "tp = (job_pool st)\<lparr>pool_slots := (pool_slots (job_pool st))[job_n arg := None]\<rparr>"
    let ?ts = "take k (threads st) @ drop (Suc k) (threads st)"
    have "thread_exit (job_pool st) (job_n arg) = Some tp"
      using loader_safeD(3) [OF safe] by (simp add: thread_exit_def pool_ok_def tp_def)
    then have run: "run_thread dl k st = Inr (st\<lparr>job_pool := tp, threads := ?ts\<rparr>)"
      using k Done_job n loader_safeD(3) [OF safe] by (simp add: run_thread_def pool_ok_def)
    have split: "threads st = take k (threads st) @ Done_job arg # drop (Suc k) (threads st)"
      using id_take_nth_drop [OF k] Done_job by simp
    have "unloading (threads st) = unloading ?ts" by (subst split) (simp add: unloading_def)
    moreover have "set ?ts \<subseteq> set (threads st)" using set_take_subset set_drop_subset by fastforce
    moreover have "pool_ok tp" and "pool_len tp = pool_len (job_pool st)" using loader_safeD(3) [OF safe] by (simp_all add: tp_def pool_ok_def)
    ultimately have "loader_safe (st\<lparr>job_pool := tp, threads := ?ts\<rparr>)"
      using loader_safeD [OF safe] jobs_hold_remove [OF loader_safeD(8) [OF safe], of k]
      by (simp add: loader_safe_def) blast
    with run show ?thesis by blast
  qed
qed

section \<open>Loads and events\<close>

text \<open>The pool never shrinks, so the slots of the threads stay valid.\<close>

lemma findspace_mono:
  "threadpool_queue_findspace r junk tp = Inr (tp', x) \<Longrightarrow> pool_len tp \<le> pool_len tp'"
  by (auto simp: threadpool_queue_findspace_def Let_def and_then_Inr_iff split: if_splits)

lemma queue_job_mono:
  assumes "queue_job luck arg kind st = Inr st'"
  shows "pool_len (job_pool st) \<le> pool_len (job_pool st')"
proof -
  obtain tp x where f: "threadpool_queue_findspace (slot_realloc luck) (slot_junk luck) (job_pool st) = Inr (tp, x)"
    using assms by (auto simp: queue_job_def and_then_Inr_iff)
  have "job_pool st' = tp \<or> (\<exists>cs. job_pool st' = tp\<lparr>pool_slots := cs\<rparr>)"
    using assms f by (cases x) (auto simp: queue_job_def and_then_Inr_iff)
  then show ?thesis using findspace_mono [OF f] by auto
qed

lemma place_module_mono:
  assumes "place_module luck h f st = Inr st'"
  shows "pool_len (job_pool st) \<le> pool_len (job_pool st')"
proof (cases "ctx_block luck")
  case None
  then show ?thesis using assms
    by (auto simp: place_module_def modules_ctx_new_def and_then_Inr_iff split: if_splits)
next
  case (Some a)
  then obtain i l st2 where q: "threadpool_queue_init luck a h (loaded_block st, i)
      (st\<lparr>ctxs := (ctxs st)(a := Some \<lparr>ctx_dlsym = h, ctx_fn = f\<rparr>), loaded := l\<rparr>) = Inr st2"
    and st': "st' = st2\<lparr>loaded_use := loaded_use st2 + 1\<rparr>"
    using assms by (auto simp: place_module_def modules_ctx_new_def and_then_Inr_iff Let_def split: if_splits)
  show ?thesis using queue_job_mono [OF q [unfolded threadpool_queue_init_def]] st' by simp
qed

lemma unloadmod_mono:
  assumes "modules_unloadmod dl luck a pos wait st = Inr st'"
  shows "pool_len (job_pool st) \<le> pool_len (job_pool st')"
proof -
  obtain c where c: "ctx_at st a = Inr c" using assms by (auto simp: modules_unloadmod_def and_then_Inr_iff)
  show ?thesis
  proof (cases "code_cleanup (dl_code dl (ctx_dlsym c)) = None")
    case True
    then show ?thesis using assms c by (auto simp: modules_unloadmod_def close_free_def)
  next
    case False
    then obtain st1 where "threadpool_queue_deinit luck (ctx_dlsym c) a pos wait st = Inr st1" "job_pool st' = job_pool st1"
      using assms c by (auto simp: modules_unloadmod_def and_then_Inr_iff)
    then show ?thesis using queue_job_mono unfolding threadpool_queue_deinit_def by metis
  qed
qed

lemma loader_safe_handles [simp]: "loader_safe (st\<lparr>handles := hs\<rparr>) = loader_safe st"
  by (simp add: loader_safe_def)

lemma place_safe:
  assumes safe: "loader_safe st" and room: "used (loaded st) < loaded_len st" "loaded_use st + 1 < int (loaded_len st)"
    and luck: "slot_realloc luck" "\<And>a. ctx_block luck = Some a \<Longrightarrow> ctxs st a = None"
  shows "\<exists>st'. place_module luck h f st = Inr st' \<and> loader_safe st'"
proof (cases "ctx_block luck")
  case None
  then have "place_module luck h f st = Inr (st\<lparr>handles := remove1 h (handles st)\<rparr>)"
    using place_module_ok [OF loader_safeD(1,3) [OF safe] room(1) luck(1), where h = h and mod_file = f] by blast
  then show ?thesis using safe by simp
next
  case (Some a)
  obtain k tp n ths where k: "k < loaded_len st" "loaded st ! k = None" and tp: "pool_ok tp" "n < pool_len tp"
    and place: "place_module luck h f st = Inr (st\<lparr>ctxs := (ctxs st)(a := Some \<lparr>ctx_dlsym = h, ctx_fn = f\<rparr>),
      loaded := (loaded st)[k := Some a], job_pool := tp, threads := ths, loaded_use := loaded_use st + 1\<rparr>)" (is "_ = Inr ?st'")
    and ths: "ths = (if slot_malloc luck \<and> thread_create luck
      then Init_job \<lparr>job_n = n, job_handler = h, job_ctx = a, job_pos = (loaded_block st, k)\<rparr> # threads st else threads st)"
    by (rule place_module_some [OF loader_safeD(1,3) [OF safe] room(1) luck(1) Some, where h = h and mod_file = f])
  have mono: "pool_len (job_pool st) \<le> pool_len tp" using place_module_mono [OF place] by simp
  have free: "snd (job_pos b) \<noteq> k" if "l < length (threads st)" and "pending (threads st ! l) = Some b" for l b
    using jobs_holdD(3) [OF loader_safeD(8) [OF safe] that] k(2) by auto
  let ?xs = "(loaded st)[k := Some a]"
  have "jobs_hold ths (loaded_block st) ?xs"
  proof -
    let ?j = "Init_job \<lparr>job_n = n, job_handler = h, job_ctx = a, job_pos = (loaded_block st, k)\<rparr>"
    have new: "jobs_hold (?j # threads st) (loaded_block st) ?xs"
      using jobs_hold_new [OF loader_safeD(8) [OF safe], of ?j _ ?xs] k(1) free loader_safeD(1) [OF safe] by simp
    then have "jobs_hold (threads st) (loaded_block st) ?xs" using jobs_hold_remove [OF new, of 0] by simp
    with new show ?thesis using ths by simp
  qed
  moreover have "used ?xs = used (loaded st) + 1" using k loader_safeD(1) [OF safe] by (intro used_take) simp_all
  moreover have "slots_live ?xs ((ctxs st)(a := Some \<lparr>ctx_dlsym = h, ctx_fn = f\<rparr>))"
    using loader_safeD(4) [OF safe] luck(2) [OF Some] by (rule slots_live_put)
  moreover have "\<forall>j \<in> set ths. job_n (job_of j) < pool_len tp"
    using loader_safeD(7) [OF safe] tp(2) mono ths by (fastforce split: if_splits)
  moreover have "unloading ths = unloading (threads st)" using ths by (simp add: unloading_def)
  ultimately have "loader_safe ?st'" using loader_safeD [OF safe] tp(1) room by (simp add: loader_safe_def)
  then show ?thesis using place by blast
qed

text \<open>Loading, while no thread would notice that the array moves.\<close>

lemma load_safe:
  assumes safe: "loader_safe st" and room: "used (loaded st) < loaded_len st" "threads_idle st \<or> loaded_use st + 1 < int (loaded_len st)"
    and luck: "slot_realloc luck" "\<And>a. ctx_block luck = Some a \<Longrightarrow> ctxs st a = None" "path_ok luck mod_dir name"
  shows "\<exists>st'. modules_loadmod dl mod_dir luck name st = Inr st' \<and> loader_safe st'"
proof -
  have local: "local_path (path_cells luck) mod_dir name = Inr (mod_dir @ name)" using luck(3) by (rule local_path_ok)
  note free = loader_safeD(2) [OF safe]
  show ?thesis
  proof (cases "\<exists>h. dl_open dl (mod_dir @ name) = Some h \<and> code_init (dl_code dl h) \<noteq> None")
    case False
    then have "modules_loadmod dl mod_dir luck name st = Inr st"
      using local by (auto simp: modules_loadmod_def split: option.split)
    then show ?thesis using safe by blast
  next
    case True
    then obtain h where h: "dl_open dl (mod_dir @ name) = Some h" "code_init (dl_code dl h) \<noteq> None" by blast
    let ?st = "st\<lparr>handles := h # handles st\<rparr>"
    show ?thesis
    proof (cases "loaded_use st + 1 < int (loaded_len st)")
      case True
      then have "modules_loadmod dl mod_dir luck name st = place_module luck h name ?st"
        using free by (intro loadmod_no_growth luck(3) h) simp_all
      moreover have "\<exists>st'. place_module luck h name ?st = Inr st' \<and> loader_safe st'"
        by (rule place_safe) (use safe room True luck(1,2) in simp_all)
      ultimately show ?thesis by simp
    next
      case grow: False
      then have idle: "\<forall>j \<in> set (threads st). pending j = None" using room(2) by (simp add: threads_idle_def)
      show ?thesis
      proof (cases "array_block luck")
        case None
        then have "modules_loadmod dl mod_dir luck name st = Inr st"
          using local h free grow by (auto simp: modules_loadmod_def grow_loaded_def)
        then show ?thesis using safe by blast
      next
        case (Some b)
        let ?big = "?st\<lparr>loaded := loaded st @ replicate (loaded_len st) None, loaded_block := b, loaded_len := loaded_len st * 2\<rparr>"
        have "modules_loadmod dl mod_dir luck name st = place_module luck h name ?big"
          using local h free grow Some by (auto simp: modules_loadmod_def grow_loaded_def)
        moreover have "loader_safe ?big"
          using loader_safeD [OF safe] jobs_hold_idle [OF idle]
          by (simp add: loader_safe_def used_append_free slots_live_grow)
        then have "\<exists>st'. place_module luck h name ?big = Inr st' \<and> loader_safe st'"
          by (rule place_safe) (use loader_safeD(6) [OF safe] room(1) luck(1,2) in \<open>simp_all add: used_append_free\<close>)
        ultimately show ?thesis by simp
      qed
    qed
  qed
qed

text \<open>Unloading a module that was found, with all threads at rest.\<close>

lemma unload_safe:
  assumes safe: "loader_safe st" and idle: "threads_idle st" and a: "i < loaded_len st" "loaded st ! i = Some a" "ctxs st a = Some c"
    and cleanup: "code_cleanup (dl_code dl (ctx_dlsym c)) \<noteq> None"
    and luck: "slot_realloc luck" "slot_malloc luck" "thread_create luck"
  shows "\<exists>st'. modules_unloadmod dl luck a (loaded_block st, i) wait st = Inr st' \<and> loader_safe st' \<and> loaded_use st' = loaded_use st - 1 \<and>
    loaded st' = loaded st \<and> loaded_len st' = loaded_len st \<and> ctxs st' = ctxs st"
proof -
  obtain tp n where run: "modules_unloadmod dl luck a (loaded_block st, i) wait st = Inr (st\<lparr>job_pool := tp,
      threads := (if slot_malloc luck \<and> thread_create luck
        then Deinit_job \<lparr>job_n = n, job_handler = ctx_dlsym c, job_ctx = a, job_pos = (loaded_block st, i)\<rparr> # threads st else threads st),
      loaded_use := loaded_use st - 1\<rparr>)" (is "_ = Inr ?st'") and tp: "pool_ok tp" "n < pool_len tp"
    using unloadmod_ok [OF loader_safeD(3) [OF safe] luck(1) a(3) cleanup] by blast
  have mono: "pool_len (job_pool st) \<le> pool_len tp" using unloadmod_mono [OF run] by simp
  have rest: "\<forall>j \<in> set (threads st). pending j = None" using idle by (simp add: threads_idle_def)
  then have free: "pending (threads st ! l) = None" if "l < length (threads st)" for l using that nth_mem by blast
  have same: "loaded st = (loaded st)[i := Some a]" using a(2) list_update_id [of "loaded st" i] by simp
  have "jobs_hold (threads ?st') (loaded_block st) (loaded st)"
    using jobs_hold_new [OF loader_safeD(8) [OF safe], of "Deinit_job \<lparr>job_n = n, job_handler = ctx_dlsym c, job_ctx = a, job_pos = (loaded_block st, i)\<rparr>"
        "\<lparr>job_n = n, job_handler = ctx_dlsym c, job_ctx = a, job_pos = (loaded_block st, i)\<rparr>" "loaded st"]
      a(1) same loader_safeD(1) [OF safe] free luck by simp
  moreover have "\<forall>j \<in> set (threads ?st'). job_n (job_of j) < pool_len tp"
    using loader_safeD(7) [OF safe] tp(2) mono luck by fastforce
  moreover have "unloading (threads ?st') = unloading (threads st) + 1" using luck by (simp add: unloading_def)
  ultimately have "loader_safe ?st'" using loader_safeD [OF safe] tp(1) by (simp add: loader_safe_def)
  with run show ?thesis by auto
qed

lemma event_safe:
  assumes safe: "loader_safe st" and idle: "threads_idle st" and cleanup: "\<And>h. code_cleanup (dl_code dl h) \<noteq> None"
    and luck: "slot_realloc luck" "slot_malloc luck" "thread_create luck"
    and luck': "deleted \<or> slot_realloc luck' \<and> path_ok luck' mod_dir name" "\<And>a. ctx_block luck' = Some a \<Longrightarrow> ctxs st a = None"
  shows "\<exists>st'. watch_event dl mod_dir luck luck' name deleted st = Inr st' \<and> loader_safe st'"
proof -
  note free = loader_safeD(2) [OF safe] and find = find_file_loaded [OF loader_safeD(1,4) [OF safe]]
  have room: "int (used (loaded st)) \<le> loaded_use st" using loader_safeD(5) [OF safe] idle_unloading [OF idle] by simp
  show ?thesis
  proof (cases "module_loaded st name")
    case True
    then obtain a i c where f: "find_file st name 0 = Inr (Some (a, i))" and a: "i < loaded_len st" "loaded st ! i = Some a" "ctxs st a = Some c"
      using find(1) by blast
    obtain st1 where st1: "modules_unloadmod dl luck a (loaded_block st, i) True st = Inr st1" "loader_safe st1"
      "loaded_use st1 = loaded_use st - 1" "loaded st1 = loaded st" "loaded_len st1 = loaded_len st" "ctxs st1 = ctxs st"
      using unload_safe [OF safe idle a cleanup luck] by blast
    have run: "watch_event dl mod_dir luck luck' name deleted st = (if deleted then Inr st1 else modules_loadmod dl mod_dir luck' name st1)"
      using f st1(1) free by (simp add: watch_event_def)
    show ?thesis
    proof (cases deleted)
      case False
      have "\<exists>st'. modules_loadmod dl mod_dir luck' name st1 = Inr st' \<and> loader_safe st'"
        by (rule load_safe [OF st1(2)]) (use st1(3-6) room loader_safeD(6) [OF safe] luck' False in auto)
      then show ?thesis using run False by simp
    qed (use run st1(2) in simp)
  next
    case False
    then have run: "watch_event dl mod_dir luck luck' name deleted st = (if deleted then Inr st else modules_loadmod dl mod_dir luck' name st)"
      using find(2) free by (simp add: watch_event_def)
    show ?thesis
    proof (cases deleted)
      case False
      have "\<exists>st'. modules_loadmod dl mod_dir luck' name st = Inr st' \<and> loader_safe st'"
        by (rule load_safe [OF safe]) (use room loader_safeD(6) [OF safe] idle luck' False in auto)
      then show ?thesis using run False by simp
    qed (use run safe in simp)
  qed
qed

section \<open>The machine\<close>

datatype loader_step =
    Load string luck
  | Event string bool luck luck
  | Thread nat

fun do_step :: "'h dl_env \<Rightarrow> string \<Rightarrow> loader_step \<Rightarrow> 'h loader \<Rightarrow> fault + 'h loader" where
  "do_step dl mod_dir (Load name luck) st = modules_loadmod dl mod_dir luck name st"
| "do_step dl mod_dir (Event name deleted luck luck') st = watch_event dl mod_dir luck luck' name deleted st"
| "do_step dl mod_dir (Thread k) st = run_thread dl k st"

text \<open>
  When a step is taken: a load when it does not move the array under a thread and no slot is about to be freed, an event of the
  watcher when the threads are at rest. The memory an unload needs is there.
\<close>

fun spaced :: "string \<Rightarrow> loader_step \<Rightarrow> 'h loader \<Rightarrow> bool" where
  "spaced mod_dir (Load name luck) st \<longleftrightarrow>
     unloading (threads st) = 0 \<and> (threads_idle st \<or> loaded_use st + 1 < int (loaded_len st)) \<and> slot_realloc luck \<and> path_ok luck mod_dir name \<and>
     (case ctx_block luck of None \<Rightarrow> True | Some a \<Rightarrow> ctxs st a = None)"
| "spaced mod_dir (Event name deleted luck luck') st \<longleftrightarrow>
     threads_idle st \<and> slot_realloc luck \<and> slot_malloc luck \<and> thread_create luck \<and> slot_realloc luck' \<and> path_ok luck' mod_dir name \<and>
     (case ctx_block luck' of None \<Rightarrow> True | Some a \<Rightarrow> ctxs st a = None)"
| "spaced mod_dir (Thread k) st \<longleftrightarrow> k < length (threads st)"

inductive loader_reach :: "'h dl_env \<Rightarrow> string \<Rightarrow> 'h loader \<Rightarrow> 'h loader \<Rightarrow> bool" for dl mod_dir st0 where
  start: "loader_reach dl mod_dir st0 st0"
| step: "loader_reach dl mod_dir st0 st \<Longrightarrow> spaced mod_dir s st \<Longrightarrow> do_step dl mod_dir s st = Inr st' \<Longrightarrow>
    loader_reach dl mod_dir st0 st'"

lemma step_safe:
  assumes safe: "loader_safe st" and "spaced mod_dir s st" and cleanup: "\<And>h. code_cleanup (dl_code dl h) \<noteq> None"
  shows "\<exists>st'. do_step dl mod_dir s st = Inr st' \<and> loader_safe st'"
proof (cases s)
  case (Load name luck)
  have "\<exists>st'. modules_loadmod dl mod_dir luck name st = Inr st' \<and> loader_safe st'"
    by (rule load_safe [OF safe]) (use assms(2) Load loader_safeD(5,6) [OF safe] in \<open>auto split: option.splits\<close>)
  then show ?thesis by (simp add: Load)
next
  case (Event name deleted luck luck')
  have "\<exists>st'. watch_event dl mod_dir luck luck' name deleted st = Inr st' \<and> loader_safe st'"
    by (rule event_safe [OF safe _ cleanup]) (use assms(2) Event in \<open>auto split: option.splits\<close>)
  then show ?thesis by (simp add: Event)
next
  case (Thread k)
  then show ?thesis using run_thread_safe [OF safe] assms(2) by simp
qed

lemma loader_ok_safe: "loader_ok st \<Longrightarrow> threads st = [] \<Longrightarrow> loader_safe st"
  by (simp add: loader_ok_def loader_safe_def unloading_def jobs_hold_def)

text \<open>
  C20: the loader is safe as long as its steps are spaced. From a loader in order without threads, whatever the modules' code
  does, in every state that loads, events of the watcher and threads can reach, each further step succeeds: none of them
  touches freed memory, double-frees a context or ends the process. The slots of the array have contexts of their own, and each
  thread at work has a slot with its context that no other thread has.
\<close>

theorem spaced_loader_never_faults:
  assumes cleanup: "\<And>h. code_cleanup (dl_code dl h) \<noteq> None" and "loader_ok st0" and "threads st0 = []"
    and reach: "loader_reach dl mod_dir st0 st"
  shows "slots_live (loaded st) (ctxs st) \<and> jobs_hold (threads st) (loaded_block st) (loaded st) \<and>
    (\<forall>s. spaced mod_dir s st \<longrightarrow> (\<exists>st'. do_step dl mod_dir s st = Inr st'))"
proof -
  have "loader_safe st"
    using reach
  proof induction
    case start
    show ?case using assms(2,3) by (rule loader_ok_safe)
  next
    case (step st s st')
    then show ?case using step_safe [OF step.IH step.hyps(2) cleanup] by auto
  qed
  then show ?thesis using step_safe [OF _ _ cleanup] loader_safeD(4,8) by blast
qed

theorem spaced_loader_never_faults_witness:
  "\<exists>(dl :: nat dl_env) luck st0 st1 st2. threads st0 = [] \<and> do_step dl ''m/'' (Load ''op.so'' luck) st0 = Inr st1 \<and>
    length (threads st1) = 1 \<and> do_step dl ''m/'' (Thread 0) st1 = Inr st2 \<and> slots_live (loaded st2) (ctxs st2)"
proof -
  let ?dl = "\<lparr>dl_open = \<lambda>_. Some 9, dl_code = (\<lambda>h. \<lparr>code_init = Some (\<lambda>t. (t, 0)), code_cleanup = Some (\<lambda>t. t)\<rparr>)\<rparr> :: nat dl_env"
  define luck where "luck = \<lparr>array_block = Some 2, ctx_block = Some 9, slot_realloc = True, slot_malloc = True, thread_create = True,
    slot_junk = None, path_cells = replicate 4096 NUL\<rparr>"
  define st where "st = \<lparr>loaded = replicate 6 None, loaded_block = 0, loaded_len = 6, loaded_use = 0, array_mutex = False, ctxs = (\<lambda>_. None),
    handles = [], cmds = new_node :: nat command_tree, job_pool = \<lparr>pool_slots = [None, None], pool_len = 2, pool_flags = 0\<rparr>, threads = []\<rparr>"
  have ok: "loader_ok st" by (simp add: st_def loader_ok_def pool_ok_def used_def slots_live_def)
  have none: "threads st = []" by (simp add: st_def)
  have cleanup: "code_cleanup (dl_code ?dl h) \<noteq> None" for h by simp
  note safe = spaced_loader_never_faults [where dl = ?dl and mod_dir = "''m/''", OF cleanup ok none]
  have path: "path_ok luck ''m/'' ''op.so''" by (simp add: luck_def path_ok_def PATH_MAX_def)
  have sp: "spaced ''m/'' (Load ''op.so'' luck) st" using path by (simp add: st_def luck_def unloading_def)
  obtain st1 where st1: "place_module luck 9 ''op.so'' (st\<lparr>handles := 9 # handles st\<rparr>) = Inr st1" "length (threads st1) = 1"
    by (rule place_module_some [of "st\<lparr>handles := 9 # handles st\<rparr>" luck 9 9 "''op.so''"])
      (simp_all add: st_def luck_def pool_ok_def used_def)
  have load: "do_step ?dl ''m/'' (Load ''op.so'' luck) st = Inr st1"
    using loadmod_no_growth [OF path, of ?dl 9 st] st1 by (simp add: st_def)
  have reach: "loader_reach ?dl ''m/'' st st1" by (rule loader_reach.step [OF loader_reach.start sp load])
  have thread: "spaced ''m/'' (Thread 0) st1" using st1(2) by simp
  then obtain st2 where st2: "do_step ?dl ''m/'' (Thread 0) st1 = Inr st2" using safe [OF reach] by blast
  have "slots_live (loaded st2) (ctxs st2)" using safe [OF loader_reach.step [OF reach thread st2]] by blast
  then show ?thesis using none load st1(2) st2 by blast
qed

end
