(* ===== verification/Logger.thy ===== *)
theory Logger
  imports Bot_Prelude
begin

text \<open>
  The log lines of \<^verbatim>\<open>src/logger.c\<close>. The clock and the printed message are arguments; \<open>stderr\<close> is the text that is returned.
\<close>

section \<open>Definitions of the source\<close>

datatype logger_level = INFO | WARN | ERROR

definition colour :: "string \<Rightarrow> string \<Rightarrow> string" where
  "colour code word = CHR ''['' # CHR 0x1B # ''['' @ code @ ''m'' @ word @ [CHR 0x1B] @ ''[0m] ''"

definition logger_str :: "logger_level \<Rightarrow> string" where
  "logger_str level = (case level of INFO \<Rightarrow> colour ''34'' ''INFO'' | WARN \<Rightarrow> colour ''33'' ''WARN'' | ERROR \<Rightarrow> colour ''31'' ''ERR '')"

text \<open>What the code uses of \<open>struct tm\<close>.\<close>

record tm =
  tm_year :: int
  tm_mon :: int
  tm_mday :: int
  tm_hour :: int
  tm_min :: int
  tm_sec :: int

text \<open>\<open>printf\<close> of a number with leading zeros up to a width; the sign counts.\<close>

definition padded :: "nat \<Rightarrow> int \<Rightarrow> string" where
  "padded w i =
     (if i < 0 then CHR ''-'' # replicate (w - 1 - length (nat_digits (nat (- i)))) (CHR ''0'') @ nat_digits (nat (- i))
      else replicate (w - length (nat_digits (nat i))) (CHR ''0'') @ nat_digits (nat i))"

definition timestamp :: "tm \<Rightarrow> string" where
  "timestamp tm =
     padded 4 (tm_year tm + 1900) @ ''-'' @ padded 2 (tm_mon tm + 1) @ ''-'' @ padded 2 (tm_mday tm) @ '' '' @
     padded 2 (tm_hour tm) @ '':'' @ padded 2 (tm_min tm) @ '':'' @ padded 2 (tm_sec tm)"

text \<open>\<open>buf\<close> is the uninitialised array \<open>timestamp_buf\<close>.\<close>

definition logger_log :: "char list \<Rightarrow> tm \<Rightarrow> logger_level \<Rightarrow> string \<Rightarrow> string \<Rightarrow> fault + string" where
  "logger_log buf tm level module message =
     and_then (arr_blit buf 0 (timestamp tm @ [NUL]))
       (\<lambda>buf. and_then (c_string_at buf 0)
          (\<lambda>ts. Inr (''['' @ ts @ '']'' @ logger_str level @ ''['' @ module @ ''] '' @ message @ [LF])))"

section \<open>The array is large enough\<close>

lemma length_nat_digits: "n < 10 ^ Suc k \<Longrightarrow> length (nat_digits n) \<le> Suc k"
proof (induction k arbitrary: n)
  case 0
  then show ?case by (subst nat_digits.simps) simp
next
  case (Suc k)
  then have "n div 10 < 10 ^ Suc k" by (simp add: less_mult_imp_div_less)
  from Suc.IH [OF this] show ?case by (subst nat_digits.simps) simp
qed

lemma length_padded:
  assumes "0 \<le> i" and "i < 100"
  shows "length (padded 2 i) = 2"
proof -
  have "nat i < 10 ^ Suc 1" using assms by simp
  from length_nat_digits [OF this] show ?thesis using assms by (simp add: padded_def)
qed

lemma length_padded_year:
  assumes "\<bar>i\<bar> < 10 ^ 10"
  shows "length (padded 4 i) \<le> 11"
proof (cases "i < 0")
  case True
  then have "nat (- i) < 10 ^ Suc 9" using assms by simp
  from length_nat_digits [OF this] True show ?thesis by (simp add: padded_def)
next
  case False
  then have "nat i < 10 ^ Suc 9" using assms by simp
  from length_nat_digits [OF this] False show ?thesis by (simp add: padded_def)
qed

lemma padded_c_str: "c_str (padded w i)"
proof -
  have "c_str (nat_digits n)" for n
    using nat_digits_all_digit [of n] by (auto simp: c_str_def is_digit_def)
  then show ?thesis by (simp add: padded_def c_str_def)
qed

text \<open>Any time \<open>localtime\<close> gives fits the array, whatever the year.\<close>

lemma logger_log_fits:
  assumes "length buf = 32" and "\<bar>tm_year tm + 1900\<bar> < 10 ^ 10" and "0 \<le> tm_mon tm" and "tm_mon tm < 12"
    and "0 \<le> tm_mday tm" and "tm_mday tm < 32" and "0 \<le> tm_hour tm" and "tm_hour tm < 24"
    and "0 \<le> tm_min tm" and "tm_min tm < 60" and "0 \<le> tm_sec tm" and "tm_sec tm < 61"
  shows "logger_log buf tm level module message =
    Inr (''['' @ timestamp tm @ '']'' @ logger_str level @ ''['' @ module @ ''] '' @ message @ [LF])"
proof -
  have "length (timestamp tm) \<le> 26"
    using length_padded_year [OF assms(2)] assms(3-12) by (simp add: timestamp_def length_padded)
  then have "arr_blit buf 0 (timestamp tm @ [NUL]) = Inr (timestamp tm @ NUL # drop (length (timestamp tm) + 1) buf)"
    using assms(1) by (simp add: arr_blit_def)
  moreover have "c_str (timestamp tm)" using padded_c_str by (simp add: timestamp_def)
  then have "c_string_at (timestamp tm @ NUL # drop (length (timestamp tm) + 1) buf) 0 = Inr (timestamp tm)"
    by (rule c_string_at_0)
  ultimately show ?thesis by (simp add: logger_log_def)
qed

end
