(* ===== verification/Spec2Isabelle.thy ===== *)
theory Spec2Isabelle
  imports Bot_Reload Loader_Steps Logger
begin

text \<open>
  A model of minervabot, an IRC bot in C, and the theorems about it.

  \<^bold>\<open>The program.\<close> \<open>main\<close> (\<^verbatim>\<open>src/main.c\<close>) reads its settings from the environment, sets up the permission table and the module
  loader, and then connects (\<^verbatim>\<open>src/net.c\<close>), logs in and reads (\<open>irc_login\<close> and \<open>irc_loop\<close> of \<^verbatim>\<open>src/irc.c\<close>) again and again until a
  signal. The loader (\<^verbatim>\<open>src/modules.c\<close>) opens the libraries of a directory, keeps their contexts in an array and follows the
  directory with inotify; each library registers its commands in a 26-way tree from a thread of its own. \<open>irc_loop\<close> cuts lines and
  parses messages in place; \<open>modules_check_cmd\<close> resolves a message against the tree; the thread pool (\<^verbatim>\<open>src/threadpool.c\<close>) runs
  each command in a thread, which takes the sender apart, looks his level up in the permission table (\<^verbatim>\<open>src/permissions.c\<close>, on
  the hash map of \<^verbatim>\<open>src/hashmap.c\<close>) and calls the handler of the module (\<^verbatim>\<open>src/modules\<close>); the handler acts through the functions of
  \<open>core_ctx\<close> (\<^verbatim>\<open>include/module.h\<close>), which write to the network.

  \<^bold>\<open>Theories, the core.\<close>
  \<^item> \<open>Bot_Prelude\<close>: faults as values (\<open>fault + 'a\<close>, sequenced by \<open>and_then\<close>), bounds-checked arrays, C strings in buffers,
    \<open>strchr\<close>, \<open>strncmp\<close>, \<open>vsnprintf\<close> truncation, \<open>atoi\<close> and \<open>%d\<close>.
  \<^item> \<open>Crc8\<close>: the table and the loop of \<open>crc8_init\<close> and \<open>crc8_block\<close> on bytes, against the bit-serial CRC.
  \<^item> \<open>Hashmap\<close>: the map with its 16-bit lengths, blocks of cells and the outcome of each allocation. The locale \<open>kv_store\<close> states
    what the permission table needs of a store; it is interpreted on the map.
  \<^item> \<open>Permissions\<close>: the table, its mutex and its 128-byte buffer. A call on a taken mutex is \<open>Blocked\<close>. The lookup is shown to give
    the level of the most specific entry (\<open>level_of\<close>).
  \<^item> \<open>Command_Tree\<close>: the tree, registration, removal, cleaning and the walk over a message. The locale \<open>command_table\<close> is the
    table as modules see it, interpreted on the tree.
  \<^item> \<open>Irc_Output\<close>: what each sending function puts on the wire, and \<open>irc_parsesender\<close>.
  \<^item> \<open>Irc_Input\<close>: \<open>irc_loop\<close> with its 513-byte buffer, index and pointers (offsets), against a splitter of lines and a parser of a line
    on lists. \<open>Irc_Login\<close>: \<open>irc_login\<close> with its buffer and the nick that grows.
  \<^item> \<open>Network\<close>: the calls of \<open>net_connect\<close>, \<open>net_disconnect\<close> and the TLS handshake, and what they leave open.
  \<^item> \<open>Threadpool\<close>: slots, flag, growth and the block of memory that carries a command.
  \<^item> \<open>Module_Loader\<close>: the array of contexts, loading, unloading, the scan, the watcher with its loop, and the threads that run
    \<open>module_init\<close> and \<open>module_cleanup\<close>. The locale \<open>command_module\<close> is a library that registers a list of commands and
    takes them back; the life of its file is proved there once. \<open>Loader_Steps\<close>: the same operations as a state machine.
  \<^item> \<open>Logger\<close>: the text of a log line and its array. \<open>Main_Loop\<close>: settings, start, loop and end of \<open>main\<close>.

  \<^bold>\<open>Theories, the modules.\<close>
  \<^item> \<open>Libraries\<close>: libcurl, jsmn, the expression library and floating-point numbers as the fields of records.
  \<^item> \<open>Module_Context\<close>: the contract of a command handler as the locales \<open>command_handler\<close> and \<open>line_handler\<close>; \<open>permitted\<close> is the
    level each call needs. Every module interprets them.
  \<^item> \<open>Bot_Fun\<close> (\<^verbatim>\<open>bot_misc.c\<close>, \<^verbatim>\<open>bot_fun.c\<close>), \<open>Bot_Control\<close> (\<^verbatim>\<open>bot_perms.c\<close>, \<^verbatim>\<open>bot_admin.c\<close>, \<^verbatim>\<open>bot_chanop.c\<close>) and \<open>Bot_Math\<close>
    (\<^verbatim>\<open>bot_math.c\<close>).
  \<^item> \<open>Web_Fetch\<close> (\<^verbatim>\<open>mod_common.c\<close>) and \<open>Web_Text\<close> (the loop that takes a string literal out of an answer), with \<open>Bot_Web\<close>
    (\<^verbatim>\<open>bot_urban.c\<close>, \<^verbatim>\<open>bot_google.c\<close>, \<^verbatim>\<open>bot_wolfram.c\<close>) and \<open>Bot_Json\<close> (\<^verbatim>\<open>bot_geoip.c\<close>, \<^verbatim>\<open>bot_cryptocurrency.c\<close>) on them;
    \<open>Bot_Services\<close> has their commands and the contract.
  \<^item> \<open>Module_Catalogue\<close>: every module as a \<open>command_module\<close>, and all of their commands together.

  \<^bold>\<open>Theories, the parts together.\<close> \<open>Bot_System\<close> is a transition system whose steps are the reader queueing a command, a thread passing
  \<open>permissions_get\<close>, a thread running its handler, and a thread leaving. \<open>Bot_Start\<close> goes from \<open>main\<close> over the scan of the
  directory and the init threads to the first command, \<open>Bot_Reload\<close> has the two threads of a module file that is written again.

  \<^bold>\<open>What is shown.\<close> The permission lookup, the command dispatch, the line reader, the hash map, the CRC and the unescaping of
  answers each implement a specification on lists or partial functions. Across components: hosts without rank never change the
  table and never make the bot do more than talk, in every reachable state; every call is made for a sender of sufficient
  level, and that level is what the permission table gave for the host of a message the bot received; \<open>setp\<close> gives nobody the level of its sender; a command line runs exactly the handler its name resolves to, also
  from the start of the program on, for every order of the files and of the init threads; nothing a clean line brings overflows the buffer
  of the channel commands, and through the handlers that ask no library it begins no line of its own. The settings reach the wire as the
  login of the bot. The login and the loop of \<open>main\<close> end; the loader never faults while its
  steps are spaced, and a module file that comes and goes leaves it as it was. Where the code departs from this there is a theorem that says
  when: the mutex that is lost on long and missing hosts, the overflows of the host buffer and of the line buffer, the copy past a full
  bucket, the CR LF split over two reads, level 0, capital letters, the pool without memory, answers of web services that overflow an array
  or begin a line, reloads that end the process or lose the commands of the module, a module that refuses to start and writes into the freed array, connections that are left
  open, and cleanup threads that outlive the pool.

  \<^bold>\<open>Bounds.\<close> Loops over an array or a text are functions with a measure, so no fuel is used; the TLS handshake, which the code repeats as
  long as the library asks for it, is a \<open>partial_function\<close>, and the loops over the network and over events go through the list of
  what arrives. The number of nodes \<open>calloc\<close> can give is the argument \<open>mem\<close> of \<open>modules_register_cmd\<close>. Machine integers are words where
  they wrap (lengths of buckets, CRC, the arithmetic of \<open>fw\<close>, the flags of the pool, letters of keys) and \<open>int\<close> or \<open>nat\<close> where the program
  keeps them small; \<open>atoi\<close> is \<open>strtol\<close> cut to an \<open>int\<close>, as the C library on a 64-bit machine has it where the standard leaves the
  value of a long text undefined.

  \<^bold>\<open>Assumptions.\<close> A string argument holds no NUL. Uninitialised memory, \<open>rand\<close>, the clock and the success of allocations are arguments,
  and so is what \<open>dlopen\<close>, \<open>readdir\<close>, inotify, the sockets, mbedtls, libcurl, jsmn and the expression library give. Every write to
  the network is complete. A fault in a thread is caught by its signal handler and ends the thread; in a call outside a
  thread it is the end of the model, and so is one on the failure path of an init thread, which would run into it again. \<open>main_start\<close> runs the
  scan as one operation, with the init threads behind it; loads, events and threads in any order are the steps of \<open>Loader_Steps\<close>. Command handlers are interleaved at calls that take the permission mutex, the only state they share;
  the threads of the loader at their whole \<open>module_init\<close> or \<open>module_cleanup\<close>, whose calls take the mutex of the tree.

  \<^bold>\<open>Not modelled.\<close> \<^verbatim>\<open>bot_lua.c\<close>, which is compiled out; the installation of signal handlers and the printing of a backtrace; the
  terminal output; the rate at which threads poll. The pool is one array for commands and for jobs of the loader in the program and is
  modelled once for each, since the operations never look at what a slot holds.

  \<^bold>\<open>Plan.\<close> What is left is depth: the commands and the jobs of the loader in one pool, and handlers that run while their
  library is closed.
\<close>

end
